(* ===== verification/Prelude.thy ===== *)
theory Prelude
  imports Main "HOL-Library.Word"
begin

text \<open>
  Shared vocabulary of the development: the machine integer types of the C++ sources, the
  distance between two free-running 32-bit ring indices, the masking of such an index to a
  slot, and the generic lemmas on lists and words that the component theories rewrite with.
\<close>

unbundle bit_operations_syntax

section \<open>Machine integers\<close>

type_synonym u8 = "8 word"
type_synonym u16 = "16 word"
type_synonym u32 = "32 word"
type_synonym u64 = "64 word"

text \<open>File descriptors and errno results are C++ \<open>int\<close> values; no arithmetic is done on them.\<close>

type_synonym fdesc = int

named_theorems ring_simps "unfolding rules for the ring operations"
named_theorems frame_simps "fields an operation leaves alone"

section \<open>Lists\<close>

lemma length_filter_update_less:
  assumes "i < length xs" "P (xs ! i)" "\<not> P y"
  shows "length (filter P (xs[i := y])) < length (filter P xs)"
proof -
  have "filter P xs = filter P (take i xs) @ xs ! i # filter P (drop (Suc i) xs)"
    using assms(1,2) by (subst id_take_nth_drop [of i xs]) simp_all
  moreover have "filter P (xs[i := y]) = filter P (take i xs) @ filter P (drop (Suc i) xs)"
    using assms(1,3) by (simp add: upd_conv_take_nth_drop)
  ultimately show ?thesis by simp
qed

section \<open>Word facts\<close>

lemma unat_u32_less: "unat (x :: u32) < 4294967296"
  using unsigned_less [of x] by simp

lemma unat_add_u32: "unat (x + y) = (unat x + unat y) mod 4294967296" for x y :: u32
  using unat_word_ariths(1) [of x y] by simp

lemma unat_pow2_u32: "k < 32 \<Longrightarrow> unat ((2 :: u32) ^ k) = 2 ^ k"
  using unat_of_nat [of "2 ^ k", where 'a = 32] power_strict_increasing [of k 32 "2 :: nat"]
  by simp

lemma unat_take_bit_u32: "unat (take_bit k (i :: u32)) = unat i mod 2 ^ k"
  by (subst unsigned_take_bit_eq) (simp add: take_bit_eq_mod)

lemma unat_ucast_u64 [simp]: "unat (ucast (a :: u32) :: u64) = unat a"
proof -
  have "unat a < 2 ^ 64" using unat_u32_less [of a] by simp
  then show ?thesis by (simp add: unsigned_ucast_eq take_bit_nat_eq_self)
qed

text \<open>An address formed from a base and a 32-bit offset, when the sum does not wrap.\<close>

lemma unat_add_ucast:
  fixes m :: u64 and a :: u32
  assumes "unat m + unat a < 2 ^ 64"
  shows "unat (m + ucast a) = unat m + unat a"
  using assms by (simp add: unat_word_ariths)

text \<open>Sizes computed in 64 bits from 32-bit counts never wrap.\<close>

lemma unat_size_u64:
  fixes a b :: u32 and k :: u64
  assumes "unat k \<le> 64"
  shows "unat ((ucast a :: u64) + ucast b * k) = unat a + unat b * unat k"
proof -
  have "unat b * unat k \<le> 4294967296 * 64"
    using unat_u32_less [of b] assms by (intro mult_le_mono) auto
  then have "unat a + unat b * unat k < 2 ^ 64"
    using unat_u32_less [of a] by simp
  moreover from this have "unat b * unat k < 2 ^ 64" by linarith
  ultimately show ?thesis by (simp add: unat_word_ariths)
qed

lemma mod_add_left_inj:
  fixes a i j n :: nat
  assumes e: "(a + i) mod n = (a + j) mod n" and l: "i < n" "j < n"
  shows "i = j"
proof (rule ccontr)
  assume "i \<noteq> j"
  from e have "int n dvd (int a + int i) - (int a + int j)"
    by (metis mod_eq_dvd_iff of_nat_add of_nat_mod)
  then have d: "int n dvd int i - int j" by simp
  have "int i - int j \<noteq> 0" using \<open>i \<noteq> j\<close> by simp
  from dvd_imp_le_int [OF this d] l show False by auto
qed

section \<open>Free-running ring indices\<close>

text \<open>
  Head and tail of an io_uring queue are 32-bit counters that are never reduced: the number
  of occupied slots is \<open>tail - head\<close> in wrap-around arithmetic, and the slot of a counter is
  its value masked with \<open>entries - 1\<close>.
\<close>

definition dist :: "u32 \<Rightarrow> u32 \<Rightarrow> nat" where
  "dist h t = unat (t - h)"

lemma dist_self [simp]: "dist h h = 0"
  by (simp add: dist_def)

lemma dist_eq_0 [simp]: "dist h t = 0 \<longleftrightarrow> h = t"
  by (auto simp: dist_def unat_eq_zero)

lemma dist_less [simp]: "dist h t < 4294967296"
  by (simp add: dist_def unat_u32_less)

lemma dist_add:
  assumes "dist h t + n < 2 ^ 32"
  shows "dist h (t + word_of_nat n) = dist h t + n"
proof -
  have "t + word_of_nat n - h = (t - h) + word_of_nat n" by (simp add: algebra_simps)
  then have "dist h (t + word_of_nat n) = (dist h t + unat (word_of_nat n :: u32)) mod 4294967296"
    by (simp only: dist_def unat_add_u32)
  moreover have "unat (word_of_nat n :: u32) = n"
    using assms by (simp add: unat_of_nat)
  ultimately show ?thesis using assms by simp
qed

lemma dist_Suc: "dist h t + 1 < 2 ^ 32 \<Longrightarrow> dist h (t + 1) = dist h t + 1"
  using dist_add [of h t 1] by simp

lemma dist_pop: "h \<noteq> t \<Longrightarrow> dist (h + 1) t = dist h t - 1"
proof -
  assume "h \<noteq> t"
  then have "t - h \<noteq> 0" by simp
  then have "unat (t - h - 1) = unat (t - h) - 1" by (rule unat_minus_one)
  moreover have "t - (h + 1) = t - h - 1" by (simp add: algebra_simps)
  ultimately show ?thesis by (simp only: dist_def)
qed

lemma dist_pos: "h \<noteq> t \<Longrightarrow> 0 < dist h t"
  by (rule gr0I) simp

lemma dist_pop_less: "h \<noteq> t \<Longrightarrow> dist (h + 1) t < dist h t"
  using dist_pos [of h t] by (simp add: dist_pop)

lemma dist_pop_n: "n \<le> dist h t \<Longrightarrow> dist (h + word_of_nat n) t = dist h t - n"
proof (induction n)
  case (Suc n)
  then have IH: "dist (h + word_of_nat n) t = dist h t - n" by simp
  have ne: "h + word_of_nat n \<noteq> t"
  proof
    assume "h + word_of_nat n = t"
    with IH have "dist t t = dist h t - n" by simp
    with Suc.prems show False by simp
  qed
  have "h + word_of_nat (Suc n) = h + word_of_nat n + 1" by (simp add: algebra_simps)
  then have "dist (h + word_of_nat (Suc n)) t = dist (h + word_of_nat n) t - 1"
    using dist_pop [OF ne] by (simp only:)
  with IH show ?case by simp
qed simp

section \<open>Slots\<close>

definition slot :: "u32 \<Rightarrow> u32 \<Rightarrow> nat" where
  "slot i m = unat (i AND m)"

definition is_ring_size :: "u32 \<Rightarrow> u32 \<Rightarrow> bool" where
  "is_ring_size n m \<longleftrightarrow> (\<exists>k < 32. n = 2 ^ k \<and> m = 2 ^ k - 1)"

lemma is_ring_sizeI: "k < 32 \<Longrightarrow> is_ring_size (2 ^ k) (2 ^ k - 1)"
  unfolding is_ring_size_def by blast

lemma ring_sizeE:
  assumes "is_ring_size n m"
  obtains k where "k < 32" "n = 2 ^ k" "m = mask k" "unat n = 2 ^ k"
  using assms unat_pow2_u32 by (auto simp: is_ring_size_def mask_eq_decr_exp)

lemma slot_mod: "is_ring_size n m \<Longrightarrow> slot i m = unat i mod unat n"
  by (erule ring_sizeE) (simp add: slot_def unat_take_bit_u32 flip: take_bit_eq_mask)

lemma ring_size_pos: "is_ring_size n m \<Longrightarrow> 0 < unat n"
  by (erule ring_sizeE) simp

lemma ring_size_le: "is_ring_size n m \<Longrightarrow> unat n \<le> 2 ^ 31"
  by (erule ring_sizeE) (simp add: power_increasing [of _ 31 "2 :: nat", simplified])

lemma ring_size_dvd: "is_ring_size n m \<Longrightarrow> unat n dvd 4294967296"
proof (erule ring_sizeE)
  fix k assume "k < 32" "unat n = 2 ^ k"
  then have "unat n dvd 2 ^ 32" by (simp only: le_imp_power_dvd less_imp_le)
  then show "unat n dvd 4294967296" by simp
qed

lemma slot_less: "is_ring_size n m \<Longrightarrow> slot i m < unat n"
  by (simp add: slot_mod ring_size_pos)

lemma slot_add: "is_ring_size n m \<Longrightarrow> slot (h + word_of_nat j) m = (unat h + j) mod unat n"
proof -
  assume r: "is_ring_size n m"
  have "unat (h + word_of_nat j) = (unat h + j) mod 4294967296"
    by (simp add: unat_add_u32 unat_of_nat mod_add_right_eq)
  then show ?thesis
    using ring_size_dvd [OF r] by (simp add: slot_mod [OF r] mod_mod_cancel)
qed

text \<open>Counters less than one revolution apart occupy different slots.\<close>

lemma slot_inj:
  assumes r: "is_ring_size n m" and i: "i < unat n" and j: "j < unat n"
    and eq: "slot (h + word_of_nat i) m = slot (h + word_of_nat j) m"
  shows "i = j"
  using eq i j by (auto simp: slot_add [OF r] intro: mod_add_left_inj)

end
