(* ===== verification/Error_Codes.thy ===== *)
theory Error_Codes
  imports Prelude
begin

text \<open>
  \<^verbatim>\<open>include/slim/common/io/error_codes.h.in\<close>: the enumeration \<open>ErrorStatus\<close>, the table of its
  strings, \<open>to_string\<close> and the exception class. The strings are looked up by the enumerator's
  position, so enum and table must stay aligned: the theorems state that they are, and that
  a status can be recovered from the text an exception carries.
\<close>

section \<open>Enumerators\<close>

datatype error_status =
    OK
  | BadAllocation
  | EventFdCreateFailed
  | EventFdReadFailed
  | EventFdWriteFailed
  | IOInvalidEntries
  | IOMmapCqFailed
  | IOMmapSqesFailed
  | IOMmapSqFailed
  | IOSetupFailed
  | SQFull
  | RuntimeNotIdle

text \<open>\<open>static_cast<uint32_t>(status)\<close>: enumerators without initialisers count from zero.\<close>

fun status_code :: "error_status \<Rightarrow> u32" where
  "status_code OK = 0"
| "status_code BadAllocation = 1"
| "status_code EventFdCreateFailed = 2"
| "status_code EventFdReadFailed = 3"
| "status_code EventFdWriteFailed = 4"
| "status_code IOInvalidEntries = 5"
| "status_code IOMmapCqFailed = 6"
| "status_code IOMmapSqesFailed = 7"
| "status_code IOMmapSqFailed = 8"
| "status_code IOSetupFailed = 9"
| "status_code SQFull = 10"
| "status_code RuntimeNotIdle = 11"

definition error_status_str :: "string list" where
  "error_status_str =
    [''OK'',
     ''Bad allocation'',
     ''eventfd create failed'',
     ''eventfd read failed'',
     ''eventfd write failed'',
     ''IO invalid entries'',
     ''IO mmap CQ ring failed'',
     ''IO mmap SQEs failed'',
     ''IO mmap SQ ring failed'',
     ''IO setup failed'',
     ''Submission queue full'',
     ''Runtime not idle'']"

text \<open>The array access is undefined behaviour out of range, which the option records.\<close>

definition to_string :: "error_status \<Rightarrow> string option" where
  "to_string st =
     (if unat (status_code st) < length error_status_str
      then Some (error_status_str ! unat (status_code st)) else None)"

section \<open>Exceptions\<close>

record io_exception =
  what :: string
  ex_status :: error_status

definition mk_io_exception :: "error_status \<Rightarrow> io_exception option" where
  "mk_io_exception st = map_option (\<lambda>w. \<lparr>what = w, ex_status = st\<rparr>) (to_string st)"

text \<open>
  What can leave a call by throwing: an \<open>IOException\<close>, or an exception of the caller's own code,
  identified by its text.
\<close>

datatype exn = IOExc error_status | UserExc string

lemma status_code_inj: "status_code a = status_code b \<Longrightarrow> a = b"
  by (cases a; cases b) simp_all

instantiation error_status :: linorder
begin

definition less_eq_error_status :: "error_status \<Rightarrow> error_status \<Rightarrow> bool" where
  "less_eq_error_status a b \<longleftrightarrow> status_code a \<le> status_code b"

definition less_error_status :: "error_status \<Rightarrow> error_status \<Rightarrow> bool" where
  "less_error_status a b \<longleftrightarrow> status_code a < status_code b"

instance
proof
  fix x y z :: error_status
  show "(x < y) = (x \<le> y \<and> \<not> y \<le> x)"
    by (auto simp: less_eq_error_status_def less_error_status_def)
  show "x \<le> x" by (simp add: less_eq_error_status_def)
  show "x \<le> y \<or> y \<le> x" by (auto simp: less_eq_error_status_def)
  show "x \<le> y \<Longrightarrow> y \<le> z \<Longrightarrow> x \<le> z" by (auto simp: less_eq_error_status_def)
  show "x \<le> y \<Longrightarrow> y \<le> x \<Longrightarrow> x = y"
    by (auto simp: less_eq_error_status_def intro: status_code_inj)
qed

end

section \<open>Alignment of enum and table\<close>

lemma status_code_less: "unat (status_code st) < length error_status_str"
  by (cases st) (simp_all add: error_status_str_def)

lemma to_string_total: "to_string st = Some (error_status_str ! unat (status_code st))"
  by (simp add: to_string_def status_code_less)

lemma error_status_str_distinct: "distinct error_status_str"
  by (simp add: error_status_str_def)

lemma to_string_inj: "to_string a = to_string b \<Longrightarrow> a = b"
proof -
  assume "to_string a = to_string b"
  then have "error_status_str ! unat (status_code a) = error_status_str ! unat (status_code b)"
    by (simp add: to_string_total)
  then have "unat (status_code a) = unat (status_code b)"
    using error_status_str_distinct status_code_less by (metis nth_eq_iff_index_eq)
  then show "a = b" by (metis status_code_inj word_unat_eq_iff)
qed

text \<open>
  Every \<open>ErrorStatus\<close> has an entry of its own in \<open>error_status_str\<close>: the lookup is always
  in range, the text an \<open>IOException\<close> carries determines its status, and \<open>status()\<close> gives the
  enumerator the exception was built from.
\<close>

theorem io_exception_roundtrip:
  "\<exists>e. mk_io_exception st = Some e \<and> ex_status e = st \<and> to_string st = Some (what e)
     \<and> (\<forall>st'. to_string st' = Some (what e) \<longleftrightarrow> st' = st)"
  by (auto simp: mk_io_exception_def to_string_total intro: to_string_inj)

end
