(* ===== verification/Io_Setup.thy ===== *)
theory Io_Setup
  imports Error_Codes "HOL-Library.Multiset"
begin

text \<open>
  \<^verbatim>\<open>include/slim/common/io.h.in\<close> and \<^verbatim>\<open>src/io.cpp\<close>: construction and destruction of the
  io_uring instance. The kernel is a parameter (\<open>uring_env\<close>: what \<open>io_uring_setup\<close> returns and
  fills in, and where \<open>mmap\<close> places a region), and each system call the code makes is recorded,
  so that ownership of the descriptor and of the three mappings can be replayed: no error path
  leaks, and the destructor gives everything back exactly once. The last part states that every
  pointer the constructor wires lies inside a mapped region.
\<close>

section \<open>Kernel parameter block\<close>

record sq_offsets =
  so_head :: u32
  so_tail :: u32
  so_ring_mask :: u32
  so_ring_entries :: u32
  so_flags :: u32
  so_dropped :: u32
  so_array :: u32

record cq_offsets =
  co_head :: u32
  co_tail :: u32
  co_ring_mask :: u32
  co_ring_entries :: u32
  co_cqes :: u32

record io_uring_params =
  p_sq_entries :: u32
  p_cq_entries :: u32
  p_flags :: u32
  p_features :: u32
  sq_off :: sq_offsets
  cq_off :: cq_offsets

definition IORING_SETUP_CQSIZE :: u32 where "IORING_SETUP_CQSIZE = 8"
definition IORING_SETUP_CLAMP :: u32 where "IORING_SETUP_CLAMP = 16"
definition IORING_FEAT_SINGLE_MMAP :: u32 where "IORING_FEAT_SINGLE_MMAP = 1"

definition sizeof_u32 :: u64 where "sizeof_u32 = 4"
definition sizeof_sqe :: u64 where "sizeof_sqe = 64"
definition sizeof_cqe :: u64 where "sizeof_cqe = 16"

definition zero_params :: io_uring_params where
  "zero_params =
    \<lparr>p_sq_entries = 0, p_cq_entries = 0, p_flags = 0, p_features = 0,
     sq_off = \<lparr>so_head = 0, so_tail = 0, so_ring_mask = 0, so_ring_entries = 0, so_flags = 0,
               so_dropped = 0, so_array = 0\<rparr>,
     cq_off = \<lparr>co_head = 0, co_tail = 0, co_ring_mask = 0, co_ring_entries = 0, co_cqes = 0\<rparr>\<rparr>"

datatype mmap_off = OFF_SQ_RING | OFF_CQ_RING | OFF_SQES

record uring_env =
  env_setup :: "u32 \<Rightarrow> io_uring_params \<Rightarrow> fdesc \<times> io_uring_params"
  env_mmap :: "fdesc \<Rightarrow> mmap_off \<Rightarrow> u64 \<Rightarrow> u64 option"

text \<open>\<open>None\<close> stands for \<open>MAP_FAILED\<close>.\<close>

section \<open>The IO object\<close>

record sq_ptrs =
  sq_head_p :: u64
  sq_tail_p :: u64
  sq_flags_p :: u64
  sq_mask_p :: u64
  sq_entries_p :: u64
  sq_dropped_p :: u64
  sq_array_p :: u64
  sq_sqes_p :: u64
  sq_map :: u64
  sqes_map :: u64
  sq_map_size :: u64
  sqes_map_size :: u64

record cq_ptrs =
  cq_head_p :: u64
  cq_tail_p :: u64
  cq_mask_p :: u64
  cq_entries_p :: u64
  cq_cqes_p :: u64
  cq_map :: u64
  cq_map_size :: u64

record io_obj =
  io_fd :: fdesc
  io_sq :: sq_ptrs
  io_cq :: cq_ptrs

section \<open>System calls made\<close>

datatype syscall =
    SysSetup fdesc
  | SysMmap u64 u64
  | SysMunmap u64 u64
  | SysClose fdesc

definition sq_ring_size :: "io_uring_params \<Rightarrow> u64" where
  "sq_ring_size p = ucast (so_array (sq_off p)) + ucast (p_sq_entries p) * sizeof_u32"

definition sqes_size :: "io_uring_params \<Rightarrow> u64" where
  "sqes_size p = ucast (p_sq_entries p) * sizeof_sqe"

definition cq_ring_size :: "io_uring_params \<Rightarrow> u64" where
  "cq_ring_size p = ucast (co_cqes (cq_off p)) + ucast (p_cq_entries p) * sizeof_cqe"

definition request_params :: "u32 \<Rightarrow> io_uring_params" where
  "request_params entries =
     zero_params\<lparr>p_flags := IORING_SETUP_CQSIZE OR IORING_SETUP_CLAMP, p_cq_entries := entries * 2\<rparr>"

definition wire_sq :: "io_uring_params \<Rightarrow> u64 \<Rightarrow> u64 \<Rightarrow> sq_ptrs" where
  "wire_sq p m sm =
    (let off = sq_off p in
     \<lparr>sq_head_p = m + ucast (so_head off),
      sq_tail_p = m + ucast (so_tail off),
      sq_flags_p = m + ucast (so_flags off),
      sq_mask_p = m + ucast (so_ring_mask off),
      sq_entries_p = m + ucast (so_ring_entries off),
      sq_dropped_p = m + ucast (so_dropped off),
      sq_array_p = m + ucast (so_array off),
      sq_sqes_p = sm,
      sq_map = m, sqes_map = sm, sq_map_size = sq_ring_size p, sqes_map_size = sqes_size p\<rparr>)"

definition wire_cq :: "io_uring_params \<Rightarrow> u64 \<Rightarrow> u64 \<Rightarrow> cq_ptrs" where
  "wire_cq p m sz =
    (let off = cq_off p in
     \<lparr>cq_head_p = m + ucast (co_head off),
      cq_tail_p = m + ucast (co_tail off),
      cq_mask_p = m + ucast (co_ring_mask off),
      cq_entries_p = m + ucast (co_ring_entries off),
      cq_cqes_p = m + ucast (co_cqes off),
      cq_map = m, cq_map_size = sz\<rparr>)"

definition single_mmap :: "io_uring_params \<Rightarrow> bool" where
  "single_mmap p \<longleftrightarrow> p_features p AND IORING_FEAT_SINGLE_MMAP \<noteq> 0"

definition IO_ctor :: "uring_env \<Rightarrow> u32 \<Rightarrow> (error_status + io_obj) \<times> syscall list" where
  "IO_ctor env entries =
    (if entries = 0 then (Inl IOInvalidEntries, [])
     else
       let (fd, p) = env_setup env entries (request_params entries) in
       if fd < 0 then (Inl IOSetupFailed, [])
       else
         let sqsz = sq_ring_size p in
         case env_mmap env fd OFF_SQ_RING sqsz of
           None \<Rightarrow> (Inl IOMmapSqFailed, [SysSetup fd, SysClose fd])
         | Some m \<Rightarrow>
             let sesz = sqes_size p in
             (case env_mmap env fd OFF_SQES sesz of
                None \<Rightarrow> (Inl IOMmapSqesFailed, [SysSetup fd, SysMmap m sqsz, SysMunmap m sqsz, SysClose fd])
              | Some sm \<Rightarrow>
                  if single_mmap p
                  then (Inr \<lparr>io_fd = fd, io_sq = wire_sq p m sm, io_cq = wire_cq p m 0\<rparr>,
                        [SysSetup fd, SysMmap m sqsz, SysMmap sm sesz])
                  else
                    let cqsz = cq_ring_size p in
                    (case env_mmap env fd OFF_CQ_RING cqsz of
                       None \<Rightarrow> (Inl IOMmapCqFailed,
                          [SysSetup fd, SysMmap m sqsz, SysMmap sm sesz,
                           SysMunmap sm sesz, SysMunmap m sqsz, SysClose fd])
                     | Some cm \<Rightarrow>
                         (Inr \<lparr>io_fd = fd, io_sq = wire_sq p m sm, io_cq = wire_cq p cm cqsz\<rparr>,
                          [SysSetup fd, SysMmap m sqsz, SysMmap sm sesz, SysMmap cm cqsz]))))"

definition IO_dtor :: "io_obj \<Rightarrow> syscall list" where
  "IO_dtor io =
     (if cq_map (io_cq io) \<noteq> 0 \<and> cq_map_size (io_cq io) > 0
      then [SysMunmap (cq_map (io_cq io)) (cq_map_size (io_cq io))] else [])
   @ (if sqes_map (io_sq io) \<noteq> 0 then [SysMunmap (sqes_map (io_sq io)) (sqes_map_size (io_sq io))] else [])
   @ (if sq_map (io_sq io) \<noteq> 0 then [SysMunmap (sq_map (io_sq io)) (sq_map_size (io_sq io))] else [])
   @ (if io_fd io \<ge> 0 then [SysClose (io_fd io)] else [])"

section \<open>Ownership replay\<close>

text \<open>
  \<open>replay\<close> follows a list of system calls from a multiset of owned resources; giving back what
  is not owned (a double unmap, a double close) is \<open>None\<close>.
\<close>

datatype resource = RFd fdesc | RMap u64 u64

fun replay :: "resource multiset \<Rightarrow> syscall list \<Rightarrow> resource multiset option" where
  "replay R [] = Some R"
| "replay R (SysSetup fd # cs) = replay (add_mset (RFd fd) R) cs"
| "replay R (SysMmap a n # cs) = replay (add_mset (RMap a n) R) cs"
| "replay R (SysMunmap a n # cs) = (if RMap a n \<in># R then replay (R - {#RMap a n#}) cs else None)"
| "replay R (SysClose fd # cs) = (if RFd fd \<in># R then replay (R - {#RFd fd#}) cs else None)"

lemma replay_append: "replay R (xs @ ys) = Option.bind (replay R xs) (\<lambda>R'. replay R' ys)"
  by (induction R xs rule: replay.induct) simp_all

text \<open>The documented behaviour of the calls: a successful \<open>mmap\<close> with no address hint is never null.\<close>

definition mmap_nonnull :: "uring_env \<Rightarrow> bool" where
  "mmap_nonnull env \<longleftrightarrow> (\<forall>fd off n a. env_mmap env fd off n = Some a \<longrightarrow> a \<noteq> 0)"

lemma IO_ctor_cases:
  assumes "IO_ctor env entries = (Inr io, cs)"
  obtains (single) fd p m sm where "entries \<noteq> 0" "env_setup env entries (request_params entries) = (fd, p)"
      "0 \<le> fd" "env_mmap env fd OFF_SQ_RING (sq_ring_size p) = Some m"
      "env_mmap env fd OFF_SQES (sqes_size p) = Some sm" "single_mmap p"
      "io = \<lparr>io_fd = fd, io_sq = wire_sq p m sm, io_cq = wire_cq p m 0\<rparr>"
      "cs = [SysSetup fd, SysMmap m (sq_ring_size p), SysMmap sm (sqes_size p)]"
  | (legacy) fd p m sm cm where "entries \<noteq> 0" "env_setup env entries (request_params entries) = (fd, p)"
      "0 \<le> fd" "env_mmap env fd OFF_SQ_RING (sq_ring_size p) = Some m"
      "env_mmap env fd OFF_SQES (sqes_size p) = Some sm" "\<not> single_mmap p"
      "env_mmap env fd OFF_CQ_RING (cq_ring_size p) = Some cm"
      "io = \<lparr>io_fd = fd, io_sq = wire_sq p m sm, io_cq = wire_cq p cm (cq_ring_size p)\<rparr>"
      "cs = [SysSetup fd, SysMmap m (sq_ring_size p), SysMmap sm (sqes_size p), SysMmap cm (cq_ring_size p)]"
  using assms that
  by (auto simp: IO_ctor_def Let_def split: prod.splits if_splits option.splits)

section \<open>Sizes\<close>

lemma unat_sq_ring_size:
  "unat (sq_ring_size p) = unat (so_array (sq_off p)) + 4 * unat (p_sq_entries p)"
  by (simp add: sq_ring_size_def sizeof_u32_def unat_size_u64)

lemma unat_cq_ring_size:
  "unat (cq_ring_size p) = unat (co_cqes (cq_off p)) + 16 * unat (p_cq_entries p)"
  by (simp add: cq_ring_size_def sizeof_cqe_def unat_size_u64)

lemma unat_sqes_size: "unat (sqes_size p) = 64 * unat (p_sq_entries p)"
  using unat_size_u64 [of sizeof_sqe 0 "p_sq_entries p"]
  by (simp add: sqes_size_def sizeof_sqe_def)

lemma cq_ring_size_pos: "p_cq_entries p \<noteq> 0 \<Longrightarrow> 0 < cq_ring_size p"
  by (simp add: word_less_nat_alt unat_cq_ring_size unat_gt_0)

section \<open>Properties\<close>

text \<open>
  C15: A constructor that throws leaves nothing behind: whatever the kernel answers, on each of
  the five error paths of \<open>IO::IO\<close> the descriptor and every mapping acquired before the failure
  have been released, each exactly once, when the exception leaves (the destructor does not run).
\<close>

theorem IO_ctor_error_no_leak:
  assumes "IO_ctor env entries = (Inl e, cs)"
  shows "replay {#} cs = Some {#}"
  using assms by (auto simp: IO_ctor_def Let_def split: prod.splits if_splits option.splits)

definition no_mmap_env :: uring_env where
  "no_mmap_env = \<lparr>env_setup = (\<lambda>n p. (3, p\<lparr>p_sq_entries := n\<rparr>)),
     env_mmap = (\<lambda>fd off n. if off = OFF_CQ_RING then None else Some 4096)\<rparr>"

theorem IO_ctor_error_no_leak_witness:
  "IO_ctor no_mmap_env 4 = (Inl IOMmapCqFailed, snd (IO_ctor no_mmap_env 4))
   \<and> length (snd (IO_ctor no_mmap_env 4)) = 6 \<and> replay {#} (snd (IO_ctor no_mmap_env 4)) = Some {#}"
proof -
  have e: "IO_ctor no_mmap_env 4 = (Inl IOMmapCqFailed, snd (IO_ctor no_mmap_env 4))"
    and l: "length (snd (IO_ctor no_mmap_env 4)) = 6"
    by (simp_all add: IO_ctor_def no_mmap_env_def request_params_def zero_params_def single_mmap_def Let_def)
  show ?thesis using e l IO_ctor_error_no_leak [OF e] by simp
qed

text \<open>
  What the constructor relies on in the legacy layout: \<open>io_uring_setup\<close> reports at least one
  completion entry when it succeeds.
\<close>

definition setup_nonempty :: "uring_env \<Rightarrow> bool" where
  "setup_nonempty env \<longleftrightarrow> (\<forall>n p fd p'. env_setup env n p = (fd, p') \<longrightarrow> 0 \<le> fd \<longrightarrow> p_cq_entries p' \<noteq> 0)"

lemma IO_ctor_balanced:
  assumes "mmap_nonnull env" "setup_nonempty env" "IO_ctor env entries = (Inr io, cs)"
  shows "replay {#} (cs @ IO_dtor io) = Some {#}"
  using assms(3)
proof (cases rule: IO_ctor_cases)
  case (single fd p m sm)
  moreover have "m \<noteq> 0" "sm \<noteq> 0" using single assms(1) by (auto simp: mmap_nonnull_def)
  ultimately show ?thesis
    by (simp add: IO_dtor_def wire_sq_def wire_cq_def Let_def)
next
  case (legacy fd p m sm cm)
  moreover have "m \<noteq> 0" "sm \<noteq> 0" "cm \<noteq> 0" using legacy assms(1) by (auto simp: mmap_nonnull_def)
  moreover have "0 < cq_ring_size p"
    using legacy assms(2) by (auto simp: setup_nonempty_def intro: cq_ring_size_pos)
  ultimately show ?thesis
    by (simp add: IO_dtor_def wire_sq_def wire_cq_def Let_def add_mset_commute)
qed

text \<open>
  C20: Construction followed by destruction is balanced: \<open>~IO\<close> unmaps and closes exactly what the
  constructor acquired. With \<open>IORING_FEAT_SINGLE_MMAP\<close>, where the completion ring shares the
  mapping of the submission ring, that mapping is unmapped once, not twice.
\<close>

theorem IO_lifetime_balanced:
  assumes "mmap_nonnull env" "setup_nonempty env" "IO_ctor env entries = (Inr io, cs)"
  shows "replay {#} (cs @ IO_dtor io) = Some {#}"
  using assms by (rule IO_ctor_balanced)

definition legacy_env :: uring_env where
  "legacy_env = \<lparr>env_setup = (\<lambda>n p. (3, p\<lparr>p_sq_entries := n, p_cq_entries := 2\<rparr>)),
     env_mmap = (\<lambda>fd off n. Some (case off of OFF_SQ_RING \<Rightarrow> 4096 | OFF_CQ_RING \<Rightarrow> 8192 | OFF_SQES \<Rightarrow> 12288))\<rparr>"

theorem IO_lifetime_balanced_witness:
  "\<exists>io cs. IO_ctor legacy_env 1 = (Inr io, cs) \<and> length (IO_dtor io) = 4
     \<and> replay {#} (cs @ IO_dtor io) = Some {#}"
proof -
  have m: "mmap_nonnull legacy_env" and s: "setup_nonempty legacy_env"
    by (auto simp: mmap_nonnull_def setup_nonempty_def legacy_env_def split: mmap_off.splits)
  obtain io cs where c: "IO_ctor legacy_env 1 = (Inr io, cs)" and l: "length (IO_dtor io) = 4"
    by (simp add: IO_ctor_def IO_dtor_def legacy_env_def request_params_def zero_params_def single_mmap_def
        wire_sq_def wire_cq_def cq_ring_size_def sizeof_cqe_def Let_def)
  show ?thesis using c l IO_lifetime_balanced [OF m s c] by blast
qed

text \<open>
  The completion queue asked for is twice the submission queue exactly while the doubling
  fits in 32 bits: for \<open>entries\<close> of \<open>2 ^ 31\<close> and more, \<open>entries * 2\<close> wraps and the request no
  longer says what its comment promises.
\<close>

theorem cq_entries_doubled_iff:
  "unat (p_cq_entries (request_params entries)) = 2 * unat entries \<longleftrightarrow> unat entries < 2 ^ 31"
proof -
  have "unat (p_cq_entries (request_params entries)) = (2 * unat entries) mod 4294967296"
    by (simp add: request_params_def zero_params_def unat_word_ariths mult.commute)
  then show ?thesis
    using unat_u32_less [of entries] mod_less_divisor [of 4294967296 "2 * unat entries"]
    by (cases "unat entries < 2 ^ 31") auto
qed

subsection \<open>Wired pointers\<close>

definition in_region :: "u64 \<Rightarrow> u64 \<Rightarrow> u64 \<Rightarrow> nat \<Rightarrow> bool" where
  "in_region base sz p n \<longleftrightarrow> unat base \<le> unat p \<and> unat p + n \<le> unat base + unat sz"

text \<open>
  The documented contract of the kernel: a mapping does not run past the end of the address
  space; the fixed fields of either ring lie below its trailing array. Nothing is assumed of how
  the sizes of the two rings compare.
\<close>

definition mmap_fits :: "uring_env \<Rightarrow> bool" where
  "mmap_fits env \<longleftrightarrow> (\<forall>fd off n a. env_mmap env fd off n = Some a \<longrightarrow> unat a + unat n < 2 ^ 64)"

definition sq_fields_below :: "io_uring_params \<Rightarrow> bool" where
  "sq_fields_below p \<longleftrightarrow> (\<forall>f \<in> {so_head, so_tail, so_ring_mask, so_ring_entries, so_flags, so_dropped}.
     unat (f (sq_off p)) + 4 \<le> unat (so_array (sq_off p)))"

definition cq_fields_below :: "io_uring_params \<Rightarrow> bool" where
  "cq_fields_below p \<longleftrightarrow> (\<forall>f \<in> {co_head, co_tail, co_ring_mask, co_ring_entries}.
     unat (f (cq_off p)) + 4 \<le> unat (co_cqes (cq_off p)))"

definition uring_layout :: "uring_env \<Rightarrow> bool" where
  "uring_layout env \<longleftrightarrow> mmap_fits env \<and> (\<forall>n p fd p'. env_setup env n p = (fd, p') \<longrightarrow> 0 \<le> fd \<longrightarrow>
     sq_fields_below p' \<and> cq_fields_below p')"

text \<open>
  What the constructor asks \<open>mmap\<close> for where the completion ring lies: with a single mapping this is
  the submission ring's size, although the manual of the interface takes the larger of the two.
\<close>

definition cq_mapped :: "uring_env \<Rightarrow> u32 \<Rightarrow> u64" where
  "cq_mapped env entries =
     (let p = snd (env_setup env entries (request_params entries))
      in if single_mmap p then sq_ring_size p else cq_ring_size p)"

definition cq_fits :: "uring_env \<Rightarrow> u32 \<Rightarrow> bool" where
  "cq_fits env entries \<longleftrightarrow>
     unat (cq_ring_size (snd (env_setup env entries (request_params entries)))) \<le> unat (cq_mapped env entries)"

lemma in_region_off:
  fixes a :: u32
  assumes "unat m + unat sz < 2 ^ 64" "unat a + n \<le> unat sz"
  shows "in_region m sz (m + ucast a) n"
  using assms unat_add_ucast [of m a] by (simp add: in_region_def)

text \<open>A region reached by an offset holds it: an offset that wraps ends up below the base.\<close>

lemma in_region_offD:
  fixes a :: u32
  assumes "in_region m sz (m + ucast a) n"
  shows "unat a + n \<le> unat sz"
proof (cases "unat m + unat a < 2 ^ 64")
  case True
  then show ?thesis using assms unat_add_ucast [of m a] by (simp add: in_region_def)
next
  case False
  have lt: "unat m < 2 ^ 64" using unsigned_less [of m] by simp
  have "unat (m + ucast a) = (unat m + unat a) mod 2 ^ 64"
    by (simp add: unat_word_ariths)
  also have "\<dots> = unat m + unat a - 2 ^ 64"
    using False unat_u32_less [of a] lt by (subst le_mod_geq) simp_all
  finally have "unat (m + ucast a) < unat m"
    using False unat_u32_less [of a] by simp
  then show ?thesis using assms by (simp add: in_region_def)
qed

definition io_entry_counts :: "uring_env \<Rightarrow> u32 \<Rightarrow> nat \<times> nat" where
  "io_entry_counts env entries =
     (let p = snd (env_setup env entries (request_params entries))
      in (unat (p_sq_entries p), unat (p_cq_entries p)))"

definition sq_wired :: "sq_ptrs \<Rightarrow> nat \<Rightarrow> bool" where
  "sq_wired q n \<longleftrightarrow>
     (\<forall>f \<in> {sq_head_p, sq_tail_p, sq_flags_p, sq_mask_p, sq_entries_p, sq_dropped_p}.
        in_region (sq_map q) (sq_map_size q) (f q) 4)
   \<and> in_region (sq_map q) (sq_map_size q) (sq_array_p q) (4 * n)
   \<and> in_region (sqes_map q) (sqes_map_size q) (sq_sqes_p q) (64 * n)"

definition cq_wired :: "cq_ptrs \<Rightarrow> u64 \<Rightarrow> u64 \<Rightarrow> nat \<Rightarrow> bool" where
  "cq_wired q base sz n \<longleftrightarrow>
     (\<forall>f \<in> {cq_head_p, cq_tail_p, cq_mask_p, cq_entries_p}. in_region base sz (f q) 4)
   \<and> in_region base sz (cq_cqes_p q) (16 * n)"

lemma wire_sq_wired:
  assumes "unat m + unat (sq_ring_size p) < 2 ^ 64" "sq_fields_below p"
  shows "sq_wired (wire_sq p m sm) (unat (p_sq_entries p))"
proof -
  have f: "in_region m (sq_ring_size p) (m + ucast (f (sq_off p))) 4"
    if "f \<in> {so_head, so_tail, so_ring_mask, so_ring_entries, so_flags, so_dropped}" for f
    using assms that by (intro in_region_off) (auto simp: sq_fields_below_def unat_sq_ring_size)
  have a: "in_region m (sq_ring_size p) (m + ucast (so_array (sq_off p))) (4 * unat (p_sq_entries p))"
    using assms(1) by (intro in_region_off) (simp_all add: unat_sq_ring_size)
  show ?thesis
    using f a by (simp add: sq_wired_def wire_sq_def Let_def in_region_def [of sm] unat_sqes_size)
qed

lemma wire_cq_wired_iff:
  assumes "unat m + unat sz < 2 ^ 64" "cq_fields_below p"
  shows "cq_wired (wire_cq p m sz') m sz (unat (p_cq_entries p)) \<longleftrightarrow> unat (cq_ring_size p) \<le> unat sz"
proof
  assume "cq_wired (wire_cq p m sz') m sz (unat (p_cq_entries p))"
  then have "in_region m sz (m + ucast (co_cqes (cq_off p))) (16 * unat (p_cq_entries p))"
    by (simp add: cq_wired_def wire_cq_def Let_def)
  then show "unat (cq_ring_size p) \<le> unat sz"
    by (simp add: in_region_offD unat_cq_ring_size)
next
  assume le: "unat (cq_ring_size p) \<le> unat sz"
  have f: "in_region m sz (m + ucast (f (cq_off p))) 4"
    if "f \<in> {co_head, co_tail, co_ring_mask, co_ring_entries}" for f
    using assms le that by (intro in_region_off) (auto simp: cq_fields_below_def unat_cq_ring_size)
  have a: "in_region m sz (m + ucast (co_cqes (cq_off p))) (16 * unat (p_cq_entries p))"
    using assms le by (intro in_region_off) (simp_all add: unat_cq_ring_size)
  show "cq_wired (wire_cq p m sz') m sz (unat (p_cq_entries p))"
    using f a by (simp add: cq_wired_def wire_cq_def Let_def)
qed

lemma IO_ctor_wired:
  assumes "uring_layout env" "IO_ctor env entries = (Inr io, cs)"
  shows "sq_wired (io_sq io) (fst (io_entry_counts env entries))
    \<and> RMap (cq_map (io_cq io)) (cq_mapped env entries) \<in># the (replay {#} cs)
    \<and> (cq_wired (io_cq io) (cq_map (io_cq io)) (cq_mapped env entries) (snd (io_entry_counts env entries))
         \<longleftrightarrow> cq_fits env entries)"
  using assms(2)
proof (cases rule: IO_ctor_cases)
  case (single fd p m sm)
  have fit: "unat m + unat (sq_ring_size p) < 2 ^ 64"
    using single assms(1) unfolding uring_layout_def mmap_fits_def by blast
  have l: "sq_fields_below p" "cq_fields_below p"
    using single assms(1) unfolding uring_layout_def by blast+
  have m: "cq_map (wire_cq p m 0) = m" by (simp add: wire_cq_def Let_def)
  show ?thesis
    using single wire_sq_wired [OF fit l(1)] wire_cq_wired_iff [OF fit l(2)] m
    by (auto simp: io_entry_counts_def cq_mapped_def cq_fits_def Let_def)
next
  case (legacy fd p m sm cm)
  have fit: "unat m + unat (sq_ring_size p) < 2 ^ 64" "unat cm + unat (cq_ring_size p) < 2 ^ 64"
    using legacy assms(1) unfolding uring_layout_def mmap_fits_def by blast+
  have l: "sq_fields_below p" "cq_fields_below p"
    using legacy assms(1) unfolding uring_layout_def by blast+
  have m: "cq_map (wire_cq p cm (cq_ring_size p)) = cm" by (simp add: wire_cq_def Let_def)
  show ?thesis
    using legacy wire_sq_wired [OF fit(1) l(1)] wire_cq_wired_iff [OF fit(2) l(2)] m
    by (auto simp: io_entry_counts_def cq_mapped_def cq_fits_def Let_def)
qed

text \<open>
  C21: After construction every submission pointer is usable: each header word, the whole index
  array and every submission entry the kernel reported lie inside the regions mapped for them. The
  completion ring starts in a mapping the object owns, and its header words and all its entries lie
  inside what was mapped there exactly when the completion ring's size is at most what was asked for.
  On a kernel without the single mapping that is the completion ring's own size; with a single
  mapping it is the submission ring's size, so the pointers are in bounds only where the kernel
  happens to lay out the submission ring as the longer one.
\<close>

theorem IO_ctor_pointers_in_bounds:
  assumes "uring_layout env" "IO_ctor env entries = (Inr io, cs)"
  shows "sq_wired (io_sq io) (fst (io_entry_counts env entries))
    \<and> RMap (cq_map (io_cq io)) (cq_mapped env entries) \<in># the (replay {#} cs)
    \<and> (cq_wired (io_cq io) (cq_map (io_cq io)) (cq_mapped env entries) (snd (io_entry_counts env entries))
         \<longleftrightarrow> \<not> single_mmap (snd (env_setup env entries (request_params entries))) \<or> cq_fits env entries)"
proof -
  have "cq_fits env entries" if "\<not> single_mmap (snd (env_setup env entries (request_params entries)))"
    using that by (simp add: cq_fits_def cq_mapped_def Let_def)
  then show ?thesis using IO_ctor_wired [OF assms] by blast
qed

text \<open>The layout of a current kernel for a four-entry ring.\<close>

definition single_env :: uring_env where
  "single_env =
    \<lparr>env_setup = (\<lambda>n p. (3, p\<lparr>p_sq_entries := 4, p_cq_entries := 8, p_features := 1,
       sq_off := \<lparr>so_head = 0, so_tail = 4, so_ring_mask = 16, so_ring_entries = 24, so_flags = 36,
                  so_dropped = 32, so_array = 192\<rparr>,
       cq_off := \<lparr>co_head = 8, co_tail = 12, co_ring_mask = 20, co_ring_entries = 28, co_cqes = 64\<rparr>\<rparr>)),
     env_mmap = (\<lambda>fd off n. if n \<le> 4096 then Some (case off of OFF_SQES \<Rightarrow> 8192 | _ \<Rightarrow> 4096) else None)\<rparr>"

lemma single_env_layout: "uring_layout single_env"
proof -
  have "mmap_fits single_env"
    by (auto simp: mmap_fits_def single_env_def word_le_nat_alt split: if_splits mmap_off.splits)
  then show ?thesis
    by (auto simp: uring_layout_def single_env_def sq_fields_below_def cq_fields_below_def)
qed

text \<open>
  A layout the contract allows in which the index array precedes the completion entries: the
  completion ring's last entries are outside the mapping.
\<close>

definition array_first_env :: uring_env where
  "array_first_env =
     single_env\<lparr>env_setup := (\<lambda>n p. case env_setup single_env n p of (fd, q) \<Rightarrow>
       (fd, q\<lparr>sq_off := (sq_off q)\<lparr>so_array := 64\<rparr>, cq_off := (cq_off q)\<lparr>co_cqes := 128\<rparr>\<rparr>))\<rparr>"

lemma array_first_env_layout: "uring_layout array_first_env"
proof -
  have "mmap_fits array_first_env"
    by (auto simp: mmap_fits_def array_first_env_def single_env_def word_le_nat_alt split: if_splits mmap_off.splits)
  then show ?thesis
    by (auto simp: uring_layout_def array_first_env_def single_env_def sq_fields_below_def cq_fields_below_def)
qed

lemma cq_fits_examples: "cq_fits single_env 4" "\<not> cq_fits array_first_env 4"
  "single_mmap (snd (env_setup array_first_env 4 (request_params 4)))"
  by (simp_all add: cq_fits_def cq_mapped_def unat_cq_ring_size unat_sq_ring_size single_env_def array_first_env_def
      single_mmap_def IORING_FEAT_SINGLE_MMAP_def Let_def)

theorem IO_ctor_pointers_in_bounds_witness:
  "(\<exists>io cs. IO_ctor single_env 4 = (Inr io, cs) \<and> sq_wired (io_sq io) 4
      \<and> cq_wired (io_cq io) (cq_map (io_cq io)) (cq_mapped single_env 4) 8)
 \<and> (\<exists>io cs. IO_ctor array_first_env 4 = (Inr io, cs) \<and> sq_wired (io_sq io) 4
      \<and> \<not> cq_wired (io_cq io) (cq_map (io_cq io)) (cq_mapped array_first_env 4) 8)"
proof -
  obtain io cs where c: "IO_ctor single_env 4 = (Inr io, cs)"
    by (simp add: IO_ctor_def single_env_def request_params_def zero_params_def single_mmap_def
        IORING_FEAT_SINGLE_MMAP_def sq_ring_size_def sqes_size_def sizeof_u32_def sizeof_sqe_def Let_def)
  obtain io' cs' where c': "IO_ctor array_first_env 4 = (Inr io', cs')"
    by (simp add: IO_ctor_def array_first_env_def single_env_def request_params_def zero_params_def single_mmap_def
        IORING_FEAT_SINGLE_MMAP_def sq_ring_size_def sqes_size_def sizeof_u32_def sizeof_sqe_def Let_def)
  have n: "io_entry_counts single_env 4 = (4, 8)" "io_entry_counts array_first_env 4 = (4, 8)"
    by (simp_all add: io_entry_counts_def single_env_def array_first_env_def Let_def)
  show ?thesis
    using c c' IO_ctor_pointers_in_bounds [OF single_env_layout c] IO_ctor_pointers_in_bounds [OF array_first_env_layout c']
      n cq_fits_examples by auto
qed

end
