(* ===== verification/Setup_Tests.thy ===== *)
theory Setup_Tests
  imports Io_Setup
begin

text \<open>
  The ring and exception sections of \<^verbatim>\<open>tests2/hangs/main.cpp\<close>. A section that constructs an \<open>IO\<close> has
  the kernel as argument, one that reads through a wired pointer also the memory, as a function of
  the address. What \<open>io_uring_setup\<close> promises about them is \<open>ring_granted\<close>.
\<close>

section \<open>Ring sections\<close>

text \<open>\<open>REQUIRE_NOTHROW(IO{n})\<close>: construction, then destruction of the temporary, gives everything back.\<close>

definition with_io :: "uring_env \<Rightarrow> u32 \<Rightarrow> (io_obj \<Rightarrow> bool) \<Rightarrow> bool" where
  "with_io env entries check = (case IO_ctor env entries of
     (Inl e, cs) \<Rightarrow> False | (Inr io, cs) \<Rightarrow> check io \<and> replay {#} (cs @ IO_dtor io) = Some {#})"

definition test_default_entries :: "uring_env \<Rightarrow> bool" where
  "test_default_entries env = with_io env 256 (\<lambda>io. True)"

definition test_custom_entries :: "uring_env \<Rightarrow> bool" where
  "test_custom_entries env = with_io env 512 (\<lambda>io. True)"

definition test_fd_valid :: "uring_env \<Rightarrow> bool" where
  "test_fd_valid env = with_io env 256 (\<lambda>io. io_fd io \<ge> 0)"

text \<open>Two objects alive at the same time; the kernel's answers to the second are \<open>env2\<close>.\<close>

definition test_independent :: "uring_env \<Rightarrow> uring_env \<Rightarrow> bool" where
  "test_independent env1 env2 = with_io env1 256 (\<lambda>io1. with_io env2 256 (\<lambda>io2.
     io_fd io1 \<noteq> io_fd io2 \<and> sq_map (io_sq io1) \<noteq> sq_map (io_sq io2) \<and> cq_map (io_cq io1) \<noteq> cq_map (io_cq io2)))"

definition test_sq_pointers :: "uring_env \<Rightarrow> bool" where
  "test_sq_pointers env = with_io env 256 (\<lambda>io. let q = io_sq io in
     sq_head_p q \<noteq> 0 \<and> sq_tail_p q \<noteq> 0 \<and> sq_mask_p q \<noteq> 0 \<and> sq_entries_p q \<noteq> 0 \<and> sq_flags_p q \<noteq> 0
     \<and> sq_dropped_p q \<noteq> 0 \<and> sq_array_p q \<noteq> 0 \<and> sq_sqes_p q \<noteq> 0 \<and> sq_map q \<noteq> 0 \<and> sqes_map q \<noteq> 0)"

definition test_sq_sizes :: "uring_env \<Rightarrow> bool" where
  "test_sq_sizes env = with_io env 256 (\<lambda>io. sq_map_size (io_sq io) > 0 \<and> sqes_map_size (io_sq io) > 0)"

definition test_sq_entries :: "(u64 \<Rightarrow> u32) \<Rightarrow> uring_env \<Rightarrow> bool" where
  "test_sq_entries mem env = with_io env 256 (\<lambda>io. mem (sq_entries_p (io_sq io)) > 0)"

definition test_sq_zero :: "(u64 \<Rightarrow> u32) \<Rightarrow> uring_env \<Rightarrow> bool" where
  "test_sq_zero mem env = with_io env 256 (\<lambda>io. mem (sq_head_p (io_sq io)) = 0 \<and> mem (sq_tail_p (io_sq io)) = 0)"

definition test_cq_pointers :: "uring_env \<Rightarrow> bool" where
  "test_cq_pointers env = with_io env 256 (\<lambda>io. let q = io_cq io in
     cq_head_p q \<noteq> 0 \<and> cq_tail_p q \<noteq> 0 \<and> cq_mask_p q \<noteq> 0 \<and> cq_entries_p q \<noteq> 0 \<and> cq_cqes_p q \<noteq> 0 \<and> cq_map q \<noteq> 0)"

definition test_cq_entries :: "(u64 \<Rightarrow> u32) \<Rightarrow> uring_env \<Rightarrow> bool" where
  "test_cq_entries mem env = with_io env 256 (\<lambda>io. mem (cq_entries_p (io_cq io)) \<ge> mem (sq_entries_p (io_sq io)))"

definition test_cq_zero :: "(u64 \<Rightarrow> u32) \<Rightarrow> uring_env \<Rightarrow> bool" where
  "test_cq_zero mem env = with_io env 256 (\<lambda>io. mem (cq_head_p (io_cq io)) = 0 \<and> mem (cq_tail_p (io_cq io)) = 0)"

definition test_teardown :: "uring_env \<Rightarrow> bool" where
  "test_teardown env = with_io env 256 (\<lambda>io. True)"

definition test_teardowns :: "uring_env \<Rightarrow> uring_env \<Rightarrow> bool" where
  "test_teardowns env1 env2 = with_io env1 256 (\<lambda>io1. with_io env2 256 (\<lambda>io2. True))"

section \<open>Zero entries and exceptions\<close>

definition test_zero_entries :: "uring_env \<Rightarrow> bool" where
  "test_zero_entries env = (case IO_ctor env 0 of (Inl e, cs) \<Rightarrow> e = IOInvalidEntries | (Inr io, cs) \<Rightarrow> False)"

definition test_status_preserved :: bool where
  "test_status_preserved = (case mk_io_exception IOSetupFailed of Some ex \<Rightarrow> ex_status ex = IOSetupFailed | None \<Rightarrow> False)"

definition test_what :: "error_status \<Rightarrow> bool" where
  "test_what st = (case mk_io_exception st of Some ex \<Rightarrow> Some (what ex) = to_string st | None \<Rightarrow> False)"

definition test_to_string :: bool where
  "test_to_string \<longleftrightarrow>
     to_string OK = Some ''OK''
   \<and> to_string BadAllocation = Some ''Bad allocation''
   \<and> to_string IOInvalidEntries = Some ''IO invalid entries''
   \<and> to_string IOMmapCqFailed = Some ''IO mmap CQ ring failed''
   \<and> to_string IOMmapSqesFailed = Some ''IO mmap SQEs failed''
   \<and> to_string IOMmapSqFailed = Some ''IO mmap SQ ring failed''
   \<and> to_string IOSetupFailed = Some ''IO setup failed''
   \<and> to_string SQFull = Some ''Submission queue full''"

definition test_bad_allocation :: bool where
  "test_bad_allocation = (case mk_io_exception BadAllocation of
     Some ex \<Rightarrow> ex_status ex = BadAllocation \<and> Some (what ex) = to_string BadAllocation | None \<Rightarrow> False)"

section \<open>What the kernel promises\<close>

text \<open>
  A request is granted: a descriptor, every mapping asked for, not at address zero, laid out as
  documented, with at least as many completion as submission entries, and rings that start empty
  and hold their sizes.
\<close>

definition rings_start :: "(u64 \<Rightarrow> u32) \<Rightarrow> io_uring_params \<Rightarrow> u64 \<Rightarrow> u64 \<Rightarrow> bool" where
  "rings_start mem p m cm \<longleftrightarrow>
     mem (m + ucast (so_head (sq_off p))) = 0 \<and> mem (m + ucast (so_tail (sq_off p))) = 0
   \<and> mem (m + ucast (so_ring_entries (sq_off p))) = p_sq_entries p
   \<and> mem (cm + ucast (co_head (cq_off p))) = 0 \<and> mem (cm + ucast (co_tail (cq_off p))) = 0
   \<and> mem (cm + ucast (co_ring_entries (cq_off p))) = p_cq_entries p"

definition ring_granted :: "(u64 \<Rightarrow> u32) \<Rightarrow> uring_env \<Rightarrow> u32 \<Rightarrow> bool" where
  "ring_granted mem env entries \<longleftrightarrow> (case env_setup env entries (request_params entries) of (fd, p) \<Rightarrow>
     0 \<le> fd \<and> 0 < p_sq_entries p \<and> p_sq_entries p \<le> p_cq_entries p
   \<and> env_mmap env fd OFF_SQ_RING (sq_ring_size p) \<noteq> None \<and> env_mmap env fd OFF_SQES (sqes_size p) \<noteq> None
   \<and> (single_mmap p \<or> env_mmap env fd OFF_CQ_RING (cq_ring_size p) \<noteq> None)
   \<and> rings_start mem p (the (env_mmap env fd OFF_SQ_RING (sq_ring_size p)))
       (if single_mmap p then the (env_mmap env fd OFF_SQ_RING (sq_ring_size p)) else the (env_mmap env fd OFF_CQ_RING (cq_ring_size p))))"

lemma granted_ctor:
  assumes "ring_granted mem env entries" "entries \<noteq> 0"
  obtains io cs where "IO_ctor env entries = (Inr io, cs)"
proof -
  obtain fd p where p: "env_setup env entries (request_params entries) = (fd, p)" by fastforce
  obtain m sm where m: "env_mmap env fd OFF_SQ_RING (sq_ring_size p) = Some m" "env_mmap env fd OFF_SQES (sqes_size p) = Some sm"
    using assms(1) p by (auto simp: ring_granted_def)
  show thesis
  proof (cases "single_mmap p")
    case True
    then show thesis using that assms p m by (simp add: IO_ctor_def ring_granted_def Let_def)
  next
    case False
    then obtain cm where "env_mmap env fd OFF_CQ_RING (cq_ring_size p) = Some cm" using assms(1) p by (auto simp: ring_granted_def)
    then show thesis using that assms p m False by (simp add: IO_ctor_def ring_granted_def Let_def)
  qed
qed

lemma with_io_passes:
  assumes "ring_granted mem env entries" "entries \<noteq> 0" "mmap_nonnull env" "setup_nonempty env"
    and "\<And>io cs. IO_ctor env entries = (Inr io, cs) \<Longrightarrow> check io"
  shows "with_io env entries check"
proof -
  obtain io cs where c: "IO_ctor env entries = (Inr io, cs)" using granted_ctor [OF assms(1,2)] .
  then show ?thesis using IO_ctor_balanced [OF assms(3,4) c] assms(5) [OF c] by (simp add: with_io_def)
qed

lemma region_nonnull: "in_region base sz p n \<Longrightarrow> base \<noteq> 0 \<Longrightarrow> p \<noteq> 0"
  by (auto simp: in_region_def unat_eq_zero)

lemma wired_nonnull:
  assumes "sq_wired q n" "sq_map q \<noteq> 0"
  shows "sq_head_p q \<noteq> 0" "sq_tail_p q \<noteq> 0" "sq_mask_p q \<noteq> 0" "sq_entries_p q \<noteq> 0" "sq_flags_p q \<noteq> 0" "sq_dropped_p q \<noteq> 0" "sq_array_p q \<noteq> 0"
  using assms region_nonnull [of "sq_map q"] by (auto simp: sq_wired_def)

lemma cq_wired_nonnull:
  assumes "cq_wired q base sz n" "base \<noteq> 0"
  shows "cq_head_p q \<noteq> 0" "cq_tail_p q \<noteq> 0" "cq_mask_p q \<noteq> 0" "cq_entries_p q \<noteq> 0" "cq_cqes_p q \<noteq> 0"
  using assms region_nonnull [of base] by (auto simp: cq_wired_def)

section \<open>The sections pass\<close>

lemma exception_tests_pass:
  "test_zero_entries env" "test_status_preserved" "test_what st" "test_to_string" "test_bad_allocation"
  by (simp_all add: test_zero_entries_def IO_ctor_def test_status_preserved_def test_to_string_def test_bad_allocation_def
      mk_io_exception_def to_string_def error_status_str_def)
     (cases st; simp add: test_what_def mk_io_exception_def to_string_def error_status_str_def)

lemma io_nonnull:
  assumes "IO_ctor env entries = (Inr io, cs)" "mmap_nonnull env"
  shows "io_fd io \<ge> 0" "sq_map (io_sq io) \<noteq> 0" "sqes_map (io_sq io) \<noteq> 0" "sq_sqes_p (io_sq io) = sqes_map (io_sq io)" "cq_map (io_cq io) \<noteq> 0"
  using assms(1)
  by (cases rule: IO_ctor_cases; use assms(2) in \<open>auto simp: mmap_nonnull_def wire_sq_def wire_cq_def Let_def\<close>)+

lemma io_memory:
  assumes "IO_ctor env entries = (Inr io, cs)" "ring_granted mem env entries"
  shows "mem (sq_head_p (io_sq io)) = 0" "mem (sq_tail_p (io_sq io)) = 0" "mem (cq_head_p (io_cq io)) = 0" "mem (cq_tail_p (io_cq io)) = 0"
    "0 < mem (sq_entries_p (io_sq io))" "mem (sq_entries_p (io_sq io)) \<le> mem (cq_entries_p (io_cq io))"
    "0 < sq_map_size (io_sq io)" "0 < sqes_map_size (io_sq io)"
proof -
  have pos: "0 < sq_ring_size p" "0 < sqes_size p" if "0 < p_sq_entries p" for p
    using that by (simp_all add: word_less_nat_alt unat_sq_ring_size unat_sqes_size)
  show "mem (sq_head_p (io_sq io)) = 0" "mem (sq_tail_p (io_sq io)) = 0" "mem (cq_head_p (io_cq io)) = 0" "mem (cq_tail_p (io_cq io)) = 0"
    "0 < mem (sq_entries_p (io_sq io))" "mem (sq_entries_p (io_sq io)) \<le> mem (cq_entries_p (io_cq io))"
    "0 < sq_map_size (io_sq io)" "0 < sqes_map_size (io_sq io)"
    using assms(1)
    by (cases rule: IO_ctor_cases; use assms(2) pos in \<open>auto simp: ring_granted_def rings_start_def wire_sq_def wire_cq_def Let_def\<close>)+
qed

text \<open>
  The ring sections pass on every kernel that grants a request of that size and whose completion ring
  fits what the constructor maps for it (\<open>cq_fits\<close>): the constructor does
  not throw, every pointer it wires is valid, both rings are empty, and destruction gives back what
  was acquired.
\<close>

theorem ring_tests_pass:
  assumes "ring_granted mem env 256" "ring_granted mem env 512" "mmap_nonnull env" "setup_nonempty env" "uring_layout env" "cq_fits env 256"
  shows "test_default_entries env \<and> test_custom_entries env \<and> test_fd_valid env \<and> test_sq_pointers env \<and> test_sq_sizes env
    \<and> test_sq_entries mem env \<and> test_sq_zero mem env \<and> test_cq_pointers env \<and> test_cq_entries mem env \<and> test_cq_zero mem env
    \<and> test_teardown env"
proof -
  have w: "with_io env 256 check" if "\<And>io cs. IO_ctor env 256 = (Inr io, cs) \<Longrightarrow> check io" for check
    by (rule with_io_passes [OF assms(1) _ assms(3,4) that]) simp_all
  have c: "with_io env 512 check" if "\<And>io cs. IO_ctor env 512 = (Inr io, cs) \<Longrightarrow> check io" for check
    by (rule with_io_passes [OF assms(2) _ assms(3,4) that]) simp_all
  have sq: "sq_head_p q \<noteq> 0 \<and> sq_tail_p q \<noteq> 0 \<and> sq_mask_p q \<noteq> 0 \<and> sq_entries_p q \<noteq> 0 \<and> sq_flags_p q \<noteq> 0 \<and> sq_dropped_p q \<noteq> 0 \<and> sq_array_p q \<noteq> 0"
    and cq: "cq_head_p p \<noteq> 0 \<and> cq_tail_p p \<noteq> 0 \<and> cq_mask_p p \<noteq> 0 \<and> cq_entries_p p \<noteq> 0 \<and> cq_cqes_p p \<noteq> 0"
    if io: "IO_ctor env 256 = (Inr io, cs)" and eq: "q = io_sq io" "p = io_cq io" for io cs q p
  proof -
    from IO_ctor_wired [OF assms(5) io] assms(6) obtain base sz where
      s: "sq_wired q (fst (io_entry_counts env 256))" and b: "RMap base sz \<in># the (replay {#} cs)" "cq_wired p base sz (snd (io_entry_counts env 256))"
      using eq by auto
    have "base \<noteq> 0" using io by (cases rule: IO_ctor_cases) (use b(1) assms(3) in \<open>auto simp: mmap_nonnull_def\<close>)
    then show "cq_head_p p \<noteq> 0 \<and> cq_tail_p p \<noteq> 0 \<and> cq_mask_p p \<noteq> 0 \<and> cq_entries_p p \<noteq> 0 \<and> cq_cqes_p p \<noteq> 0"
      using cq_wired_nonnull [OF b(2)] by simp
    show "sq_head_p q \<noteq> 0 \<and> sq_tail_p q \<noteq> 0 \<and> sq_mask_p q \<noteq> 0 \<and> sq_entries_p q \<noteq> 0 \<and> sq_flags_p q \<noteq> 0 \<and> sq_dropped_p q \<noteq> 0 \<and> sq_array_p q \<noteq> 0"
      using wired_nonnull [OF s] io_nonnull(2) [OF io assms(3)] eq by simp
  qed
  show ?thesis
    unfolding test_default_entries_def test_custom_entries_def test_fd_valid_def test_sq_pointers_def test_sq_sizes_def test_sq_entries_def
      test_sq_zero_def test_cq_pointers_def test_cq_entries_def test_cq_zero_def test_teardown_def Let_def
    using io_nonnull [OF _ assms(3)] io_memory [OF _ assms(1)] sq cq by (intro conjI w c) auto
qed

text \<open>Two rings alive at once are independent when the kernel gives them different descriptors and mappings.\<close>

lemma independent_tests_pass:
  assumes "ring_granted mem env1 256" "ring_granted mem env2 256" "mmap_nonnull env1" "mmap_nonnull env2" "setup_nonempty env1" "setup_nonempty env2"
    and "\<And>io1 io2 cs1 cs2. IO_ctor env1 256 = (Inr io1, cs1) \<Longrightarrow> IO_ctor env2 256 = (Inr io2, cs2) \<Longrightarrow>
      (\<forall>x \<in># the (replay {#} cs1). \<forall>y \<in># the (replay {#} cs2). case (x, y) of (RFd a, RFd b) \<Rightarrow> a \<noteq> b | (RMap a m, RMap b n) \<Rightarrow> a \<noteq> b | _ \<Rightarrow> True)"
  shows "test_independent env1 env2 \<and> test_teardowns env1 env2"
proof -
  have owned: "RFd (io_fd io) \<in># the (replay {#} cs)" "\<exists>n. RMap (sq_map (io_sq io)) n \<in># the (replay {#} cs)" "\<exists>n. RMap (cq_map (io_cq io)) n \<in># the (replay {#} cs)"
    if "IO_ctor env 256 = (Inr io, cs)" for env io cs
    using that by (cases rule: IO_ctor_cases; auto simp: wire_sq_def wire_cq_def Let_def)+
  have "test_independent env1 env2"
    unfolding test_independent_def
  proof (rule with_io_passes [OF assms(1) _ assms(3,5)])
    fix io1 cs1 assume io1: "IO_ctor env1 256 = (Inr io1, cs1)"
    show "with_io env2 256 (\<lambda>io2. io_fd io1 \<noteq> io_fd io2 \<and> sq_map (io_sq io1) \<noteq> sq_map (io_sq io2) \<and> cq_map (io_cq io1) \<noteq> cq_map (io_cq io2))"
    proof (rule with_io_passes [OF assms(2) _ assms(4,6)])
      fix io2 cs2 assume io2: "IO_ctor env2 256 = (Inr io2, cs2)"
      note d = assms(7) [OF io1 io2]
      show "io_fd io1 \<noteq> io_fd io2 \<and> sq_map (io_sq io1) \<noteq> sq_map (io_sq io2) \<and> cq_map (io_cq io1) \<noteq> cq_map (io_cq io2)"
        using d owned [OF io1] owned [OF io2] by fastforce
    qed simp
  qed simp
  moreover have "test_teardowns env1 env2"
    unfolding test_teardowns_def
    by (rule with_io_passes [OF assms(1) _ assms(3,5)], simp, rule with_io_passes [OF assms(2) _ assms(4,6)]) simp_all
  ultimately show ?thesis ..
qed

text \<open>A kernel that grants both requests.\<close>

definition ample_env :: uring_env where
  "ample_env =
    \<lparr>env_setup = (\<lambda>n p. (3, p\<lparr>p_sq_entries := 256, p_cq_entries := 512, p_features := 1,
       sq_off := \<lparr>so_head = 0, so_tail = 64, so_ring_mask = 256, so_ring_entries = 264, so_flags = 276,
                  so_dropped = 272, so_array = 8512\<rparr>,
       cq_off := \<lparr>co_head = 128, co_tail = 192, co_ring_mask = 260, co_ring_entries = 268, co_cqes = 320\<rparr>\<rparr>)),
     env_mmap = (\<lambda>fd off n. if n \<le> 1048576 then Some (case off of OFF_SQES \<Rightarrow> 65536 | _ \<Rightarrow> 4096) else None)\<rparr>"

definition ample_mem :: "u64 \<Rightarrow> u32" where
  "ample_mem a = (if a = 4096 + 264 then 256 else if a = 4096 + 268 then 512 else 0)"

lemma ample_granted: "entries \<noteq> 0 \<Longrightarrow> ring_granted ample_mem ample_env entries"
  by (simp add: ring_granted_def ample_env_def rings_start_def ample_mem_def single_mmap_def IORING_FEAT_SINGLE_MMAP_def
      sq_ring_size_def sqes_size_def sizeof_u32_def sizeof_sqe_def)

theorem ring_tests_pass_witness: "test_sq_pointers ample_env \<and> test_cq_entries ample_mem ample_env \<and> test_teardown ample_env"
proof -
  have fits: "mmap_fits ample_env" by (auto simp: mmap_fits_def ample_env_def word_le_nat_alt split: if_splits mmap_off.splits)
  have "uring_layout ample_env"
    using fits by (auto simp: uring_layout_def ample_env_def sq_fields_below_def cq_fields_below_def)
  moreover have "cq_fits ample_env 256"
    by (simp add: cq_fits_def cq_mapped_def ample_env_def unat_cq_ring_size unat_sq_ring_size single_mmap_def IORING_FEAT_SINGLE_MMAP_def Let_def)
  moreover have "mmap_nonnull ample_env" "setup_nonempty ample_env"
    by (auto simp: mmap_nonnull_def setup_nonempty_def ample_env_def split: if_splits mmap_off.splits)
  ultimately show ?thesis using ring_tests_pass [OF ample_granted ample_granted] by simp
qed

end
