(* ===== verification/Operations.thy ===== *)
theory Operations
  imports Error_Codes
begin

text \<open>
  \<^verbatim>\<open>include/slim/common/io/operations.h.in\<close> and \<^verbatim>\<open>src/operations.cpp\<close>: the ten operations, the
  submission entry (\<open>io_uring_sqe\<close>, whose unions are modelled by the fields that share storage)
  and \<open>prepare\<close>. A pointer stored in an entry is kept symbolic: which object, and which member,
  it points at. The specification \<open>decode\<close> says which field the io_uring interface reads for each
  opcode; the theorems compare what \<open>prepare\<close> wrote with what is read.
\<close>

section \<open>Pointers\<close>

text \<open>
  \<open>reinterpret_cast<uint64_t>\<close> of the pointers the code stores: distinct live objects have
  distinct non-null addresses, so an address is represented by the object it belongs to. \<open>AwPtr n\<close>
  is the \<open>n\<close>-th \<open>Awaitable\<close> itself, the next four its members; \<open>EventfdBuf\<close> is the scheduler's
  \<open>&eventfd_buf_\<close>; \<open>UserPtr\<close> is memory of the caller.
\<close>

datatype ptr =
    NullPtr
  | EventfdBuf
  | AwPtr nat
  | AwAddr nat
  | AwAddrLen nat
  | AwStatBuf nat
  | AwTimeout nat
  | UserPtr u64

section \<open>Submission entries\<close>

datatype opcode =
    IORING_OP_NOP
  | IORING_OP_ACCEPT
  | IORING_OP_CLOSE
  | IORING_OP_CONNECT
  | IORING_OP_OPENAT
  | IORING_OP_POLL_ADD
  | IORING_OP_READ
  | IORING_OP_RECV
  | IORING_OP_SEND
  | IORING_OP_STATX
  | IORING_OP_WRITE
  | IORING_OP_LINK_TIMEOUT

text \<open>
  \<open>off\<close> and \<open>addr2\<close> share a word, as do \<open>accept_flags\<close>, \<open>open_flags\<close>, \<open>poll32_events\<close>,
  \<open>msg_flags\<close> and \<open>statx_flags\<close> (\<open>op_flags\<close> here). \<open>sqe_rest\<close> stands for the members the code
  never writes after clearing them (\<open>ioprio\<close>, \<open>buf_index\<close>, \<open>personality\<close>, and so on).
\<close>

datatype off_addr2 = Off u64 | Addr2 ptr

record sqe =
  sqe_opcode :: opcode
  sqe_flags :: u8
  sqe_fd :: fdesc
  sqe_off :: off_addr2
  sqe_addr :: ptr
  sqe_len :: u32
  sqe_op_flags :: u32
  sqe_user_data :: ptr
  sqe_rest :: u64

definition memset_sqe :: "sqe \<Rightarrow> sqe" where
  "memset_sqe s = s\<lparr>sqe_opcode := IORING_OP_NOP, sqe_flags := 0, sqe_fd := 0, sqe_off := Off 0,
     sqe_addr := NullPtr, sqe_len := 0, sqe_op_flags := 0, sqe_user_data := NullPtr, sqe_rest := 0\<rparr>"

definition zero_sqe :: sqe where
  "zero_sqe = \<lparr>sqe_opcode = IORING_OP_NOP, sqe_flags = 0, sqe_fd = 0, sqe_off = Off 0,
     sqe_addr = NullPtr, sqe_len = 0, sqe_op_flags = 0, sqe_user_data = NullPtr, sqe_rest = 0\<rparr>"

lemma memset_sqe_zero [simp]: "memset_sqe s = zero_sqe"
  by (cases s) (simp add: memset_sqe_def zero_sqe_def)

definition IOSQE_IO_LINK :: u8 where "IOSQE_IO_LINK = 4"
definition SOCK_NONBLOCK :: u32 where "SOCK_NONBLOCK = 2048"
definition SOCK_CLOEXEC :: u32 where "SOCK_CLOEXEC = 524288"
definition AT_FDCWD :: fdesc where "AT_FDCWD = -100"
definition STATX_BASIC_STATS :: u32 where "STATX_BASIC_STATS = 2047"

section \<open>Operations\<close>

record string_view =
  sv_data :: u64
  sv_size :: u64

record span =
  sp_data :: u64
  sp_size :: u64

datatype operation =
    Accept fdesc
  | Close fdesc
  | Connect fdesc "u8 list" u32
  | Open fdesc string_view int u32
  | Poll fdesc u32
  | Read fdesc span u64
  | Recv fdesc u64 u64 int
  | Send fdesc u64 u64 int
  | Stat fdesc string_view int u32
  | Write fdesc span u64

subsection \<open>Constructors\<close>

definition sockaddr_storage_size :: nat where "sockaddr_storage_size = 128"

text \<open>Ways a run can leave the defined behaviour of the language, and \<open>std::terminate\<close>.\<close>

datatype ub = BufferOverflow | BufferOverread | UseAfterFree | ResumeDone | DivByZero | StdTerminate

text \<open>
  \<open>memcpy\<close>, byte by byte, on memory that ends where the two objects end: \<open>src\<close> and \<open>dst\<close> are the bytes
  of the objects the pointers point into, \<open>i\<close> the bytes copied so far, \<open>n\<close> those left. Touching a byte
  outside an object is undefined.
\<close>

fun memcpy_from :: "nat \<Rightarrow> nat \<Rightarrow> u8 list \<Rightarrow> u8 list \<Rightarrow> ub + u8 list" where
  "memcpy_from i 0 src dst = Inr dst"
| "memcpy_from i (Suc n) src dst =
     (if length src \<le> i then Inl BufferOverread
      else if length dst \<le> i then Inl BufferOverflow
      else memcpy_from (Suc i) n src (dst[i := src ! i]))"

text \<open>
  \<open>Connect\<close> copies \<open>addr_len\<close> bytes of the caller's \<open>sockaddr\<close>, the object \<open>mem\<close>, into its
  zero-initialised \<open>addr_\<close>.
\<close>

definition Connect_ctor :: "fdesc \<Rightarrow> u8 list \<Rightarrow> u32 \<Rightarrow> ub + operation" where
  "Connect_ctor fd mem addr_len =
     (case memcpy_from 0 (unat addr_len) mem (replicate sockaddr_storage_size 0) of
        Inl u \<Rightarrow> Inl u
      | Inr addr \<Rightarrow> Inr (Connect fd addr addr_len))"

definition Open_default :: "string_view \<Rightarrow> int \<Rightarrow> operation" where
  "Open_default path flags = Open AT_FDCWD path flags 420"

definition Stat_default :: "string_view \<Rightarrow> operation" where
  "Stat_default path = Stat AT_FDCWD path 0 STATX_BASIC_STATS"

subsection \<open>prepare\<close>

fun prepare :: "operation \<Rightarrow> nat \<Rightarrow> sqe \<Rightarrow> sqe" where
  "prepare (Accept server_fd) this s = (memset_sqe s)
     \<lparr>sqe_opcode := IORING_OP_ACCEPT, sqe_fd := server_fd, sqe_addr := AwAddr this,
      sqe_off := Addr2 (AwAddrLen this), sqe_op_flags := SOCK_NONBLOCK OR SOCK_CLOEXEC\<rparr>"
| "prepare (Close fd) this s = (memset_sqe s)
     \<lparr>sqe_opcode := IORING_OP_CLOSE, sqe_fd := fd\<rparr>"
| "prepare (Connect fd addr addr_len) this s = (memset_sqe s)
     \<lparr>sqe_opcode := IORING_OP_CONNECT, sqe_fd := fd, sqe_addr := AwAddr this,
      sqe_off := Off (ucast addr_len)\<rparr>"
| "prepare (Open dfd path flags mode) this s = (memset_sqe s)
     \<lparr>sqe_opcode := IORING_OP_OPENAT, sqe_fd := dfd, sqe_addr := UserPtr (sv_data path),
      sqe_op_flags := word_of_int flags, sqe_len := mode\<rparr>"
| "prepare (Poll fd poll_mask) this s = (memset_sqe s)
     \<lparr>sqe_opcode := IORING_OP_POLL_ADD, sqe_fd := fd, sqe_op_flags := poll_mask\<rparr>"
| "prepare (Read fd buf offset) this s = (memset_sqe s)
     \<lparr>sqe_opcode := IORING_OP_READ, sqe_fd := fd, sqe_addr := UserPtr (sp_data buf),
      sqe_len := ucast (sp_size buf * 4), sqe_off := Off offset\<rparr>"
| "prepare (Recv fd buf len flags) this s = (memset_sqe s)
     \<lparr>sqe_opcode := IORING_OP_RECV, sqe_fd := fd, sqe_addr := UserPtr buf,
      sqe_len := ucast len, sqe_op_flags := word_of_int flags\<rparr>"
| "prepare (Send fd buf len flags) this s = (memset_sqe s)
     \<lparr>sqe_opcode := IORING_OP_SEND, sqe_fd := fd, sqe_addr := UserPtr buf,
      sqe_len := ucast len, sqe_op_flags := word_of_int flags\<rparr>"
| "prepare (Stat dfd path flags statx_mask) this s = (memset_sqe s)
     \<lparr>sqe_opcode := IORING_OP_STATX, sqe_fd := dfd, sqe_addr := UserPtr (sv_data path),
      sqe_off := Addr2 (AwStatBuf this), sqe_op_flags := word_of_int flags, sqe_len := statx_mask\<rparr>"
| "prepare (Write fd buf offset) this s = (memset_sqe s)
     \<lparr>sqe_opcode := IORING_OP_WRITE, sqe_fd := fd, sqe_addr := UserPtr (sp_data buf),
      sqe_len := ucast (sp_size buf * 4), sqe_off := Off offset\<rparr>"

section \<open>What an entry asks for\<close>

text \<open>
  The requests of the io_uring interface with the arguments each opcode takes, and the fields it
  reads them from, following the interface documentation (io_uring_enter(2)). Lengths and
  arguments are the unbounded values a caller means.
\<close>

datatype request =
    RAccept fdesc ptr ptr u32
  | RClose fdesc
  | RConnect fdesc ptr nat
  | ROpenat fdesc ptr u32 u32
  | RPoll fdesc u32
  | RRead fdesc ptr nat u64
  | RRecv fdesc ptr nat u32
  | RSend fdesc ptr nat u32
  | RStatx fdesc ptr u32 u32 ptr
  | RWrite fdesc ptr nat u64
  | RLinkTimeout ptr u32

fun off_num :: "off_addr2 \<Rightarrow> u64 option" where
  "off_num (Off n) = Some n"
| "off_num (Addr2 _) = None"

fun off_ptr :: "off_addr2 \<Rightarrow> ptr option" where
  "off_ptr (Addr2 p) = Some p"
| "off_ptr (Off _) = None"

fun decode :: "sqe \<Rightarrow> request option" where
  "decode s = (case sqe_opcode s of
     IORING_OP_NOP \<Rightarrow> None
   | IORING_OP_ACCEPT \<Rightarrow> map_option (\<lambda>p. RAccept (sqe_fd s) (sqe_addr s) p (sqe_op_flags s)) (off_ptr (sqe_off s))
   | IORING_OP_CLOSE \<Rightarrow> Some (RClose (sqe_fd s))
   | IORING_OP_CONNECT \<Rightarrow> map_option (\<lambda>n. RConnect (sqe_fd s) (sqe_addr s) (unat n)) (off_num (sqe_off s))
   | IORING_OP_OPENAT \<Rightarrow> Some (ROpenat (sqe_fd s) (sqe_addr s) (sqe_op_flags s) (sqe_len s))
   | IORING_OP_POLL_ADD \<Rightarrow> Some (RPoll (sqe_fd s) (sqe_op_flags s))
   | IORING_OP_READ \<Rightarrow> map_option (RRead (sqe_fd s) (sqe_addr s) (unat (sqe_len s))) (off_num (sqe_off s))
   | IORING_OP_RECV \<Rightarrow> Some (RRecv (sqe_fd s) (sqe_addr s) (unat (sqe_len s)) (sqe_op_flags s))
   | IORING_OP_SEND \<Rightarrow> Some (RSend (sqe_fd s) (sqe_addr s) (unat (sqe_len s)) (sqe_op_flags s))
   | IORING_OP_STATX \<Rightarrow> map_option (RStatx (sqe_fd s) (sqe_addr s) (sqe_op_flags s) (sqe_len s)) (off_ptr (sqe_off s))
   | IORING_OP_WRITE \<Rightarrow> map_option (RWrite (sqe_fd s) (sqe_addr s) (unat (sqe_len s))) (off_num (sqe_off s))
   | IORING_OP_LINK_TIMEOUT \<Rightarrow> Some (RLinkTimeout (sqe_addr s) (sqe_len s)))"

text \<open>The request an operation object stands for; \<open>this\<close> is the object.\<close>

fun request_of :: "operation \<Rightarrow> nat \<Rightarrow> request" where
  "request_of (Accept fd) this = RAccept fd (AwAddr this) (AwAddrLen this) (SOCK_NONBLOCK OR SOCK_CLOEXEC)"
| "request_of (Close fd) this = RClose fd"
| "request_of (Connect fd addr n) this = RConnect fd (AwAddr this) (unat n)"
| "request_of (Open dfd path flags mode) this = ROpenat dfd (UserPtr (sv_data path)) (word_of_int flags) mode"
| "request_of (Poll fd m) this = RPoll fd m"
| "request_of (Read fd buf off) this = RRead fd (UserPtr (sp_data buf)) (4 * unat (sp_size buf)) off"
| "request_of (Recv fd p n flags) this = RRecv fd (UserPtr p) (unat n) (word_of_int flags)"
| "request_of (Send fd p n flags) this = RSend fd (UserPtr p) (unat n) (word_of_int flags)"
| "request_of (Stat dfd path flags m) this = RStatx dfd (UserPtr (sv_data path)) (word_of_int flags) m (AwStatBuf this)"
| "request_of (Write fd buf off) this = RWrite fd (UserPtr (sp_data buf)) (4 * unat (sp_size buf)) off"

text \<open>The number of bytes an operation transfers, where it has a buffer.\<close>

fun byte_length :: "operation \<Rightarrow> nat" where
  "byte_length (Read _ buf _) = 4 * unat (sp_size buf)"
| "byte_length (Write _ buf _) = 4 * unat (sp_size buf)"
| "byte_length (Recv _ _ n _) = unat n"
| "byte_length (Send _ _ n _) = unat n"
| "byte_length _ = 0"

definition length_fits :: "operation \<Rightarrow> bool" where
  "length_fits op \<longleftrightarrow> byte_length op < 2 ^ 32"

section \<open>Properties\<close>

lemma unat_ucast_down_u64: "unat (ucast (n :: u64) :: u32) = unat n mod 2 ^ 32"
  by (simp add: unsigned_ucast_eq take_bit_eq_mod)

lemma unat_span_bytes:
  "unat (n * 4 :: u64) mod 4294967296 = 4 * unat n \<longleftrightarrow> unat n < 1073741824"
proof -
  have "unat (n * 4) = (unat n * 4) mod 18446744073709551616"
    using unat_word_ariths(2) [of n 4] by simp
  then have "unat (n * 4) mod 4294967296 = (4 * unat n) mod 4294967296"
    by (simp add: mod_mod_cancel mult.commute)
  then show ?thesis
    using mod_less_divisor [of 4294967296 "4 * unat n"] by (cases "unat n < 1073741824") auto
qed

lemma mod_pow32_self: "(n :: nat) mod 4294967296 = n \<longleftrightarrow> n < 4294967296"
  by (metis mod_less mod_less_divisor zero_less_numeral)

lemmas prepare_lengths = unat_ucast_down_u64 unat_span_bytes mod_pow32_self

text \<open>
  C22: \<open>prepare\<close> asks the kernel for the operation the object stands for: descriptor, buffer,
  flags, offset and the out-parameters are all in the fields the opcode reads, for every one of
  the ten operations, and this holds exactly when the byte length fits the 32-bit \<open>len\<close> field. A
  span of \<open>2 ^ 30\<close> elements or a \<open>recv\<close> of 4 GiB is silently shortened.
\<close>

theorem prepare_decodes_iff:
  "decode (prepare op this stale) = Some (request_of op this) \<longleftrightarrow> length_fits op"
  by (cases op)
     (simp_all add: length_fits_def zero_sqe_def prepare_lengths)

text \<open>
  \<open>prepare\<close> overwrites the whole slot: the entry does not depend on what an earlier trip round
  the ring left there, and its flags and \<open>user_data\<close> are clear until \<open>await_suspend\<close> sets them.
\<close>

theorem prepare_overwrites_slot:
  "prepare op this stale = prepare op this zero_sqe
   \<and> sqe_flags (prepare op this stale) = 0 \<and> sqe_user_data (prepare op this stale) = NullPtr
   \<and> sqe_rest (prepare op this stale) = 0"
  by (cases op) (simp_all add: zero_sqe_def)

text \<open>Shared with the other components.\<close>

lemma prepare_stale: "prepare op this stale = prepare op this zero_sqe"
  by (cases op) simp_all

lemma prepare_flags: "sqe_flags (prepare op this stale) = 0"
  by (cases op) (simp_all add: zero_sqe_def)

lemma prepare_not_timeout: "sqe_opcode (prepare op this stale) \<noteq> IORING_OP_LINK_TIMEOUT"
  by (cases op) (simp_all add: zero_sqe_def)

section \<open>Copying the address of a Connect\<close>

lemma memcpy_from_closed:
  "length dst = d \<Longrightarrow> memcpy_from i n src dst =
     (if i + n \<le> min (length src) d \<or> n = 0 then Inr (take i dst @ take n (drop i src) @ drop (i + n) dst)
      else if length src \<le> max i d then Inl BufferOverread else Inl BufferOverflow)"
proof (induction i n src dst arbitrary: d rule: memcpy_from.induct)
  case (2 i n src dst)
  show ?case
  proof (cases "i < length src \<and> i < length dst")
    case True
    then have "take (Suc i) (dst[i := src ! i]) = take i dst @ [src ! i]" by (simp add: take_Suc_conv_app_nth)
    moreover have "take (Suc n) (drop i src) = src ! i # take n (drop (Suc i) src)" using True by (simp add: take_Suc hd_drop_conv_nth tl_drop drop_Suc)
    ultimately show ?thesis using 2 True by auto
  next
    case False
    then show ?thesis using 2 by auto
  qed
qed simp

lemma Connect_ctor_closed:
  "Connect_ctor fd mem addr_len =
     (if unat addr_len \<le> sockaddr_storage_size \<and> unat addr_len \<le> length mem
      then Inr (Connect fd (take (unat addr_len) mem @ replicate (sockaddr_storage_size - unat addr_len) 0) addr_len)
      else if length mem \<le> sockaddr_storage_size then Inl BufferOverread else Inl BufferOverflow)"
  by (auto simp: Connect_ctor_def memcpy_from_closed [OF length_replicate] sockaddr_storage_size_def)

text \<open>
  C23: \<open>Connect\<close> owns its address, or has already gone wrong. When the caller's length is at most 128
  and at most the size of the caller's object, the byte loop of the constructor leaves in \<open>addr_\<close> a copy
  of the first \<open>addr_len\<close> bytes followed by zeroes, 128 bytes in all, and nothing else of the caller's
  object is in the operation, so what becomes of that object later does not matter. In every other
  case, and in no other, it leaves the bounds of an object: it writes past the end of \<open>addr_\<close> when the
  caller's object is larger than that, and reads past the end of the caller's object otherwise.
\<close>

theorem Connect_copies_address:
  "(Connect_ctor fd mem addr_len = Inr (Connect fd (take (unat addr_len) mem @ replicate (128 - unat addr_len) 0) addr_len)
      \<longleftrightarrow> unat addr_len \<le> min 128 (length mem))
   \<and> (Connect_ctor fd mem addr_len = Inl BufferOverflow \<longleftrightarrow> 128 < unat addr_len \<and> 128 < length mem)
   \<and> (Connect_ctor fd mem addr_len = Inl BufferOverread \<longleftrightarrow> length mem < unat addr_len \<and> length mem \<le> 128)"
  by (auto simp: Connect_ctor_closed sockaddr_storage_size_def)

end
