(* ===== verification/Ring.thy ===== *)
theory Ring
  imports Operations
begin

text \<open>
  The shared memory of the two queues (\<open>IO::Sq\<close>, \<open>IO::Cq\<close>) and the code that moves their
  indices: \<open>has_capacity\<close> and \<open>commit_one\<close> of \<^verbatim>\<open>src/awaitable.cpp\<close>, and the head store of
  \<open>Scheduler::drain\<close>. The abstraction of a queue is the list of its occupied slots. Two
  locales state what the rest of the code relies on, a bounded submission queue and a completion
  queue; both are interpreted on these definitions.
\<close>

section \<open>Contents of the mapped rings\<close>

record cqe =
  cqe_user_data :: ptr
  cqe_res :: int

record ring =
  ring_fd :: fdesc
  sq_head :: u32
  sq_tail :: u32
  sq_mask :: u32
  sq_entries :: u32
  sq_array :: "u32 list"
  sq_sqes :: "sqe list"
  cq_head :: u32
  cq_tail :: u32
  cq_mask :: u32
  cq_entries :: u32
  cq_cqes :: "cqe list"

section \<open>Operations of the code\<close>

definition has_capacity :: "ring \<Rightarrow> u32 \<Rightarrow> bool" where
  "has_capacity r count \<longleftrightarrow> (sq_tail r - sq_head r) + count \<le> sq_entries r"

definition commit_one :: "ring \<Rightarrow> ring \<times> u32" where
  "commit_one r =
     (let tail = sq_tail r; idx = tail AND sq_mask r
      in (r\<lparr>sq_array := (sq_array r)[unat idx := idx], sq_tail := tail + 1\<rparr>, idx))"

text \<open>Writing through the \<open>io_uring_sqe*\<close> that \<open>commit_one\<close> returned.\<close>

definition write_sqe :: "u32 \<Rightarrow> (sqe \<Rightarrow> sqe) \<Rightarrow> ring \<Rightarrow> ring" where
  "write_sqe idx f r = r\<lparr>sq_sqes := (sq_sqes r)[unat idx := f (sq_sqes r ! unat idx)]\<rparr>"

text \<open>\<open>io_.cq.head->store(current)\<close> after one completion.\<close>

definition store_cq_head :: "u32 \<Rightarrow> ring \<Rightarrow> ring" where
  "store_cq_head h r = r\<lparr>cq_head := h\<rparr>"

section \<open>The kernel's side\<close>

text \<open>
  The effect of \<open>io_uring_enter\<close> on the shared memory, as the interface defines it: the kernel
  advances the submission head past the entries it took, and appends completions at the
  completion tail. How many it takes and what it completes is decided elsewhere.
\<close>

definition consume_sq :: "nat \<Rightarrow> ring \<Rightarrow> ring" where
  "consume_sq n r = r\<lparr>sq_head := sq_head r + word_of_nat n\<rparr>"

definition post_cqe :: "cqe \<Rightarrow> ring \<Rightarrow> ring" where
  "post_cqe c r = r\<lparr>cq_cqes := (cq_cqes r)[slot (cq_tail r) (cq_mask r) := c], cq_tail := cq_tail r + 1\<rparr>"

section \<open>Abstraction and invariant\<close>

definition sq_len :: "ring \<Rightarrow> nat" where
  "sq_len r = dist (sq_head r) (sq_tail r)"

definition cq_len :: "ring \<Rightarrow> nat" where
  "cq_len r = dist (cq_head r) (cq_tail r)"

definition sq_slot :: "ring \<Rightarrow> nat \<Rightarrow> nat" where
  "sq_slot r i = slot (sq_head r + word_of_nat i) (sq_mask r)"

definition cq_slot :: "ring \<Rightarrow> nat \<Rightarrow> nat" where
  "cq_slot r i = slot (cq_head r + word_of_nat i) (cq_mask r)"

text \<open>The entries the kernel will see, oldest first: it reads them through the index array.\<close>

definition sq_pending :: "ring \<Rightarrow> sqe list" where
  "sq_pending r = map (\<lambda>i. sq_sqes r ! unat (sq_array r ! sq_slot r i)) [0..<sq_len r]"

definition cq_ready :: "ring \<Rightarrow> cqe list" where
  "cq_ready r = map (\<lambda>i. cq_cqes r ! cq_slot r i) [0..<cq_len r]"

definition sq_ok :: "ring \<Rightarrow> bool" where
  "sq_ok r \<longleftrightarrow> is_ring_size (sq_entries r) (sq_mask r)
     \<and> length (sq_array r) = unat (sq_entries r) \<and> length (sq_sqes r) = unat (sq_entries r)
     \<and> sq_len r \<le> unat (sq_entries r)
     \<and> (\<forall>i < sq_len r. unat (sq_array r ! sq_slot r i) = sq_slot r i)"

definition cq_ok :: "ring \<Rightarrow> bool" where
  "cq_ok r \<longleftrightarrow> is_ring_size (cq_entries r) (cq_mask r)
     \<and> length (cq_cqes r) = unat (cq_entries r) \<and> cq_len r \<le> unat (cq_entries r)"

definition ring_ok :: "ring \<Rightarrow> bool" where
  "ring_ok r \<longleftrightarrow> sq_ok r \<and> cq_ok r"

lemma length_sq_pending [simp]: "length (sq_pending r) = sq_len r"
  by (simp add: sq_pending_def)

lemma length_cq_ready [simp]: "length (cq_ready r) = cq_len r"
  by (simp add: cq_ready_def)

lemma sq_okD:
  assumes "sq_ok r"
  shows "is_ring_size (sq_entries r) (sq_mask r)" "length (sq_array r) = unat (sq_entries r)"
    "length (sq_sqes r) = unat (sq_entries r)" "sq_len r \<le> unat (sq_entries r)"
    "i < sq_len r \<Longrightarrow> unat (sq_array r ! sq_slot r i) = sq_slot r i"
  using assms by (auto simp: sq_ok_def)

lemma sq_pending_alt:
  "sq_ok r \<Longrightarrow> sq_pending r = map (\<lambda>i. sq_sqes r ! sq_slot r i) [0..<sq_len r]"
  by (auto simp: sq_pending_def sq_okD)

section \<open>Staging one entry\<close>

text \<open>
  What one submission does in the source: \<open>commit_one\<close> publishes the slot, then the caller fills
  it through the returned pointer.
\<close>

definition stage_with :: "ring \<Rightarrow> (sqe \<Rightarrow> sqe) \<Rightarrow> ring" where
  "stage_with r f = (case commit_one r of (r', idx) \<Rightarrow> write_sqe idx f r')"

definition stage :: "ring \<Rightarrow> sqe \<Rightarrow> ring" where
  "stage r e = stage_with r (\<lambda>_. e)"

lemma stage_with_fields [simp]:
  "sq_head (stage_with r f) = sq_head r" "sq_tail (stage_with r f) = sq_tail r + 1"
  "sq_mask (stage_with r f) = sq_mask r" "sq_entries (stage_with r f) = sq_entries r"
  "cq_head (stage_with r f) = cq_head r" "cq_tail (stage_with r f) = cq_tail r"
  "cq_mask (stage_with r f) = cq_mask r" "cq_entries (stage_with r f) = cq_entries r"
  "cq_cqes (stage_with r f) = cq_cqes r" "ring_fd (stage_with r f) = ring_fd r"
  by (simp_all add: stage_with_def commit_one_def write_sqe_def Let_def)

lemma sq_slot_stage [simp]: "sq_slot (stage_with r f) i = sq_slot r i"
  by (simp add: sq_slot_def)

lemma stage_with_slots:
  "unat (sq_tail r AND sq_mask r) = sq_slot r (sq_len r)"
proof -
  have "sq_head r + word_of_nat (sq_len r) = sq_tail r"
    by (simp add: sq_len_def dist_def)
  then show ?thesis by (simp add: sq_slot_def slot_def)
qed

lemma stage_with_array:
  "sq_array (stage_with r f) = (sq_array r)[sq_slot r (sq_len r) := sq_tail r AND sq_mask r]"
  by (simp add: stage_with_def commit_one_def write_sqe_def Let_def stage_with_slots)

lemma stage_with_sqes:
  "sq_sqes (stage_with r f) =
     (sq_sqes r)[sq_slot r (sq_len r) := f (sq_sqes r ! sq_slot r (sq_len r))]"
  by (simp add: stage_with_def commit_one_def write_sqe_def Let_def stage_with_slots)

lemma sq_len_stage:
  "sq_ok r \<Longrightarrow> sq_len r < unat (sq_entries r) \<Longrightarrow> sq_len (stage_with r f) = Suc (sq_len r)"
  using ring_size_le [of "sq_entries r" "sq_mask r"]
  by (simp add: sq_len_def dist_Suc sq_okD)

lemma sq_slot_less: "sq_ok r \<Longrightarrow> sq_slot r i < unat (sq_entries r)"
  by (simp add: sq_slot_def slot_less sq_okD)

lemma sq_slot_inj:
  "sq_ok r \<Longrightarrow> i < unat (sq_entries r) \<Longrightarrow> j < unat (sq_entries r) \<Longrightarrow> sq_slot r i = sq_slot r j \<Longrightarrow> i = j"
  unfolding sq_slot_def by (rule slot_inj [OF sq_okD(1)])

lemma sq_ok_stage:
  assumes ok: "sq_ok r" and room: "sq_len r < unat (sq_entries r)"
  shows "sq_ok (stage_with r f)"
proof -
  have "unat (sq_array (stage_with r f) ! sq_slot r i) = sq_slot r i" if "i < Suc (sq_len r)" for i
  proof (cases "i = sq_len r")
    case True
    then show ?thesis
      using sq_slot_less [OF ok] sq_okD(2) [OF ok] by (simp add: stage_with_array stage_with_slots)
  next
    case False
    then have "i < sq_len r" using that by simp
    moreover from this have "sq_slot r (sq_len r) \<noteq> sq_slot r i"
      using sq_slot_inj [OF ok, of i "sq_len r"] room by force
    ultimately show ?thesis using ok by (simp add: stage_with_array sq_okD)
  qed
  then show ?thesis
    using assms by (auto simp: sq_ok_def sq_len_stage stage_with_array stage_with_sqes)
qed

lemma sq_pending_stage:
  assumes ok: "sq_ok r" and room: "sq_len r < unat (sq_entries r)"
  shows "sq_pending (stage_with r f) = sq_pending r @ [f (sq_sqes r ! sq_slot r (sq_len r))]"
proof -
  have ne: "sq_slot r (sq_len r) \<noteq> sq_slot r i" if "i < sq_len r" for i
    using sq_slot_inj [OF ok, of i "sq_len r"] room that by force
  have "sq_pending (stage_with r f) =
      map (\<lambda>i. sq_sqes (stage_with r f) ! sq_slot r i) [0..<Suc (sq_len r)]"
    by (simp add: sq_pending_alt [OF sq_ok_stage [OF ok room]] sq_len_stage [OF ok room])
  also have "\<dots> = map (\<lambda>i. sq_sqes r ! sq_slot r i) [0..<sq_len r]
      @ [f (sq_sqes r ! sq_slot r (sq_len r))]"
    using ne sq_slot_less [OF ok] sq_okD(3) [OF ok] by (simp add: stage_with_sqes)
  finally show ?thesis using ok by (simp add: sq_pending_alt)
qed

lemma has_capacity_iff:
  assumes ok: "sq_ok r" and n: "n < 2 ^ 31"
  shows "has_capacity r (word_of_nat n) \<longleftrightarrow> sq_len r + n \<le> unat (sq_entries r)"
proof -
  have le: "sq_len r \<le> 2 ^ 31"
    using ring_size_le [OF sq_okD(1) [OF ok]] sq_okD(4) [OF ok] by simp
  have "unat (word_of_nat n :: u32) = n" using n by (simp add: unat_of_nat)
  then have "unat ((sq_tail r - sq_head r) + word_of_nat n) = (sq_len r + n) mod 4294967296"
    by (simp add: unat_add_u32 sq_len_def dist_def)
  also have "\<dots> = sq_len r + n" using le n by simp
  finally show ?thesis by (simp add: has_capacity_def word_le_nat_alt)
qed

lemma has_capacity_1: "sq_ok r \<Longrightarrow> has_capacity r 1 \<longleftrightarrow> sq_len r < unat (sq_entries r)"
  using has_capacity_iff [of r 1] by auto

lemma has_capacity_2: "sq_ok r \<Longrightarrow> has_capacity r 2 \<longleftrightarrow> sq_len r + 2 \<le> unat (sq_entries r)"
  using has_capacity_iff [of r 2] by auto

section \<open>The submission queue as an interface\<close>

locale submission_queue =
  fixes pend :: "'r \<Rightarrow> 'e list"
    and cap :: "'r \<Rightarrow> nat"
    and good :: "'r \<Rightarrow> bool"
    and room :: "'r \<Rightarrow> nat \<Rightarrow> bool"
    and put :: "'r \<Rightarrow> 'e \<Rightarrow> 'r"
    and lim :: nat
  assumes room_iff: "good r \<Longrightarrow> n \<le> lim \<Longrightarrow> room r n \<longleftrightarrow> length (pend r) + n \<le> cap r"
    and pend_put: "good r \<Longrightarrow> length (pend r) < cap r \<Longrightarrow> pend (put r e) = pend r @ [e]"
    and good_put: "good r \<Longrightarrow> length (pend r) < cap r \<Longrightarrow> good (put r e)"
    and cap_put: "cap (put r e) = cap r"
    and bounded: "good r \<Longrightarrow> length (pend r) \<le> cap r"
begin

lemma put_all:
  assumes "good r" "length (pend r) + length es \<le> cap r"
  shows "pend (foldl put r es) = pend r @ es \<and> good (foldl put r es) \<and> cap (foldl put r es) = cap r"
  using assms
proof (induction es arbitrary: r)
  case (Cons e es)
  then have "length (pend r) < cap r" by simp
  with Cons.prems have p: "pend (put r e) = pend r @ [e]" "good (put r e)" "cap (put r e) = cap r"
    by (auto simp: pend_put good_put cap_put)
  then have "length (pend (put r e)) + length es \<le> cap (put r e)" using Cons.prems by simp
  from Cons.IH [OF p(2) this] p show ?case by simp
qed simp

lemma reserve_all_or_nothing:
  assumes "good r" "length es \<le> lim"
  shows "room r (length es) \<Longrightarrow> pend (foldl put r es) = pend r @ es \<and> good (foldl put r es)"
    and "\<not> room r (length es) \<Longrightarrow> cap r < length (pend r) + length es"
  using assms put_all [of r es] by (auto simp: room_iff)

end

lemma stage_cap [simp]: "sq_entries (stage r e) = sq_entries r"
  by (simp add: stage_def)

interpretation sq: submission_queue sq_pending "\<lambda>r. unat (sq_entries r)" sq_ok
    "\<lambda>r n. has_capacity r (word_of_nat n)" stage "2 ^ 31 - 1"
proof unfold_locales
  fix r n assume "sq_ok r" "n \<le> 2 ^ 31 - (1 :: nat)"
  then show "has_capacity r (word_of_nat n) \<longleftrightarrow> length (sq_pending r) + n \<le> unat (sq_entries r)"
    using has_capacity_iff [of r n] by simp
next
  fix r e assume "sq_ok r" "length (sq_pending r) < unat (sq_entries r)"
  then show "sq_pending (stage r e) = sq_pending r @ [e]" "sq_ok (stage r e)"
    by (simp_all add: stage_def sq_pending_stage sq_ok_stage)
qed (simp_all add: sq_okD)

section \<open>The completion queue as an interface\<close>

locale completion_queue =
  fixes ready :: "'r \<Rightarrow> 'e list"
    and good :: "'r \<Rightarrow> bool"
    and nonempty :: "'r \<Rightarrow> bool"
    and front :: "'r \<Rightarrow> 'e"
    and advance :: "'r \<Rightarrow> 'r"
  assumes nonempty_iff: "good r \<Longrightarrow> nonempty r \<longleftrightarrow> ready r \<noteq> []"
    and front_hd: "good r \<Longrightarrow> nonempty r \<Longrightarrow> front r = hd (ready r)"
    and ready_advance: "good r \<Longrightarrow> nonempty r \<Longrightarrow> ready (advance r) = tl (ready r)"
    and good_advance: "good r \<Longrightarrow> nonempty r \<Longrightarrow> good (advance r)"
begin

lemma advance_n:
  "good r \<Longrightarrow> n \<le> length (ready r) \<Longrightarrow>
   ready ((advance ^^ n) r) = drop n (ready r) \<and> good ((advance ^^ n) r)"
proof (induction n)
  case (Suc n)
  then have IH: "ready ((advance ^^ n) r) = drop n (ready r)" "good ((advance ^^ n) r)" by auto
  then have "nonempty ((advance ^^ n) r)" using Suc.prems by (auto simp: nonempty_iff)
  with IH show ?case by (auto simp: ready_advance good_advance tl_drop drop_Suc)
qed simp

lemma front_n:
  assumes "good r" "n < length (ready r)"
  shows "front ((advance ^^ n) r) = ready r ! n"
proof -
  have a: "ready ((advance ^^ n) r) = drop n (ready r)" "good ((advance ^^ n) r)"
    using advance_n [of r n] assms by auto
  then have "nonempty ((advance ^^ n) r)" using assms by (auto simp: nonempty_iff)
  then show ?thesis using a assms(2) by (simp add: front_hd hd_drop_conv_nth)
qed

end

definition cq_front :: "ring \<Rightarrow> cqe" where
  "cq_front r = cq_cqes r ! unat (cq_head r AND cq_mask r)"

definition cq_advance :: "ring \<Rightarrow> ring" where
  "cq_advance r = store_cq_head (cq_head r + 1) r"

lemma cq_slot_advance: "cq_slot (cq_advance r) i = cq_slot r (Suc i)"
  by (simp add: cq_slot_def cq_advance_def store_cq_head_def algebra_simps)

lemma cq_len_advance: "cq_head r \<noteq> cq_tail r \<Longrightarrow> cq_len (cq_advance r) = cq_len r - 1"
  by (simp add: cq_len_def cq_advance_def store_cq_head_def dist_pop)

lemma cq_ready_advance: "cq_head r \<noteq> cq_tail r \<Longrightarrow> cq_ready (cq_advance r) = tl (cq_ready r)"
proof -
  assume ne: "cq_head r \<noteq> cq_tail r"
  then have pos: "0 < cq_len r" by (auto simp: cq_len_def intro: gr0I)
  have "cq_cqes (cq_advance r) = cq_cqes r" by (simp add: cq_advance_def store_cq_head_def)
  then have "cq_ready (cq_advance r) = map (\<lambda>i. cq_cqes r ! cq_slot r (Suc i)) [0..<cq_len r - 1]"
    by (simp add: cq_ready_def cq_slot_advance cq_len_advance [OF ne])
  also have "\<dots> = map (\<lambda>i. cq_cqes r ! cq_slot r i) [Suc 0..<cq_len r]"
    using pos map_Suc_upt [of 0 "cq_len r - 1"]
    by (metis (no_types, lifting) Suc_diff_1 list.map_comp comp_apply map_eq_conv)
  also have "\<dots> = tl (cq_ready r)"
    using pos by (simp add: cq_ready_def upt_conv_Cons)
  finally show ?thesis .
qed

interpretation cq: completion_queue cq_ready cq_ok "\<lambda>r. cq_head r \<noteq> cq_tail r" cq_front cq_advance
proof unfold_locales
  fix r assume "cq_ok r"
  show "cq_head r \<noteq> cq_tail r \<longleftrightarrow> cq_ready r \<noteq> []"
    using length_cq_ready [of r] by (auto simp: cq_len_def simp del: length_cq_ready)
next
  fix r assume ok: "cq_ok r" and ne: "cq_head r \<noteq> cq_tail r"
  then have pos: "0 < cq_len r" by (auto simp: cq_len_def intro: gr0I)
  then show "cq_front r = hd (cq_ready r)"
    by (simp add: cq_front_def cq_ready_def upt_conv_Cons cq_slot_def slot_def)
  show "cq_ready (cq_advance r) = tl (cq_ready r)" using ne by (rule cq_ready_advance)
  show "cq_ok (cq_advance r)"
    using ok ne cq_len_advance [OF ne] by (auto simp: cq_ok_def cq_advance_def store_cq_head_def)
qed

section \<open>Effect of the kernel on the abstraction\<close>

lemma sq_slot_consume: "sq_slot (consume_sq n r) i = sq_slot r (n + i)"
  by (simp add: sq_slot_def consume_sq_def algebra_simps)

lemma sq_len_consume: "n \<le> sq_len r \<Longrightarrow> sq_len (consume_sq n r) = sq_len r - n"
  by (simp add: sq_len_def consume_sq_def dist_pop_n)

lemma sq_pending_consume:
  assumes "n \<le> sq_len r"
  shows "sq_pending (consume_sq n r) = drop n (sq_pending r)"
proof (rule nth_equalityI)
  show "length (sq_pending (consume_sq n r)) = length (drop n (sq_pending r))"
    using assms by (simp add: sq_len_consume)
next
  fix i assume "i < length (sq_pending (consume_sq n r))"
  then have "i < sq_len r - n" using assms by (simp add: sq_len_consume)
  then show "sq_pending (consume_sq n r) ! i = drop n (sq_pending r) ! i"
    using assms by (simp add: sq_pending_def sq_len_consume sq_slot_consume) (simp add: consume_sq_def)
qed

lemma sq_ok_consume: "sq_ok r \<Longrightarrow> n \<le> sq_len r \<Longrightarrow> sq_ok (consume_sq n r)"
  by (auto simp: sq_ok_def sq_len_consume sq_slot_consume) (auto simp: consume_sq_def)

lemma cq_of_consume [simp]:
  "cq_ready (consume_sq n r) = cq_ready r" "cq_ok (consume_sq n r) = cq_ok r"
  "cq_len (consume_sq n r) = cq_len r" "cq_entries (consume_sq n r) = cq_entries r"
  by (simp_all add: cq_ready_def cq_slot_def cq_len_def cq_ok_def consume_sq_def)

lemma sq_of_post [simp]:
  "sq_pending (post_cqe c r) = sq_pending r" "sq_ok (post_cqe c r) = sq_ok r"
  "sq_len (post_cqe c r) = sq_len r" "sq_entries (post_cqe c r) = sq_entries r"
  "sq_head (post_cqe c r) = sq_head r" "sq_tail (post_cqe c r) = sq_tail r"
  by (simp_all add: sq_pending_def sq_slot_def sq_len_def sq_ok_def post_cqe_def)

lemma cq_tail_slot: "slot (cq_tail r) (cq_mask r) = cq_slot r (cq_len r)"
  by (simp add: cq_slot_def cq_len_def dist_def)

lemma cq_post:
  assumes ok: "cq_ok r" and room: "cq_len r < unat (cq_entries r)"
  shows "cq_ready (post_cqe c r) = cq_ready r @ [c]" "cq_ok (post_cqe c r)"
    "cq_len (post_cqe c r) = Suc (cq_len r)"
proof -
  have rs: "is_ring_size (cq_entries r) (cq_mask r)" and l: "length (cq_cqes r) = unat (cq_entries r)"
    using ok by (auto simp: cq_ok_def)
  show len: "cq_len (post_cqe c r) = Suc (cq_len r)"
    using room ring_size_le [OF rs] by (simp add: cq_len_def post_cqe_def dist_Suc)
  then show "cq_ok (post_cqe c r)"
    using ok room by (simp add: cq_ok_def) (simp add: post_cqe_def)
  have sl: "cq_slot (post_cqe c r) i = cq_slot r i" for i by (simp add: cq_slot_def post_cqe_def)
  have cs: "cq_cqes (post_cqe c r) = (cq_cqes r)[cq_slot r (cq_len r) := c]"
    by (simp add: post_cqe_def cq_tail_slot)
  have lt: "cq_slot r i < unat (cq_entries r)" for i
    unfolding cq_slot_def by (rule slot_less [OF rs])
  have ne: "cq_slot r (cq_len r) \<noteq> cq_slot r i" if "i < cq_len r" for i
    using slot_inj [OF rs, of i "cq_len r" "cq_head r"] room that unfolding cq_slot_def by force
  show "cq_ready (post_cqe c r) = cq_ready r @ [c]"
    using ne lt l by (simp add: cq_ready_def len sl cs)
qed

lemma cq_post_all:
  assumes "cq_ok r" "cq_len r + length cs \<le> unat (cq_entries r)"
  shows "cq_ready (fold post_cqe cs r) = cq_ready r @ cs \<and> cq_ok (fold post_cqe cs r)"
  using assms
proof (induction cs arbitrary: r)
  case (Cons c cs)
  then have room: "cq_len r < unat (cq_entries r)" by simp
  note p = cq_post [OF Cons.prems(1) room, of c]
  have "cq_len (post_cqe c r) + length cs \<le> unat (cq_entries (post_cqe c r))"
    using Cons.prems(2) p(3) by (simp add: post_cqe_def)
  from Cons.IH [OF p(2) this] p(1) show ?case by simp
qed simp

lemma sq_of_post_all [simp]:
  "sq_pending (fold post_cqe cs r) = sq_pending r" "sq_ok (fold post_cqe cs r) = sq_ok r"
  "sq_len (fold post_cqe cs r) = sq_len r" "sq_entries (fold post_cqe cs r) = sq_entries r"
  by (induction cs arbitrary: r) simp_all

lemma sq_of_advance [simp]:
  "sq_pending (store_cq_head h r) = sq_pending r" "sq_ok (store_cq_head h r) = sq_ok r"
  "sq_len (store_cq_head h r) = sq_len r" "sq_entries (store_cq_head h r) = sq_entries r"
  by (simp_all add: sq_pending_def sq_slot_def sq_len_def sq_ok_def store_cq_head_def)

lemma cq_of_stage_with [simp]:
  "cq_ready (stage_with r f) = cq_ready r" "cq_ok (stage_with r f) = cq_ok r"
  "cq_len (stage_with r f) = cq_len r"
  by (simp_all add: cq_ready_def cq_slot_def cq_len_def cq_ok_def)

section \<open>A new ring\<close>

text \<open>The rings as the kernel hands them over: all counters at zero, twice as many completions.\<close>

definition fresh_ring :: "nat \<Rightarrow> ring" where
  "fresh_ring k =
    \<lparr>ring_fd = 3, sq_head = 0, sq_tail = 0, sq_mask = 2 ^ k - 1, sq_entries = 2 ^ k,
     sq_array = replicate (2 ^ k) 0, sq_sqes = replicate (2 ^ k) zero_sqe,
     cq_head = 0, cq_tail = 0, cq_mask = 2 ^ Suc k - 1, cq_entries = 2 ^ Suc k,
     cq_cqes = replicate (2 ^ Suc k) \<lparr>cqe_user_data = NullPtr, cqe_res = 0\<rparr>\<rparr>"

lemma fresh_ring_fields [simp]:
  "sq_entries (fresh_ring k) = 2 ^ k" "sq_len (fresh_ring k) = 0" "cq_len (fresh_ring k) = 0"
  "cq_entries (fresh_ring k) = 2 ^ Suc k"
  by (simp_all add: fresh_ring_def sq_len_def cq_len_def)

lemma ring_ok_fresh:
  assumes "k < 31"
  shows "ring_ok (fresh_ring k)" "sq_pending (fresh_ring k) = []" "cq_ready (fresh_ring k) = []"
proof -
  have u: "unat ((2 :: u32) ^ k) = 2 ^ k" "unat ((2 :: u32) ^ Suc k) = 2 ^ Suc k"
    using assms unat_pow2_u32 [of k] unat_pow2_u32 [of "Suc k"] by auto
  have s: "is_ring_size (2 ^ k) (2 ^ k - 1)" "is_ring_size (2 ^ Suc k) (2 ^ Suc k - 1)"
    using assms is_ring_sizeI [of k] is_ring_sizeI [of "Suc k"] by (simp_all del: power_Suc)
  show "ring_ok (fresh_ring k)"
    using u s by (simp add: ring_ok_def sq_ok_def cq_ok_def fresh_ring_def sq_len_def cq_len_def del: power_Suc)
qed (simp_all add: sq_pending_def cq_ready_def fresh_ring_def sq_len_def cq_len_def)

end
