(* ===== verification/Awaitable.thy ===== *)
theory Awaitable
  imports Ring
begin

text \<open>
  \<^verbatim>\<open>include/slim/common/io/awaitable.h.in\<close> and \<^verbatim>\<open>src/awaitable.cpp\<close>: the awaiter protocol of one
  I/O operation. \<open>await_suspend\<close> reserves one submission slot, or two when a deadline is set, and
  reports a full queue through a thread-local flag instead of an exception. The theorems say that
  the reservation is all or nothing, so that a linked entry is never left without its timeout,
  and that the queue grows by exactly the entries of this operation.
\<close>

section \<open>Deadlines\<close>

record timespec =
  tv_sec :: int
  tv_nsec :: int

text \<open>\<open>duration_cast\<close> truncates towards zero.\<close>

definition trunc_div :: "int \<Rightarrow> int \<Rightarrow> int" where
  "trunc_div a b = sgn a * sgn b * (\<bar>a\<bar> div \<bar>b\<bar>)"

definition timeout_of_ms :: "int \<Rightarrow> timespec" where
  "timeout_of_ms timeout =
     (let secs = trunc_div timeout 1000; nsecs = (timeout - secs * 1000) * 1000000
      in \<lparr>tv_sec = secs, tv_nsec = nsecs\<rparr>)"

section \<open>The object\<close>

record awaitable =
  aw_result :: int
  aw_handle :: "nat option"
  aw_timeout :: "timespec option"
  aw_op :: operation

definition mk_awaitable :: "operation \<Rightarrow> awaitable" where
  "mk_awaitable op = \<lparr>aw_result = 0, aw_handle = None, aw_timeout = None, aw_op = op\<rparr>"

definition with_timeout :: "int \<Rightarrow> awaitable \<Rightarrow> awaitable" where
  "with_timeout ms aw = aw\<lparr>aw_timeout := Some (timeout_of_ms ms)\<rparr>"

definition await_ready :: "awaitable \<Rightarrow> bool" where
  "await_ready aw = False"

definition await_resume :: "awaitable \<Rightarrow> int" where
  "await_resume aw = aw_result aw"

section \<open>The SQFull side channel\<close>

text \<open>The flag is read and cleared in one step; the pending error is always \<open>SQFull\<close>.\<close>

definition take_pending_sq_error :: "bool \<Rightarrow> error_status option \<times> bool" where
  "take_pending_sq_error tl_sq_full = (if \<not> tl_sq_full then (None, tl_sq_full) else (Some SQFull, False))"

section \<open>Suspension\<close>

definition needed_slots :: "awaitable \<Rightarrow> u32" where
  "needed_slots aw = (if aw_timeout aw \<noteq> None then 2 else 1)"

definition prepare_primary :: "nat \<Rightarrow> awaitable \<Rightarrow> sqe \<Rightarrow> sqe" where
  "prepare_primary this aw s = (prepare (aw_op aw) this s)\<lparr>sqe_user_data := AwPtr this\<rparr>"

definition set_link :: "sqe \<Rightarrow> sqe" where
  "set_link s = s\<lparr>sqe_flags := sqe_flags s OR IOSQE_IO_LINK\<rparr>"

definition prepare_timeout :: "nat \<Rightarrow> sqe \<Rightarrow> sqe" where
  "prepare_timeout this s =
     (memset_sqe s)\<lparr>sqe_opcode := IORING_OP_LINK_TIMEOUT, sqe_addr := AwTimeout this, sqe_len := 1\<rparr>"

text \<open>Result: whether to suspend, the object, the ring and the thread-local flag.\<close>

definition await_suspend :: "nat \<Rightarrow> nat \<Rightarrow> awaitable \<times> ring \<times> bool \<Rightarrow> bool \<times> awaitable \<times> ring \<times> bool" where
  "await_suspend this h st =
    (case st of (aw, r, tl_sq_full) \<Rightarrow>
      if \<not> has_capacity r (needed_slots aw) then (False, aw, r, True)
      else
        let (r1, primary) = commit_one r;
            r2 = write_sqe primary (prepare_primary this aw) r1;
            r3 = (if aw_timeout aw \<noteq> None
                  then let r2' = write_sqe primary set_link r2;
                           (r2'', tmo) = commit_one r2'
                       in write_sqe tmo (prepare_timeout this) r2''
                  else r2)
        in (True, aw\<lparr>aw_handle := Some h\<rparr>, r3, tl_sq_full))"

text \<open>\<open>Awaitable::submit\<close>, which the library keeps but never calls: how many entries it would submit.\<close>

definition submit_pending :: "ring \<Rightarrow> u32" where
  "submit_pending r = sq_tail r - sq_head r"

section \<open>The entries of one operation\<close>

text \<open>What the object contributes to the submission queue, as a list.\<close>

definition primary_entry :: "nat \<Rightarrow> awaitable \<Rightarrow> sqe" where
  "primary_entry this aw = prepare_primary this aw zero_sqe"

definition timeout_entry :: "nat \<Rightarrow> sqe" where
  "timeout_entry this = zero_sqe\<lparr>sqe_opcode := IORING_OP_LINK_TIMEOUT, sqe_addr := AwTimeout this, sqe_len := 1\<rparr>"

definition entries_of :: "nat \<Rightarrow> awaitable \<Rightarrow> sqe list" where
  "entries_of this aw =
     (if aw_timeout aw = None then [primary_entry this aw]
      else [set_link (primary_entry this aw), timeout_entry this])"

lemma prepare_primary_entry [simp]: "prepare_primary this aw s = primary_entry this aw"
  unfolding primary_entry_def prepare_primary_def by (metis prepare_stale)

lemma prepare_timeout_entry [simp]: "prepare_timeout this s = timeout_entry this"
  by (simp add: prepare_timeout_def timeout_entry_def)

lemma write_write_sqe:
  "unat i < length (sq_sqes r) \<Longrightarrow> write_sqe i g (write_sqe i f r) = write_sqe i (\<lambda>s. g (f s)) r"
  by (simp add: write_sqe_def)

lemma commit_sqes [simp]: "sq_sqes (fst (commit_one r)) = sq_sqes r"
  by (simp add: commit_one_def Let_def)

lemma commit_idx: "snd (commit_one r) = sq_tail r AND sq_mask r"
  by (simp add: commit_one_def Let_def)

lemma stage_with_alt: "stage_with r f = write_sqe (snd (commit_one r)) f (fst (commit_one r))"
  by (simp add: stage_with_def split: prod.splits)

lemma await_suspend_stages:
  assumes "sq_ok r" "has_capacity r (needed_slots aw)"
  shows "await_suspend this h (aw, r, tls) =
    (True, aw\<lparr>aw_handle := Some h\<rparr>, foldl stage r (entries_of this aw), tls)"
proof -
  have lt: "unat (snd (commit_one r)) < length (sq_sqes (fst (commit_one r)))"
    using sq_slot_less [OF assms(1)] sq_okD(3) [OF assms(1)]
    by (simp add: commit_idx stage_with_slots)
  have "write_sqe (snd (commit_one r)) set_link
      (write_sqe (snd (commit_one r)) (prepare_primary this aw) (fst (commit_one r)))
    = stage r (set_link (primary_entry this aw))"
    using write_write_sqe [OF lt] by (simp add: stage_def stage_with_alt)
  moreover have "write_sqe (snd (commit_one r')) (prepare_primary this aw) (fst (commit_one r'))
      = stage r' (primary_entry this aw)"
    "write_sqe (snd (commit_one r')) (prepare_timeout this) (fst (commit_one r'))
      = stage r' (timeout_entry this)" for r'
    by (simp_all add: stage_def stage_with_alt write_sqe_def)
  ultimately show ?thesis
    using assms(2) by (simp add: await_suspend_def entries_of_def Let_def case_prod_beta)
qed

lemma length_entries_of: "length (entries_of this aw) = unat (needed_slots aw)"
  by (simp add: entries_of_def needed_slots_def Let_def)

lemma needed_slots_nat: "needed_slots aw = word_of_nat (length (entries_of this aw))"
  by (simp add: entries_of_def needed_slots_def Let_def)

section \<open>Linked entries\<close>

definition linked :: "sqe \<Rightarrow> bool" where
  "linked s \<longleftrightarrow> sqe_flags s AND IOSQE_IO_LINK \<noteq> 0"

text \<open>
  Every linked entry is followed at once by its \<open>LINK_TIMEOUT\<close>, and a \<open>LINK_TIMEOUT\<close> occurs
  nowhere else.
\<close>

fun links_ok :: "sqe list \<Rightarrow> bool" where
  "links_ok [] = True"
| "links_ok (s # ss) =
     (if linked s
      then (case ss of [] \<Rightarrow> False
            | t # ss' \<Rightarrow> sqe_opcode t = IORING_OP_LINK_TIMEOUT \<and> \<not> linked t \<and> links_ok ss')
      else sqe_opcode s \<noteq> IORING_OP_LINK_TIMEOUT \<and> links_ok ss)"

lemma links_ok_append: "links_ok xs \<Longrightarrow> links_ok ys \<Longrightarrow> links_ok (xs @ ys)"
  by (induction xs rule: links_ok.induct) (auto split: list.splits if_splits)

lemma linked_set_link: "linked (set_link s)"
  by (simp add: linked_def set_link_def IOSQE_IO_LINK_def word_ao_absorbs)

lemma not_linked_timeout: "\<not> linked (timeout_entry this)"
  by (simp add: linked_def timeout_entry_def zero_sqe_def)

lemma links_ok_entries: "links_ok (entries_of this aw)"
proof -
  have "\<not> linked (primary_entry this aw)" "sqe_opcode (primary_entry this aw) \<noteq> IORING_OP_LINK_TIMEOUT"
    by (simp_all add: linked_def primary_entry_def prepare_primary_def prepare_flags prepare_not_timeout
        del: prepare_primary_entry)
  then show ?thesis
    using linked_set_link not_linked_timeout by (simp add: entries_of_def) (simp add: timeout_entry_def)
qed

section \<open>Reservation\<close>

lemma capacity_iff:
  assumes "sq_ok r"
  shows "has_capacity r (needed_slots aw) \<longleftrightarrow> sq_len r + unat (needed_slots aw) \<le> unat (sq_entries r)"
proof -
  have "length (entries_of 0 aw) \<le> 2 ^ 31 - 1" by (simp add: entries_of_def Let_def)
  from sq.room_iff [OF assms this] show ?thesis
    by (simp add: length_entries_of flip: needed_slots_nat)
qed

lemma await_suspend_fits:
  assumes "sq_ok r" "has_capacity r (needed_slots aw)"
    and "await_suspend this h (aw, r, tls) = (susp, aw', r', tls')"
  shows "susp" "sq_pending r' = sq_pending r @ entries_of this aw" "sq_ok r'"
    "aw' = aw\<lparr>aw_handle := Some h\<rparr>" "tls' = tls"
proof -
  have n: "length (entries_of this aw) \<le> 2 ^ 31 - 1" by (simp add: entries_of_def Let_def)
  have "has_capacity r (word_of_nat (length (entries_of this aw)))"
    using assms(2) by (simp flip: needed_slots_nat)
  from sq.reserve_all_or_nothing(1) [OF assms(1) n this] await_suspend_stages [OF assms(1,2)] assms(3)
  show "susp" "sq_pending r' = sq_pending r @ entries_of this aw" "sq_ok r'"
    "aw' = aw\<lparr>aw_handle := Some h\<rparr>" "tls' = tls"
    by auto
qed

lemma await_suspend_full:
  "\<not> has_capacity r (needed_slots aw) \<Longrightarrow> await_suspend this h (aw, r, tls) = (False, aw, r, True)"
  by (simp add: await_suspend_def)

section \<open>Properties\<close>

text \<open>
  C13: \<open>await_suspend\<close> reserves all the slots an operation needs or none. If the ring has room for
  them, the coroutine suspends and the submission queue grows by exactly this operation's entries,
  in order; if not, the ring is untouched, the coroutine is not suspended and \<open>SQFull\<close> is pending
  for \<open>spawn\<close>. A linked entry therefore always has its timeout behind it.
\<close>

theorem await_suspend_all_or_nothing:
  assumes "sq_ok r" "links_ok (sq_pending r)"
    and "await_suspend this h (aw, r, tls) = (susp, aw', r', tls')"
  shows "(susp \<longleftrightarrow> length (sq_pending r) + unat (needed_slots aw) \<le> unat (sq_entries r))
    \<and> (if susp
       then sq_pending r' = sq_pending r @ entries_of this aw \<and> sq_ok r' \<and> links_ok (sq_pending r')
         \<and> aw' = aw\<lparr>aw_handle := Some h\<rparr> \<and> tls' = tls
       else r' = r \<and> aw' = aw \<and> take_pending_sq_error tls' = (Some SQFull, False))"
proof (cases "has_capacity r (needed_slots aw)")
  case True
  note fits = await_suspend_fits [OF assms(1) True assms(3)]
  then show ?thesis
    using True capacity_iff [OF assms(1)] assms(2)
    by (auto intro: links_ok_append links_ok_entries)
next
  case False
  then show ?thesis
    using assms capacity_iff [OF assms(1)] by (auto simp: await_suspend_full take_pending_sq_error_def)
qed

text \<open>A one-slot ring and an operation with a deadline: the two slots do not fit.\<close>

theorem await_suspend_all_or_nothing_witness:
  "await_suspend 0 7 (with_timeout 500 (mk_awaitable (Recv 4 64 16 0)), fresh_ring 0, False)
     = (False, with_timeout 500 (mk_awaitable (Recv 4 64 16 0)), fresh_ring 0, True)
   \<and> (\<exists>aw' r'. await_suspend 0 7 (with_timeout 500 (mk_awaitable (Recv 4 64 16 0)), fresh_ring 1, False)
        = (True, aw', r', False) \<and> length (sq_pending r') = 2 \<and> links_ok (sq_pending r'))"
proof -
  let ?aw = "with_timeout 500 (mk_awaitable (Recv 4 64 16 0))"
  have n: "needed_slots ?aw = 2" by (simp add: needed_slots_def with_timeout_def)
  have ok: "sq_ok (fresh_ring k)" "links_ok (sq_pending (fresh_ring k))"
    "sq_pending (fresh_ring k) = []" if "k < 31" for k
    using ring_ok_fresh [OF that] by (auto simp: ring_ok_def)
  obtain s0 a0 r0 t0 where e0: "await_suspend 0 7 (?aw, fresh_ring 0, False) = (s0, a0, r0, t0)"
    by (metis prod_cases4)
  obtain s1 a1 r1 t1 where e1: "await_suspend 0 7 (?aw, fresh_ring 1, False) = (s1, a1, r1, t1)"
    by (metis prod_cases4)
  from await_suspend_all_or_nothing [OF ok(1,2) e0] ok(3) [of 0] n
  have "\<not> s0 \<and> r0 = fresh_ring 0 \<and> a0 = ?aw \<and> t0"
    by (auto simp: take_pending_sq_error_def split: if_splits)
  moreover from await_suspend_all_or_nothing [OF ok(1,2) e1] ok(3) [of 1] n
  have "s1 \<and> \<not> t1 \<and> links_ok (sq_pending r1) \<and> sq_pending r1 = entries_of 0 ?aw"
    by (auto split: if_splits)
  moreover from this have "length (sq_pending r1) = 2" using n by (simp only: length_entries_of) simp
  ultimately show ?thesis using e0 e1 by (auto simp del: length_sq_pending)
qed

text \<open>
  A deadline given in milliseconds is represented exactly: seconds and nanoseconds add up to
  it, the nanosecond part is below one second and has the sign of the whole, so a non-negative
  deadline always yields a valid \<open>timespec\<close>.
\<close>

theorem with_timeout_exact:
  "\<exists>ts. aw_timeout (with_timeout ms aw) = Some ts
     \<and> tv_sec ts * 1000000000 + tv_nsec ts = ms * 1000000
     \<and> \<bar>tv_nsec ts\<bar> < 1000000000 \<and> sgn ms * tv_sec ts \<ge> 0 \<and> sgn ms * tv_nsec ts \<ge> 0"
proof -
  have pos: "x - x div 1000 * 1000 = x mod 1000" for x :: int by (simp add: minus_div_mult_eq_mod)
  show ?thesis
    using pos [of ms] pos [of "- ms"] pos_mod_bound [of 1000 ms] pos_mod_bound [of 1000 "- ms"]
      pos_mod_sign [of 1000 ms] pos_mod_sign [of 1000 "- ms"]
    by (cases ms "0 :: int" rule: linorder_cases)
       (auto simp: with_timeout_def timeout_of_ms_def trunc_div_def Let_def sgn_if)
qed

end
