(* ===== verification/Task.thy ===== *)
theory Task
  imports Awaitable "HOL-Library.Multiset"
begin

text \<open>
  \<^verbatim>\<open>include/slim/common/io/task.h.in\<close>: coroutine tasks. A coroutine frame is an object on a heap of
  frames with its promise (value, exception, continuation) and its suspension point; a \<open>Task\<close> is an
  optional handle. The body of a coroutine is the caller's code: a tree that awaits operations and
  other tasks, has effects (assignments, logged in order), returns or throws. One step of the
  machine is one action of the running frame; \<open>run\<close> repeats it until control returns to the
  code that called \<open>resume()\<close>, following the symmetric transfers of \<open>await_suspend\<close> and
  \<open>FinalAwaiter\<close>. Coroutines with finitely many actions on each path are covered.
\<close>

section \<open>Coroutine bodies\<close>

datatype val = VVoid | VInt int | VStr string

text \<open>The \<open>T\<close> of \<open>Task<T>\<close>: \<open>void\<close>, default-constructible with value \<open>T{}\<close>, or neither.\<close>

datatype task_type = TVoid | TDefault val | TNoDefault

type_synonym outcome = "exn + val"
type_synonym event = "string \<times> int"

datatype co =
    CoReturn val
  | CoThrow exn
  | CoAct event co
  | CoAwait operation "int option" "int \<Rightarrow> co"
  | CoAwaitTask task_type co "outcome \<Rightarrow> co"

section \<open>Frames\<close>

datatype fstatus =
    Ready co
  | WaitOp nat "int \<Rightarrow> co"
  | WaitTask nat "outcome \<Rightarrow> co"
  | Final

record frame =
  fr_type :: task_type
  fr_status :: fstatus
  fr_value :: "val option"
  fr_exception :: "exn option"
  fr_continuation :: "nat option"
  fr_destroyed :: bool

record mach =
  ring :: ring
  aws :: "awaitable list"
  frames :: "frame list"
  tl_sq_full :: bool
  log :: "event list"
  ub_flag :: "ub option"
  current :: "nat option"

definition set_ub :: "ub \<Rightarrow> 'z mach_scheme \<Rightarrow> 'z mach_scheme" where
  "set_ub u m = m\<lparr>ub_flag := (case ub_flag m of None \<Rightarrow> Some u | Some v \<Rightarrow> Some v)\<rparr>"

definition upd_frame :: "nat \<Rightarrow> (frame \<Rightarrow> frame) \<Rightarrow> 'z mach_scheme \<Rightarrow> 'z mach_scheme" where
  "upd_frame h f m = m\<lparr>frames := (frames m)[h := f (frames m ! h)]\<rparr>"

definition frame_live :: "'z mach_scheme \<Rightarrow> nat \<Rightarrow> bool" where
  "frame_live m h \<longleftrightarrow> h < length (frames m) \<and> \<not> fr_destroyed (frames m ! h)"

section \<open>Promise\<close>

text \<open>\<open>get_return_object\<close> with \<open>initial_suspend\<close>: a new frame, suspended before its first action.\<close>

definition new_frame :: "task_type \<Rightarrow> co \<Rightarrow> frame" where
  "new_frame ty c = \<lparr>fr_type = ty, fr_status = Ready c, fr_value = None, fr_exception = None,
     fr_continuation = None, fr_destroyed = False\<rparr>"

definition make_task :: "task_type \<Rightarrow> co \<Rightarrow> 'z mach_scheme \<Rightarrow> nat \<times> 'z mach_scheme" where
  "make_task ty c m = (length (frames m), m\<lparr>frames := frames m @ [new_frame ty c]\<rparr>)"

definition return_value :: "val \<Rightarrow> frame \<Rightarrow> frame" where
  "return_value v f = (case fr_type f of TVoid \<Rightarrow> f | _ \<Rightarrow> f\<lparr>fr_value := Some v\<rparr>)"

definition unhandled_exception :: "exn \<Rightarrow> frame \<Rightarrow> frame" where
  "unhandled_exception e f = f\<lparr>fr_exception := Some e\<rparr>"

text \<open>
  \<open>FinalAwaiter::await_suspend\<close>: the frame to transfer to; \<open>None\<close> is \<open>std::noop_coroutine()\<close>,
  which returns to whoever called \<open>resume()\<close>.
\<close>

definition FinalAwaiter_await_suspend :: "frame \<Rightarrow> nat option" where
  "FinalAwaiter_await_suspend f = (case fr_continuation f of Some c \<Rightarrow> Some c | None \<Rightarrow> None)"

definition final_suspend :: "nat \<Rightarrow> 'z mach_scheme \<Rightarrow> 'z mach_scheme" where
  "final_suspend h m =
     (let m' = upd_frame h (\<lambda>f. f\<lparr>fr_status := Final\<rparr>) m
      in m'\<lparr>current := FinalAwaiter_await_suspend (frames m' ! h)\<rparr>)"

section \<open>Task operations\<close>

type_synonym task = "nat option"

definition frame_done :: "'z mach_scheme \<Rightarrow> nat \<Rightarrow> bool" where
  "frame_done m h = (case fr_status (frames m ! h) of Final \<Rightarrow> True | _ \<Rightarrow> False)"

definition Task_done :: "'z mach_scheme \<Rightarrow> task \<Rightarrow> bool" where
  "Task_done m t = (case t of None \<Rightarrow> True | Some h \<Rightarrow> frame_done m h)"

definition Task_move :: "task \<Rightarrow> task \<times> task" where
  "Task_move other = (other, None)"

datatype task_result = Value val | Rethrow exn | Terminate

text \<open>\<open>result()\<close> of both templates: a stored exception first, then the value, then \<open>T{}\<close>.\<close>

definition Task_result :: "frame \<Rightarrow> task_result" where
  "Task_result f =
     (case fr_exception f of
        Some e \<Rightarrow> Rethrow e
      | None \<Rightarrow>
          (case fr_type f of
             TVoid \<Rightarrow> Value VVoid
           | ty \<Rightarrow> (case fr_value f of
                Some v \<Rightarrow> Value v
              | None \<Rightarrow> (case ty of TDefault d \<Rightarrow> Value d | _ \<Rightarrow> Terminate))))"

text \<open>
  \<open>handle_.destroy()\<close>: the frame and the temporaries in it, among them the \<open>Task\<close> it is awaiting,
  whose own frame goes with it. Destroying a frame twice is undefined.
\<close>

function destroy_frames :: "nat \<Rightarrow> frame list \<Rightarrow> frame list \<times> bool" where
  "destroy_frames h fs =
     (if h < length fs \<and> \<not> fr_destroyed (fs ! h)
      then let fs' = fs[h := (fs ! h)\<lparr>fr_destroyed := True\<rparr>]
           in (case fr_status (fs ! h) of
                 WaitTask h' k \<Rightarrow> destroy_frames h' fs'
               | _ \<Rightarrow> (fs', True))
      else (fs, False))"
  by pat_completeness auto
termination
  by (relation "measure (\<lambda>(h, fs). length (filter (\<lambda>f. \<not> fr_destroyed f) fs))")
     (auto intro!: length_filter_update_less)

declare destroy_frames.simps [simp del]

definition destroy :: "nat \<Rightarrow> 'z mach_scheme \<Rightarrow> 'z mach_scheme" where
  "destroy h m =
     (case destroy_frames h (frames m) of (fs, ok) \<Rightarrow>
        let m' = m\<lparr>frames := fs\<rparr> in if ok then m' else set_ub UseAfterFree m')"

definition Task_dtor :: "task \<Rightarrow> 'z mach_scheme \<Rightarrow> 'z mach_scheme" where
  "Task_dtor t m = (case t of None \<Rightarrow> m | Some h \<Rightarrow> destroy h m)"

text \<open>Move assignment between two different task objects: the old frame goes, the source is emptied.\<close>

definition Task_move_assign :: "task \<Rightarrow> task \<Rightarrow> 'z mach_scheme \<Rightarrow> task \<times> task \<times> 'z mach_scheme" where
  "Task_move_assign this other m = (other, None, Task_dtor this m)"

text \<open>\<open>Task::await_suspend\<close>: store the continuation, then transfer to the task's own body.\<close>

definition Task_await_suspend :: "nat \<Rightarrow> nat \<Rightarrow> 'z mach_scheme \<Rightarrow> 'z mach_scheme" where
  "Task_await_suspend h' awaiting m =
     (upd_frame h' (\<lambda>f. f\<lparr>fr_continuation := Some awaiting\<rparr>) m)\<lparr>current := Some h'\<rparr>"

section \<open>Execution\<close>

definition set_status :: "nat \<Rightarrow> fstatus \<Rightarrow> 'z mach_scheme \<Rightarrow> 'z mach_scheme" where
  "set_status h s m = upd_frame h (\<lambda>f. f\<lparr>fr_status := s\<rparr>) m"

definition stop_ub :: "ub \<Rightarrow> 'z mach_scheme \<Rightarrow> 'z mach_scheme" where
  "stop_ub u m = (set_ub u m)\<lparr>current := None\<rparr>"

definition mk_op :: "operation \<Rightarrow> int option \<Rightarrow> awaitable" where
  "mk_op op tmo = (case tmo of None \<Rightarrow> mk_awaitable op | Some ms \<Rightarrow> with_timeout ms (mk_awaitable op))"

definition co_await_op :: "nat \<Rightarrow> operation \<Rightarrow> int option \<Rightarrow> (int \<Rightarrow> co) \<Rightarrow> 'z mach_scheme \<Rightarrow> 'z mach_scheme" where
  "co_await_op h op tmo k m =
     (let a = length (aws m); aw = mk_op op tmo; w = set_status h (WaitOp a k) m in
      if await_ready aw then w\<lparr>aws := aws m @ [aw]\<rparr>
      else case await_suspend a h (aw, ring m, tl_sq_full m) of
        (susp, aw', r', tls) \<Rightarrow>
          w\<lparr>aws := aws m @ [aw'], ring := r', tl_sq_full := tls, current := (if susp then None else Some h)\<rparr>)"

definition co_await_task :: "nat \<Rightarrow> task_type \<Rightarrow> co \<Rightarrow> (outcome \<Rightarrow> co) \<Rightarrow> 'z mach_scheme \<Rightarrow> 'z mach_scheme" where
  "co_await_task h ty c k m =
     (case make_task ty c m of (h', m') \<Rightarrow> Task_await_suspend h' h (set_status h (WaitTask h' k) m'))"

definition resume_from_task :: "nat \<Rightarrow> nat \<Rightarrow> (outcome \<Rightarrow> co) \<Rightarrow> 'z mach_scheme \<Rightarrow> 'z mach_scheme" where
  "resume_from_task h h' k m =
     (case Task_result (frames m ! h') of
        Value v \<Rightarrow> set_status h (Ready (k (Inr v))) (Task_dtor (Some h') m)
      | Rethrow e \<Rightarrow> set_status h (Ready (k (Inl e))) (Task_dtor (Some h') m)
      | Terminate \<Rightarrow> stop_ub StdTerminate m)"

definition co_step :: "nat \<Rightarrow> 'z mach_scheme \<Rightarrow> 'z mach_scheme" where
  "co_step h m =
     (if \<not> frame_live m h then stop_ub UseAfterFree m
      else case fr_status (frames m ! h) of
        Final \<Rightarrow> stop_ub ResumeDone m
      | Ready c \<Rightarrow>
          (case c of
             CoReturn v \<Rightarrow> final_suspend h (upd_frame h (return_value v) m)
           | CoThrow e \<Rightarrow> final_suspend h (upd_frame h (unhandled_exception e) m)
           | CoAct ev c' \<Rightarrow> set_status h (Ready c') (m\<lparr>log := log m @ [ev]\<rparr>)
           | CoAwait op tmo k \<Rightarrow> co_await_op h op tmo k m
           | CoAwaitTask ty c' k \<Rightarrow> co_await_task h ty c' k m)
      | WaitOp a k \<Rightarrow> set_status h (Ready (k (await_resume (aws m ! a)))) m
      | WaitTask h' k \<Rightarrow> resume_from_task h h' k m)"

subsection \<open>A step makes progress\<close>

text \<open>
  The suspension points of a body, ordered by what is left to do after them. Every step of the
  machine replaces the running frame's point by an earlier one (and may add the body of an
  inner task), or hands control back, so \<open>run\<close> terminates.
\<close>

inductive point_less :: "fstatus \<Rightarrow> fstatus \<Rightarrow> bool" where
  final: "s \<noteq> Final \<Longrightarrow> point_less Final s"
| act: "point_less (Ready c) (Ready (CoAct ev c))"
| suspend_op: "point_less (WaitOp a k) (Ready (CoAwait op tmo k))"
| resume_op: "point_less (Ready (k r)) (WaitOp a k)"
| suspend_task: "point_less (WaitTask h k) (Ready (CoAwaitTask ty c k))"
| inner_task: "point_less (Ready c) (Ready (CoAwaitTask ty c k))"
| resume_task: "point_less (Ready (k v)) (WaitTask h k)"

inductive_cases point_less_FinalE: "point_less s Final"
inductive_cases point_less_WaitOpE: "point_less s (WaitOp a k)"
inductive_cases point_less_WaitTaskE: "point_less s (WaitTask h k)"
inductive_cases point_less_ReadyE: "point_less s (Ready c)"

lemma accp_Final: "Wellfounded.accp point_less Final"
  by (rule accp.accI, erule point_less_FinalE)

lemma accp_WaitOp:
  assumes "\<And>r. Wellfounded.accp point_less (Ready (k r))"
  shows "Wellfounded.accp point_less (WaitOp a k)"
  by (rule accp.accI, erule point_less_WaitOpE) (simp_all add: accp_Final assms)

lemma accp_WaitTask:
  assumes "\<And>v. Wellfounded.accp point_less (Ready (k v))"
  shows "Wellfounded.accp point_less (WaitTask h k)"
  by (rule accp.accI, erule point_less_WaitTaskE) (simp_all add: accp_Final assms)

lemma accp_Ready: "Wellfounded.accp point_less (Ready c)"
proof (induction c)
  case (CoAwait op tmo k)
  then have "Wellfounded.accp point_less (WaitOp a k)" for a
    by (intro accp_WaitOp) simp
  then show ?case by - (rule accp.accI, erule point_less_ReadyE, simp_all add: accp_Final)
next
  case (CoAwaitTask ty c k)
  then have "Wellfounded.accp point_less (WaitTask h k)" for h
    by (intro accp_WaitTask) simp
  with CoAwaitTask show ?case
    by - (rule accp.accI, erule point_less_ReadyE, simp_all add: accp_Final)
qed (rule accp.accI, erule point_less_ReadyE, simp_all add: accp_Final)+

lemma wf_point_less: "wf {(s, t). point_less s t}"
proof -
  have "Wellfounded.accp point_less s" for s
    by (cases s) (simp_all add: accp_Final accp_Ready accp_WaitOp accp_WaitTask)
  then have "wfp point_less" by (simp add: wfp_iff_accp)
  then show ?thesis by (simp add: wfp_def)
qed

definition points :: "frame list \<Rightarrow> fstatus multiset" where
  "points fs = mset (map fr_status fs)"

definition progress_rel :: "('z mach_scheme \<times> 'z mach_scheme) set" where
  "progress_rel = inv_image (mult1 {(s, t). point_less s t} <*lex*> less_than)
     (\<lambda>m. (points (frames m), if current m = None then 0 else (1 :: nat)))"

lemma wf_progress_rel: "wf progress_rel"
  unfolding progress_rel_def by (intro wf_inv_image wf_lex_prod wf_mult1 wf_point_less wf_less_than)

lemma points_update:
  assumes "h < length fs" "point_less (fr_status f) (fr_status (fs ! h))"
    and "\<And>s. s \<in># K \<Longrightarrow> point_less s (fr_status (fs ! h))"
  shows "(points (fs[h := f]) + K, points fs) \<in> mult1 {(s, t). point_less s t}"
proof -
  let ?t = "fr_status (fs ! h)"
  have "?t \<in># points fs" using assms(1) by (auto simp: points_def)
  then obtain M where M: "points fs = add_mset ?t M" by (metis mset_add)
  have "points (fs[h := f]) = add_mset (fr_status f) (points fs - {#?t#})"
    using assms(1) by (simp add: points_def map_update mset_update)
  then have "points (fs[h := f]) + K = M + add_mset (fr_status f) K" using M by simp
  then show ?thesis using assms(2,3) by (intro mult1I [OF M]) auto
qed

lemma map_status_destroy: "map fr_status (fst (destroy_frames h fs)) = map fr_status fs"
proof (induction h fs rule: destroy_frames.induct)
  case (1 h fs)
  let ?fs = "fs[h := (fs ! h)\<lparr>fr_destroyed := True\<rparr>]"
  have "map fr_status ?fs = map fr_status fs" by (metis list_update_id map_update frame.select_convs(2) frame.surjective frame.update_convs(6))
  then show ?case
    using 1 by (subst destroy_frames.simps) (auto simp: Let_def split: fstatus.splits)
qed

lemma length_destroy_frames [simp]: "length (fst (destroy_frames h fs)) = length fs"
  using map_status_destroy [of h fs] by (metis length_map)

lemma status_destroy_frames [simp]:
  "i < length fs \<Longrightarrow> fr_status (fst (destroy_frames h fs) ! i) = fr_status (fs ! i)"
  using map_status_destroy [of h fs] by (metis length_destroy_frames nth_map)

lemma frames_destroy: "frames (destroy h m) = fst (destroy_frames h (frames m))"
  by (simp add: destroy_def set_ub_def Let_def split: prod.splits)

lemma current_destroy [simp]: "current (destroy h m) = current m"
  by (simp add: destroy_def set_ub_def Let_def split: prod.splits)

lemma points_destroy: "points (fst (destroy_frames h fs)) = points fs"
  by (simp add: points_def map_status_destroy)

lemmas step_defs = co_step_def co_await_op_def co_await_task_def resume_from_task_def final_suspend_def
  stop_ub_def set_ub_def set_status_def upd_frame_def make_task_def Task_await_suspend_def Task_dtor_def
  return_value_def unhandled_exception_def

lemma progressI:
  assumes "current m \<noteq> None"
    and "(points (frames m'), points (frames m)) \<in> mult1 {(s, t). point_less s t}
      \<or> points (frames m') = points (frames m) \<and> current m' = None"
  shows "(m', m) \<in> progress_rel"
  using assms by (auto simp: progress_rel_def)

lemma points_status:
  assumes "h < length fs" "fr_status f = s" "point_less s (fr_status (fs ! h))"
  shows "(points (fs[h := f]), points fs) \<in> mult1 {(s, t). point_less s t}"
  using points_update [of h fs f "{#}"] assms by simp

lemma co_step_progress:
  assumes "current m = Some h"
  shows "(co_step h m, m) \<in> progress_rel"
proof (rule progressI)
  show "current m \<noteq> None" using assms by simp
  show "(points (frames (co_step h m)), points (frames m)) \<in> mult1 {(s, t). point_less s t}
      \<or> points (frames (co_step h m)) = points (frames m) \<and> current (co_step h m) = None"
  proof (cases "frame_live m h")
    case False
    then show ?thesis by (simp add: co_step_def stop_ub_def set_ub_def)
  next
    case live: True
    then have h: "h < length (frames m)" by (simp add: frame_live_def)
    show ?thesis
    proof (cases "fr_status (frames m ! h)")
      case Final
      with live show ?thesis by (simp add: co_step_def stop_ub_def set_ub_def)
    next
      case (WaitOp a k)
      with live h show ?thesis
        by (simp add: co_step_def set_status_def upd_frame_def points_status point_less.intros)
    next
      case (WaitTask h' k)
      let ?fs = "fst (destroy_frames h' (frames m))"
      have "(points (?fs[h := f]), points (frames m)) \<in> mult1 {(s, t). point_less s t}"
        if "point_less (fr_status f) (WaitTask h' k)" for f
        using points_status [of h ?fs f "fr_status f"] that h WaitTask by (simp add: points_destroy)
      from this [of "(?fs ! h)\<lparr>fr_status := Ready (k x)\<rparr>" for x]
      show ?thesis
        using live WaitTask
        by (simp add: co_step_def resume_from_task_def set_status_def upd_frame_def frames_destroy
            Task_dtor_def stop_ub_def set_ub_def point_less.intros split: task_result.splits)
    next
      case (Ready c)
      then show ?thesis
      proof (cases c)
        case (CoAwaitTask ty c' k)
        let ?f = "(frames m ! h)\<lparr>fr_status := WaitTask (length (frames m)) k\<rparr>"
        have "points (frames (co_step h m)) = points ((frames m)[h := ?f]) + {#Ready c'#}"
          using live h Ready CoAwaitTask
          by (simp add: co_step_def co_await_task_def make_task_def Task_await_suspend_def set_status_def
              upd_frame_def points_def new_frame_def nth_append list_update_append)
        then show ?thesis
          using points_update [of h "frames m" ?f "{#Ready c'#}"] h Ready CoAwaitTask
          by (auto intro: point_less.intros)
      qed (use live h Ready in \<open>auto simp: co_step_def co_await_op_def final_suspend_def set_status_def upd_frame_def
            Let_def intro!: points_status intro: point_less.intros split: prod.splits\<close>)
    qed
  qed
qed

function run :: "'z mach_scheme \<Rightarrow> 'z mach_scheme" where
  "run m = (case current m of None \<Rightarrow> m | Some h \<Rightarrow> run (co_step h m))"
  by pat_completeness auto
termination
  by (relation progress_rel) (auto intro: wf_progress_rel co_step_progress)

declare run.simps [simp del]

text \<open>\<open>handle.resume()\<close>: returns when the coroutine, or whatever it transferred to, suspends.\<close>

definition resume_handle :: "nat \<Rightarrow> 'z mach_scheme \<Rightarrow> 'z mach_scheme" where
  "resume_handle h m = run (m\<lparr>current := Some h\<rparr>)"

definition Task_resume :: "task \<Rightarrow> 'z mach_scheme \<Rightarrow> bool \<times> 'z mach_scheme" where
  "Task_resume t m =
     (case t of None \<Rightarrow> (False, m)
      | Some h \<Rightarrow> if frame_done m h then (False, m)
          else let m' = resume_handle h m in (\<not> frame_done m' h, m'))"

end
