(* ===== verification/Task_Typing.thy ===== *)
theory Task_Typing
  imports Task
begin

text \<open>
  Type soundness of tasks. The \<open>T\<close> of \<open>Task<T>\<close> is a promise: \<open>result()\<close> and \<open>co_await\<close> yield a \<open>T\<close> or
  throw. The model keeps values of all types in one datatype, so that the promise is a theorem: of
  coroutines whose \<open>co_return\<close>s have the declared type, every finished frame holds a value of its type
  or an exception, and the \<open>std::terminate\<close> of \<open>result()\<close> is not reached.
\<close>

section \<open>Typing\<close>

text \<open>\<open>TNoDefault\<close> stands for a type of which only the lack of a default constructor is known.\<close>

fun has_type :: "task_type \<Rightarrow> val \<Rightarrow> bool" where
  "has_type TVoid v = (v = VVoid)"
| "has_type (TDefault (VInt i)) v = (case v of VInt j \<Rightarrow> True | _ \<Rightarrow> False)"
| "has_type (TDefault (VStr s)) v = (case v of VStr t \<Rightarrow> True | _ \<Rightarrow> False)"
| "has_type (TDefault VVoid) v = (v = VVoid)"
| "has_type TNoDefault v = True"

definition out_typed :: "task_type \<Rightarrow> outcome \<Rightarrow> bool" where
  "out_typed ty out = (case out of Inl e \<Rightarrow> True | Inr v \<Rightarrow> has_type ty v)"

primrec well_typed :: "task_type \<Rightarrow> co \<Rightarrow> bool" where
  "well_typed ty (CoReturn v) = has_type ty v"
| "well_typed ty (CoThrow e) = True"
| "well_typed ty (CoAct ev c) = well_typed ty c"
| "well_typed ty (CoAwait op tmo k) = (\<forall>r. well_typed ty (k r))"
| "well_typed ty (CoAwaitTask ty' c k) = (well_typed ty' c \<and> (\<forall>out. out_typed ty' out \<longrightarrow> well_typed ty (k out)))"

fun result_typed :: "task_type \<Rightarrow> task_result \<Rightarrow> bool" where
  "result_typed ty (Value v) = has_type ty v"
| "result_typed ty (Rethrow e) = True"
| "result_typed ty Terminate = False"

text \<open>\<open>ft\<close>: the types of all frames.\<close>

definition status_typed :: "task_type list \<Rightarrow> task_type \<Rightarrow> fstatus \<Rightarrow> bool" where
  "status_typed ft ty st =
     (case st of
        Ready c \<Rightarrow> well_typed ty c
      | WaitOp a k \<Rightarrow> (\<forall>r. well_typed ty (k r))
      | WaitTask h k \<Rightarrow> h < length ft \<and> (\<forall>out. out_typed (ft ! h) out \<longrightarrow> well_typed ty (k out))
      | Final \<Rightarrow> True)"

definition frame_typed :: "task_type list \<Rightarrow> frame \<Rightarrow> bool" where
  "frame_typed ft f \<longleftrightarrow> status_typed ft (fr_type f) (fr_status f)
     \<and> (\<forall>v. fr_value f = Some v \<longrightarrow> has_type (fr_type f) v)
     \<and> (fr_status f = Final \<longrightarrow> result_typed (fr_type f) (Task_result f))"

definition mach_typed :: "'z mach_scheme \<Rightarrow> bool" where
  "mach_typed m \<longleftrightarrow> (\<forall>f \<in> set (frames m). frame_typed (map fr_type (frames m)) f)"

section \<open>Preservation\<close>

lemma Task_result_upd [simp]:
  "Task_result (f\<lparr>fr_status := st\<rparr>) = Task_result f"
  "Task_result (f\<lparr>fr_continuation := c\<rparr>) = Task_result f"
  "Task_result (f\<lparr>fr_destroyed := b\<rparr>) = Task_result f"
  by (auto simp: Task_result_def split: option.split task_type.split)

lemma has_type_default: "has_type (TDefault d) d"
  by (cases d) auto

lemma result_cases:
  assumes "frame_typed ft f"
  shows "Task_result f = Value v \<Longrightarrow> has_type (fr_type f) v"
  using assms by (auto simp: Task_result_def frame_typed_def has_type_default split: option.splits task_type.splits)

lemma status_typed_more: "status_typed ft ty st \<Longrightarrow> status_typed (ft @ ft') ty st"
  by (auto simp: status_typed_def nth_append split: fstatus.splits)

lemma frame_typed_more: "frame_typed ft f \<Longrightarrow> frame_typed (ft @ ft') f"
  by (auto simp: frame_typed_def intro: status_typed_more)

lemma mach_typed_upd:
  assumes "mach_typed m" "h < length (frames m)" "fr_type (g (frames m ! h)) = fr_type (frames m ! h)"
    and "frame_typed (map fr_type (frames m)) (g (frames m ! h))"
  shows "mach_typed (upd_frame h g m)"
proof -
  have "map fr_type ((frames m)[h := g (frames m ! h)]) = map fr_type (frames m)"
    using assms(3) by (metis list_update_id map_update)
  then show ?thesis
    using assms by (auto simp: mach_typed_def upd_frame_def dest!: set_update_subset_insert [THEN subsetD])
qed

lemma mach_typed_cong: "frames m' = frames m \<Longrightarrow> mach_typed m \<Longrightarrow> mach_typed m'"
  by (simp add: mach_typed_def)

lemma mach_typed_make:
  assumes "mach_typed m" "well_typed ty c" "make_task ty c m = (h, m')"
  shows "mach_typed m' \<and> h = length (frames m) \<and> fr_type (frames m' ! h) = ty"
proof -
  have "frame_typed ft (new_frame ty c)" for ft
    using assms(2) by (simp add: frame_typed_def status_typed_def new_frame_def)
  then show ?thesis using assms(1,3) frame_typed_more by (auto simp: mach_typed_def make_task_def new_frame_def)
qed

text \<open>Destroying a frame changes nothing but its mark.\<close>

definition unmark :: "frame \<Rightarrow> frame" where
  "unmark f = f\<lparr>fr_destroyed := False\<rparr>"

lemma unmark_typed [simp]: "frame_typed ft (unmark f) = frame_typed ft f" "fr_type (unmark f) = fr_type f"
  by (simp_all add: frame_typed_def unmark_def)

lemma map_unmark_destroy: "map unmark (fst (destroy_frames h fs)) = map unmark fs"
proof (induction h fs rule: destroy_frames.induct)
  case (1 h fs)
  have "unmark ((fs ! h)\<lparr>fr_destroyed := True\<rparr>) = unmark (fs ! h)" by (simp add: unmark_def)
  then have "map unmark (fs[h := (fs ! h)\<lparr>fr_destroyed := True\<rparr>]) = map unmark fs"
    by (metis list_update_id map_update)
  then show ?case
    using 1 by (subst destroy_frames.simps) (auto simp: Let_def split: fstatus.splits)
qed

lemma mach_typed_unmark: "mach_typed m \<longleftrightarrow> (\<forall>f \<in> set (map unmark (frames m)). frame_typed (map fr_type (map unmark (frames m))) f)"
  by (simp add: mach_typed_def comp_def)

lemma mach_typed_dtor: "mach_typed m \<Longrightarrow> mach_typed (Task_dtor t m)"
  unfolding mach_typed_unmark
  by (cases t) (simp_all add: Task_dtor_def frames_destroy map_unmark_destroy del: list.map_comp map_map)

lemma type_dtor: "map fr_type (frames (Task_dtor t m)) = map fr_type (frames m)"
proof -
  have "map fr_type (map unmark (frames (Task_dtor t m))) = map fr_type (map unmark (frames m))"
    by (cases t) (simp_all only: Task_dtor_def frames_destroy map_unmark_destroy option.case)
  then show ?thesis by (simp add: comp_def)
qed

lemma live_frame: "mach_typed m \<Longrightarrow> frame_live m h \<Longrightarrow> frame_typed (map fr_type (frames m)) (frames m ! h)"
  by (simp add: mach_typed_def frame_live_def)

lemma mach_typed_status:
  assumes "mach_typed m" "h < length (frames m)" "status_typed (map fr_type (frames m)) (fr_type (frames m ! h)) st" "st \<noteq> Final"
  shows "mach_typed (set_status h st m)"
proof -
  have "frame_typed (map fr_type (frames m)) (frames m ! h)" using assms(1,2) by (simp add: mach_typed_def)
  then show ?thesis
    unfolding set_status_def using assms by (intro mach_typed_upd) (simp_all add: frame_typed_def)
qed

lemma mach_typed_final:
  assumes "mach_typed m" "h < length (frames m)" "fr_type (g (frames m ! h)) = fr_type (frames m ! h)"
    and "\<And>v. fr_value (g (frames m ! h)) = Some v \<Longrightarrow> has_type (fr_type (frames m ! h)) v"
    and "result_typed (fr_type (frames m ! h)) (Task_result (g (frames m ! h)))"
  shows "mach_typed (final_suspend h (upd_frame h g m))"
proof -
  let ?g = "\<lambda>f. (g f)\<lparr>fr_status := Final\<rparr>"
  have "mach_typed (upd_frame h ?g m)"
    using assms by (intro mach_typed_upd) (simp_all add: frame_typed_def status_typed_def)
  moreover have "frames (final_suspend h (upd_frame h g m)) = frames (upd_frame h ?g m)"
    using assms(2) by (simp add: final_suspend_def upd_frame_def Let_def)
  ultimately show ?thesis using mach_typed_cong by blast
qed

lemma mach_typed_await_op:
  assumes "mach_typed m" "h < length (frames m)" "\<forall>r. well_typed (fr_type (frames m ! h)) (k r)"
  shows "mach_typed (co_await_op h op tmo k m)"
proof (rule mach_typed_cong)
  show "mach_typed (set_status h (WaitOp (length (aws m)) k) m)"
    using assms by (intro mach_typed_status) (simp_all add: status_typed_def)
qed (simp add: co_await_op_def Let_def split: prod.split)

lemma mach_typed_await_task:
  assumes m: "mach_typed m" "h < length (frames m)" and c: "well_typed ty c"
    and k: "\<forall>out. out_typed ty out \<longrightarrow> well_typed (fr_type (frames m ! h)) (k out)"
  shows "mach_typed (co_await_task h ty c k m)"
proof -
  obtain h' m' where mk: "make_task ty c m = (h', m')" by fastforce
  note n = mach_typed_make [OF m(1) c mk]
  have fs: "frames m' = frames m @ [new_frame ty c]" using mk by (auto simp: make_task_def)
  then have "mach_typed (set_status h (WaitTask h' k) m')"
    using n m(2) k by (intro mach_typed_status) (auto simp: status_typed_def nth_append new_frame_def)
  moreover have l: "h' < length (frames (set_status h (WaitTask h' k) m'))" using n fs by (simp add: set_status_def upd_frame_def)
  ultimately have "mach_typed (upd_frame h' (\<lambda>f. f\<lparr>fr_continuation := Some h\<rparr>) (set_status h (WaitTask h' k) m'))"
    by (intro mach_typed_upd) (simp_all add: mach_typed_def frame_typed_def)
  then show ?thesis by (simp add: co_await_task_def mk Task_await_suspend_def mach_typed_def)
qed

lemma mach_typed_resume_from:
  assumes m: "mach_typed m" "h < length (frames m)" "fr_status (frames m ! h) = WaitTask h' k"
  shows "mach_typed (resume_from_task h h' k m)"
proof -
  have "frame_typed (map fr_type (frames m)) (frames m ! h)" using m(1,2) by (simp add: mach_typed_def)
  then have k: "h' < length (frames m)" "\<forall>out. out_typed (fr_type (frames m ! h')) out \<longrightarrow> well_typed (fr_type (frames m ! h)) (k out)"
    using m(3) by (auto simp: frame_typed_def status_typed_def)
  let ?m = "Task_dtor (Some h') m"
  have l: "length (frames ?m) = length (frames m)" "fr_type (frames ?m ! h) = fr_type (frames m ! h)"
    using type_dtor [of "Some h'" m] m(2) by (metis length_map, metis length_map nth_map)
  have "mach_typed (set_status h (Ready (k out)) ?m)" if "out_typed (fr_type (frames m ! h')) out" for out
    using that k(2) m(1,2) l by (intro mach_typed_status mach_typed_dtor) (simp_all add: status_typed_def)
  moreover have "has_type (fr_type (frames m ! h')) v" if "Task_result (frames m ! h') = Value v" for v
    using that result_cases [of "map fr_type (frames m)" "frames m ! h'" v] m(1) k(1) by (simp add: mach_typed_def)
  ultimately show ?thesis
    using m(1) by (auto simp: resume_from_task_def stop_ub_def set_ub_def out_typed_def mach_typed_def split: task_result.split)
qed

lemma step_typed: "mach_typed m \<Longrightarrow> mach_typed (co_step h m)"
proof -
  assume m: "mach_typed m"
  show ?thesis
  proof (cases "frame_live m h")
    case live: True
    let ?f = "frames m ! h"
    have h: "h < length (frames m)" using live by (simp add: frame_live_def)
    note f = live_frame [OF m live]
    have ft: "status_typed (map fr_type (frames m)) (fr_type ?f) (fr_status ?f)" "\<And>v. fr_value ?f = Some v \<Longrightarrow> has_type (fr_type ?f) v"
      using f by (simp_all add: frame_typed_def)
    show ?thesis
    proof (cases "fr_status ?f")
      case (Ready c)
      then have wt: "well_typed (fr_type ?f) c" using ft(1) by (simp add: status_typed_def)
      show ?thesis
      proof (cases c)
        case (CoReturn v)
        have "mach_typed (final_suspend h (upd_frame h (return_value v) m))"
          by (rule mach_typed_final [OF m h])
             (use wt ft(2) CoReturn in \<open>auto simp: return_value_def Task_result_def split: task_type.splits option.splits\<close>)
        then show ?thesis using live Ready CoReturn by (simp add: co_step_def)
      next
        case (CoThrow e)
        have "mach_typed (final_suspend h (upd_frame h (unhandled_exception e) m))"
          by (rule mach_typed_final [OF m h]) (use ft(2) in \<open>auto simp: unhandled_exception_def Task_result_def\<close>)
        then show ?thesis using live Ready CoThrow by (simp add: co_step_def)
      next
        case (CoAct ev c')
        have "mach_typed (m\<lparr>log := log m @ [ev]\<rparr>)" using m by (simp add: mach_typed_def)
        then have "mach_typed (set_status h (Ready c') (m\<lparr>log := log m @ [ev]\<rparr>))"
          by (rule mach_typed_status) (use h wt CoAct in \<open>simp_all add: status_typed_def\<close>)
        then show ?thesis using live Ready CoAct by (simp add: co_step_def)
      next
        case (CoAwait op tmo k)
        then show ?thesis using live Ready mach_typed_await_op [OF m h] wt by (simp add: co_step_def)
      next
        case (CoAwaitTask ty c' k)
        then show ?thesis using live Ready mach_typed_await_task [OF m h] wt by (simp add: co_step_def)
      qed
    next
      case (WaitOp a k)
      then have "mach_typed (set_status h (Ready (k (await_resume (aws m ! a)))) m)"
        using ft(1) h m by (intro mach_typed_status) (simp_all add: status_typed_def)
      then show ?thesis using live WaitOp by (simp add: co_step_def)
    next
      case (WaitTask h' k)
      then show ?thesis using live mach_typed_resume_from [OF m h WaitTask] by (simp add: co_step_def)
    qed (use live m in \<open>simp add: co_step_def stop_ub_def set_ub_def mach_typed_def\<close>)
  qed (use m in \<open>simp add: co_step_def stop_ub_def set_ub_def mach_typed_def\<close>)
qed

lemma run_typed: "mach_typed m \<Longrightarrow> mach_typed (run m)"
proof (induction m rule: run.induct)
  case (1 m)
  then show ?case using step_typed by (subst run.simps) (auto split: option.split)
qed

section \<open>Programs that use tasks\<close>

text \<open>
  Any use of the interface: tasks are created, resumed and destroyed in any order, and between the
  calls awaitables are given results and the rings move.
\<close>

inductive task_api :: "mach \<Rightarrow> mach \<Rightarrow> bool" for m0 :: mach where
  start: "task_api m0 m0"
| create: "task_api m0 m \<Longrightarrow> well_typed ty c \<Longrightarrow> task_api m0 (snd (make_task ty c m))"
| resume: "task_api m0 m \<Longrightarrow> task_api m0 (snd (Task_resume t m))"
| handle: "task_api m0 m \<Longrightarrow> task_api m0 (resume_handle h m)"
| destroy: "task_api m0 m \<Longrightarrow> task_api m0 (Task_dtor t m)"
| kernel: "task_api m0 m \<Longrightarrow> task_api m0 (m\<lparr>aws := as, ring := r, tl_sq_full := b\<rparr>)"

lemma resume_typed: "mach_typed m \<Longrightarrow> mach_typed (resume_handle h m)"
  unfolding resume_handle_def by (rule run_typed) (simp add: mach_typed_def)

lemma api_typed: "task_api m0 m \<Longrightarrow> mach_typed m0 \<Longrightarrow> mach_typed m"
proof (induction rule: task_api.induct)
  case (create m ty c)
  then show ?case using mach_typed_make [of m ty c] by (metis prod.collapse)
next
  case (resume m t)
  then show ?case using resume_typed by (auto simp: Task_resume_def Let_def split: option.split)
next
  case (kernel m as r b)
  then show ?case by (simp add: mach_typed_def)
qed (auto intro: resume_typed mach_typed_dtor)

section \<open>Properties\<close>

text \<open>
  C19: A \<open>Task<T>\<close> yields a \<open>T\<close>. However tasks are created, resumed, awaited, completed and destroyed, as
  long as each coroutine returns values of its declared type, \<open>result()\<close> of a finished task is a
  value of that type or rethrows; it never reaches \<open>std::terminate\<close>.
\<close>

theorem results_well_typed:
  assumes "frames m0 = []" "task_api m0 m" "h < length (frames m)" "frame_done m h"
  shows "result_typed (fr_type (frames m ! h)) (Task_result (frames m ! h))"
proof -
  have "mach_typed m" using api_typed [OF assms(2)] assms(1) by (simp add: mach_typed_def)
  then have "frame_typed (map fr_type (frames m)) (frames m ! h)" using assms(3) by (simp add: mach_typed_def)
  then show ?thesis using assms(4) by (auto simp: frame_typed_def frame_done_def split: fstatus.splits)
qed

definition typed_start :: mach where
  "typed_start = \<lparr>ring = fresh_ring 3, aws = [], frames = [], tl_sq_full = False, log = [], ub_flag = None, current = None\<rparr>"

definition typed_body :: co where
  "typed_body = CoAwaitTask TNoDefault (CoReturn (VStr ''inner''))
     (\<lambda>out. case out of Inr (VStr s) \<Rightarrow> CoReturn (VStr (s @ ''!'')) | _ \<Rightarrow> CoReturn (VStr ''none''))"

theorem results_well_typed_witness:
  "let m = resume_handle 0 (snd (make_task (TDefault (VStr '''')) typed_body typed_start))
   in frame_done m 0 \<and> Task_result (frames m ! 0) = Value (VStr ''inner!'')
    \<and> result_typed (fr_type (frames m ! 0)) (Task_result (frames m ! 0))"
proof -
  let ?m = "resume_handle 0 (snd (make_task (TDefault (VStr '''')) typed_body typed_start))"
  have "well_typed (TDefault (VStr '''')) typed_body"
    by (auto simp: typed_body_def out_typed_def split: sum.split val.split)
  then have "task_api typed_start ?m" by (intro task_api.handle task_api.create task_api.start)
  moreover have "0 < length (frames ?m)" "frame_done ?m 0" "Task_result (frames ?m ! 0) = Value (VStr ''inner!'')"
    by code_simp+
  moreover have "frames typed_start = []" by (simp add: typed_start_def)
  ultimately show ?thesis using results_well_typed [of typed_start ?m 0] unfolding Let_def by blast
qed

end
