(* ===== verification/Scheduler.thy ===== *)
theory Scheduler
  imports Task
begin

text \<open>
  \<^verbatim>\<open>include/slim/common/io/scheduler.h.in\<close> and \<^verbatim>\<open>src/scheduler.cpp\<close>: the event loop. The operating
  system is a parameter (\<open>'k os\<close>: \<open>eventfd\<close>, \<open>write\<close>, \<open>io_uring_enter\<close> and allocation, over a
  state \<open>'k\<close> of its own), and so are the posted callables (\<open>'j\<close>, run by \<open>invoke\<close>). Everything the
  code itself does is here: \<open>spawn\<close>, \<open>post\<close>, \<open>drain_inbox\<close>, \<open>arm_eventfd_read\<close>, \<open>drain\<close>, \<open>reap\<close>,
  \<open>run\<close>, \<open>shutdown\<close>, constructor and destructor. A call that throws returns \<open>Some\<close> exception.
\<close>

section \<open>Operating system\<close>

record enter_resp =
  er_taken :: nat
  er_cqes :: "cqe list"

text \<open>
  \<open>os_enter\<close> is given the staged entries, the minimum number of completions to wait for and the
  room in the completion ring; it says how many entries it took and which completions it posted
  (a failing system call takes none and posts none).
\<close>

record 'k os =
  os_eventfd :: "'k \<Rightarrow> fdesc \<times> 'k"
  os_write :: "fdesc \<Rightarrow> 'k \<Rightarrow> bool \<times> 'k"
  os_close :: "fdesc \<Rightarrow> 'k \<Rightarrow> 'k"
  os_enter :: "sqe list \<Rightarrow> u32 \<Rightarrow> nat \<Rightarrow> 'k \<Rightarrow> enter_resp \<times> 'k"
  os_can_grow :: "nat \<Rightarrow> 'k \<Rightarrow> bool"

section \<open>State\<close>

record ('j, 'k) sched = mach +
  eventfd :: fdesc
  eventfd_armed :: bool
  shutting_down :: bool
  tasks :: "task list"
  inbox :: "'j list"
  kst :: 'k

definition Scheduler_ctor :: "'k os \<Rightarrow> ring \<Rightarrow> 'k \<Rightarrow> error_status + ('j, 'k) sched" where
  "Scheduler_ctor os r k =
     (case os_eventfd os k of (fd, k') \<Rightarrow>
        if fd < 0 then Inl EventFdCreateFailed
        else Inr \<lparr>ring = r, aws = [], frames = [], tl_sq_full = False, log = [], ub_flag = None, current = None,
                  eventfd = fd, eventfd_armed = False, shutting_down = False, tasks = [], inbox = [], kst = k'\<rparr>)"

section \<open>spawn\<close>

definition Scheduler_spawn :: "'k os \<Rightarrow> nat \<Rightarrow> ('j, 'k) sched \<Rightarrow> exn option \<times> ('j, 'k) sched" where
  "Scheduler_spawn os h s =
     (if sq_tail (ring s) - sq_head (ring s) \<ge> sq_entries (ring s) then (Some (IOExc SQFull), s)
      else
        let s1 = resume_handle h s;
            (err, tls) = take_pending_sq_error (tl_sq_full s1);
            s2 = s1\<lparr>tl_sq_full := tls\<rparr>
        in (case err of
              Some e \<Rightarrow> (Some (IOExc e), s2)
            | None \<Rightarrow>
                if os_can_grow os (length (tasks s2)) (kst s2)
                then (None, s2\<lparr>tasks := tasks s2 @ [Some h]\<rparr>)
                else (Some (IOExc BadAllocation), s2)))"

text \<open>
  \<open>scheduler.spawn(factory())\<close>: the temporary \<open>Task\<close> is moved from when \<open>spawn\<close> succeeds, and
  destroyed at the end of the statement when it throws.
\<close>

definition spawn_call :: "'k os \<Rightarrow> co \<Rightarrow> ('j, 'k) sched \<Rightarrow> exn option \<times> ('j, 'k) sched" where
  "spawn_call os c s =
     (case make_task TVoid c s of (h, s0) \<Rightarrow>
        (case Scheduler_spawn os h s0 of
           (None, s') \<Rightarrow> (None, Task_dtor (snd (Task_move (Some h))) s')
         | (Some e, s') \<Rightarrow> (Some e, Task_dtor (Some h) s')))"

section \<open>post and the inbox\<close>

definition poke_eventfd :: "'k os \<Rightarrow> ('j, 'k) sched \<Rightarrow> bool \<times> ('j, 'k) sched" where
  "poke_eventfd os s = (case os_write os (eventfd s) (kst s) of (ok, k') \<Rightarrow> (ok, s\<lparr>kst := k'\<rparr>))"

definition post :: "'k os \<Rightarrow> 'j \<Rightarrow> ('j, 'k) sched \<Rightarrow> exn option \<times> ('j, 'k) sched" where
  "post os task s =
     (case poke_eventfd os (s\<lparr>inbox := inbox s @ [task]\<rparr>) of (ok, s') \<Rightarrow>
        if \<not> ok then (Some (IOExc EventFdWriteFailed), s') else (None, s'))"

type_synonym ('j, 'k) invoke = "'j \<Rightarrow> ('j, 'k) sched \<Rightarrow> exn option \<times> ('j, 'k) sched"

text \<open>The body of \<open>drain_inbox\<close>'s loop over the swapped-out queue.\<close>

fun drain_local :: "'k os \<Rightarrow> ('j, 'k) invoke \<Rightarrow> 'j list \<Rightarrow> ('j, 'k) sched \<Rightarrow> exn option \<times> ('j, 'k) sched" where
  "drain_local os invoke [] s = (None, s)"
| "drain_local os invoke (task # rest) s =
     (case invoke task s of
        (None, s') \<Rightarrow> drain_local os invoke rest s'
      | (Some (IOExc st), s') \<Rightarrow>
          if st = SQFull
          then drain_local os invoke rest (snd (poke_eventfd os (s'\<lparr>inbox := inbox s' @ [task]\<rparr>)))
          else drain_local os invoke rest s'
      | (Some (UserExc e), s') \<Rightarrow> (Some (UserExc e), s'))"

definition drain_inbox :: "'k os \<Rightarrow> ('j, 'k) invoke \<Rightarrow> ('j, 'k) sched \<Rightarrow> exn option \<times> ('j, 'k) sched" where
  "drain_inbox os invoke s = drain_local os invoke (inbox s) (s\<lparr>inbox := []\<rparr>)"

section \<open>drain\<close>

definition eventfd_read_sqe :: "fdesc \<Rightarrow> sqe \<Rightarrow> sqe" where
  "eventfd_read_sqe fd e = (memset_sqe e)\<lparr>sqe_opcode := IORING_OP_READ, sqe_fd := fd, sqe_addr := EventfdBuf,
     sqe_len := 8, sqe_off := Off 0, sqe_user_data := EventfdBuf\<rparr>"

definition arm_eventfd_read :: "('j, 'k) sched \<Rightarrow> ('j, 'k) sched" where
  "arm_eventfd_read s =
     (let r = ring s; tail = sq_tail r; idx = tail AND sq_mask r;
          r1 = r\<lparr>sq_array := (sq_array r)[unat idx := idx]\<rparr>;
          r2 = write_sqe idx (eventfd_read_sqe (eventfd s)) r1
      in s\<lparr>ring := r2\<lparr>sq_tail := tail + 1\<rparr>, eventfd_armed := True\<rparr>)"

definition io_uring_enter :: "'k os \<Rightarrow> u32 \<Rightarrow> u32 \<Rightarrow> ('j, 'k) sched \<Rightarrow> ('j, 'k) sched" where
  "io_uring_enter os to_submit min_complete s =
     (let r = ring s;
          (resp, k') = os_enter os (take (unat to_submit) (sq_pending r)) min_complete
                         (unat (cq_entries r) - cq_len r) (kst s)
      in s\<lparr>ring := fold post_cqe (er_cqes resp) (consume_sq (er_taken resp) r), kst := k'\<rparr>)"

text \<open>
  An \<open>Awaitable\<close> lives in the frame of the coroutine that awaits it, for as long as that coroutine
  is suspended on it.
\<close>

definition aw_alive :: "'z mach_scheme \<Rightarrow> nat \<Rightarrow> bool" where
  "aw_alive m a \<longleftrightarrow> a < length (aws m) \<and>
     (case aw_handle (aws m ! a) of None \<Rightarrow> False
      | Some h \<Rightarrow> frame_live m h \<and>
          (case fr_status (frames m ! h) of WaitOp a' k \<Rightarrow> a' = a | _ \<Rightarrow> False))"

definition deliver :: "nat \<Rightarrow> int \<Rightarrow> ('j, 'k) sched \<Rightarrow> ('j, 'k) sched" where
  "deliver a res s =
     (if \<not> aw_alive s a then set_ub UseAfterFree s
      else
        let s1 = s\<lparr>aws := (aws s)[a := (aws s ! a)\<lparr>aw_result := res\<rparr>]\<rparr>;
            s2 = (case aw_handle (aws s1 ! a) of None \<Rightarrow> set_ub UseAfterFree s1 | Some h \<Rightarrow> resume_handle h s1)
        in s2\<lparr>tl_sq_full := snd (take_pending_sq_error (tl_sq_full s2))\<rparr>)"

definition process_cqe :: "'k os \<Rightarrow> ('j, 'k) invoke \<Rightarrow> cqe \<Rightarrow> ('j, 'k) sched \<Rightarrow> exn option \<times> ('j, 'k) sched" where
  "process_cqe os invoke c s =
     (if cqe_user_data c = EventfdBuf then drain_inbox os invoke (s\<lparr>eventfd_armed := False\<rparr>)
      else case cqe_user_data c of
        NullPtr \<Rightarrow> (None, s)
      | AwPtr a \<Rightarrow> (None, deliver a (cqe_res c) s)
      | _ \<Rightarrow> (None, set_ub UseAfterFree s))"

function drain_cqes :: "'k os \<Rightarrow> ('j, 'k) invoke \<Rightarrow> u32 \<Rightarrow> u32 \<Rightarrow> u32 \<Rightarrow> ('j, 'k) sched \<Rightarrow> exn option \<times> ('j, 'k) sched" where
  "drain_cqes os invoke msk cur tail s =
     (if cur = tail then (None, s)
      else case process_cqe os invoke (cq_cqes (ring s) ! unat (cur AND msk)) s of
        (Some e, s') \<Rightarrow> (Some e, s')
      | (None, s') \<Rightarrow> drain_cqes os invoke msk (cur + 1) tail (s'\<lparr>ring := store_cq_head (cur + 1) (ring s')\<rparr>))"
  by pat_completeness auto
termination
  by (relation "measure (\<lambda>(os, invoke, msk, cur, tail, s). dist cur tail)")
     (auto intro: dist_pop_less)

declare drain_cqes.simps [simp del]

definition drain :: "'k os \<Rightarrow> ('j, 'k) invoke \<Rightarrow> ('j, 'k) sched \<Rightarrow> exn option \<times> ('j, 'k) sched" where
  "drain os invoke s =
     (let s0 = (if \<not> eventfd_armed s then arm_eventfd_read s else s);
          sq_pend = sq_tail (ring s0) - sq_head (ring s0);
          min_complete = (if shutting_down s0 then 0 else 1);
          s1 = io_uring_enter os sq_pend min_complete s0;
          r = ring s1
      in drain_cqes os invoke (cq_mask r) (cq_head r) (cq_tail r) s1)"

text \<open>The part of \<open>drain\<close> before its loop: arm the read, submit what is staged.\<close>

definition submit_staged :: "'k os \<Rightarrow> ('j, 'k) sched \<Rightarrow> ('j, 'k) sched" where
  "submit_staged os s =
     (let s0 = (if \<not> eventfd_armed s then arm_eventfd_read s else s)
      in io_uring_enter os (sq_tail (ring s0) - sq_head (ring s0)) (if shutting_down s0 then 0 else 1) s0)"

lemma drain_submit:
  "drain os invoke s = (let s1 = submit_staged os s; r = ring s1 in drain_cqes os invoke (cq_mask r) (cq_head r) (cq_tail r) s1)"
  by (simp add: drain_def submit_staged_def Let_def)

section \<open>reap, run, shutdown\<close>

definition reap :: "('j, 'k) sched \<Rightarrow> ('j, 'k) sched" where
  "reap s = fold Task_dtor (filter (Task_done s) (tasks s)) (s\<lparr>tasks := filter (\<lambda>t. \<not> Task_done s t) (tasks s)\<rparr>)"

text \<open>
  \<open>run\<close> asks the stop token before each round; the answers are an argument. \<open>None\<close>: the answers are
  used up and the loop is still going.
\<close>

fun Scheduler_run :: "'k os \<Rightarrow> ('j, 'k) invoke \<Rightarrow> bool list \<Rightarrow> ('j, 'k) sched \<Rightarrow> (exn option \<times> ('j, 'k) sched) option" where
  "Scheduler_run os invoke [] s = None"
| "Scheduler_run os invoke (stop_requested # answers) s =
     (if stop_requested then Some (None, s)
      else case drain os invoke s of
        (Some e, s') \<Rightarrow> Some (Some e, s')
      | (None, s') \<Rightarrow> Scheduler_run os invoke answers (reap s'))"

text \<open>\<open>shutdown\<close> loops until no task is left; a loop that never ends is \<open>None\<close>.\<close>

partial_function (option) shutdown_loop ::
  "'k os \<Rightarrow> ('j, 'k) invoke \<Rightarrow> ('j, 'k) sched \<Rightarrow> (exn option \<times> ('j, 'k) sched) option" where
  "shutdown_loop os invoke s =
     (if tasks s = [] then Some (None, s)
      else case drain os invoke s of (e, s') \<Rightarrow>
        if e \<noteq> None then Some (e, s') else shutdown_loop os invoke (reap s'))"

definition shutdown :: "'k os \<Rightarrow> ('j, 'k) invoke \<Rightarrow> ('j, 'k) sched \<Rightarrow> (exn option \<times> ('j, 'k) sched) option" where
  "shutdown os invoke s = shutdown_loop os invoke (s\<lparr>shutting_down := True\<rparr>)"

definition Scheduler_dtor :: "'k os \<Rightarrow> ('j, 'k) invoke \<Rightarrow> ('j, 'k) sched \<Rightarrow> (exn option \<times> ('j, 'k) sched) option" where
  "Scheduler_dtor os invoke s =
     (case (if tasks s \<noteq> [] then shutdown os invoke s else Some (None, s)) of
        None \<Rightarrow> None
      | Some (Some e, s') \<Rightarrow> Some (Some e, s')
      | Some (None, s') \<Rightarrow>
          Some (None, if eventfd s' \<ge> 0 then s'\<lparr>kst := os_close os (eventfd s') (kst s')\<rparr> else s'))"

end
