(* ===== verification/Nested_Await.thy ===== *)
theory Nested_Await
  imports Task
begin

text \<open>
  What awaiting a task means. The implementation composes coroutines with frames on a heap:
  \<open>Task::await_suspend\<close> stores the awaiting handle as the continuation, \<open>FinalAwaiter\<close> transfers
  back to it, \<open>await_resume\<close> fetches the result. The specification \<open>exec\<close> knows no frames: an
  awaited body runs in place, and its outcome (value or exception) is handed to the rest of the
  outer body; when the innermost operation suspends, what is left is again a body. The refinement
  proved here says that \<open>run\<close>, started at the innermost frame of a chain of frames, does what
  \<open>exec\<close> does to the body the chain stands for. No run of it leaves the defined behaviour.
\<close>

section \<open>Specification: evaluation in place\<close>

datatype eres = Done outcome | Susp nat "int \<Rightarrow> co"

text \<open>Submission ring, number of awaitables made so far, thread-local flag, effects.\<close>

type_synonym estate = "ring \<times> nat \<times> bool \<times> event list"

definition reserve :: "nat \<Rightarrow> operation \<Rightarrow> int option \<Rightarrow> ring \<Rightarrow> bool \<Rightarrow> bool \<times> ring \<times> bool" where
  "reserve a op tmo r tls = (case await_suspend a 0 (mk_op op tmo, r, tls) of (susp, aw, r', tls') \<Rightarrow> (susp, r', tls'))"

text \<open>The value a \<open>Task<T>\<close> yields: a \<open>Task<void>\<close> has none.\<close>

fun coerce :: "task_type \<Rightarrow> outcome \<Rightarrow> outcome" where
  "coerce TVoid (Inr v) = Inr VVoid"
| "coerce ty out = out"

primrec exec :: "co \<Rightarrow> estate \<Rightarrow> eres \<times> estate" where
  "exec (CoReturn v) = (\<lambda>st. (Done (Inr v), st))"
| "exec (CoThrow e) = (\<lambda>st. (Done (Inl e), st))"
| "exec (CoAct ev c) = (\<lambda>(r, n, tls, lg). exec c (r, n, tls, lg @ [ev]))"
| "exec (CoAwait op tmo k) = (\<lambda>(r, n, tls, lg).
     case reserve n op tmo r tls of (susp, r', tls') \<Rightarrow>
       if susp then (Susp n k, (r', Suc n, tls', lg)) else exec (k 0) (r', Suc n, tls', lg))"
| "exec (CoAwaitTask ty c k) = (\<lambda>st.
     case exec c st of
       (Done out, st') \<Rightarrow> exec (k (coerce ty out)) st'
     | (Susp a f, st') \<Rightarrow> (Susp a (\<lambda>r. CoAwaitTask ty (f r) k), st'))"

section \<open>Abstraction of a chain of frames\<close>

definition mst :: "'z mach_scheme \<Rightarrow> estate" where
  "mst m = (ring m, length (aws m), tl_sq_full m, log m)"

definition clean :: "frame \<Rightarrow> bool" where
  "clean f \<longleftrightarrow> fr_value f = None \<and> fr_exception f = None \<and> \<not> fr_destroyed f"

text \<open>Root first; the last frame is suspended on operation \<open>a\<close>, each other one on the next frame.\<close>

fun chain :: "frame list \<Rightarrow> nat list \<Rightarrow> nat \<Rightarrow> bool" where
  "chain fs [] a \<longleftrightarrow> False"
| "chain fs [h] a \<longleftrightarrow> h < length fs \<and> clean (fs ! h) \<and> (\<exists>k. fr_status (fs ! h) = WaitOp a k)"
| "chain fs (h # h' # hs) a \<longleftrightarrow> h < length fs \<and> clean (fs ! h) \<and> (\<exists>k. fr_status (fs ! h) = WaitTask h' k)
     \<and> fr_continuation (fs ! h') = Some h \<and> h \<notin> set (h' # hs) \<and> chain fs (h' # hs) a"

text \<open>The body that is left when the operation yields a result.\<close>

fun rest_of :: "frame list \<Rightarrow> nat list \<Rightarrow> int \<Rightarrow> co" where
  "rest_of fs [] = (\<lambda>r. CoReturn VVoid)"
| "rest_of fs [h] = (case fr_status (fs ! h) of WaitOp a k \<Rightarrow> k | _ \<Rightarrow> (\<lambda>r. CoReturn VVoid))"
| "rest_of fs (h # h' # hs) =
     (case fr_status (fs ! h) of
        WaitTask h'' k \<Rightarrow> (\<lambda>r. CoAwaitTask (fr_type (fs ! h')) (rest_of fs (h' # hs) r) k)
      | _ \<Rightarrow> (\<lambda>r. CoReturn VVoid))"

definition result_of :: "task_type \<Rightarrow> outcome \<Rightarrow> task_result" where
  "result_of ty out = (case coerce ty out of Inl e \<Rightarrow> Rethrow e | Inr v \<Rightarrow> Value v)"

text \<open>Nothing but the frames in \<open>H\<close>, and what a run may add to, differs; \<open>h\<close> keeps its caller.\<close>

definition keeps :: "nat set \<Rightarrow> nat \<Rightarrow> 'z mach_scheme \<Rightarrow> 'z mach_scheme \<Rightarrow> bool" where
  "keeps H h m m' \<longleftrightarrow>
     ub_flag m' = ub_flag m \<and> mach.more m' = mach.more m
   \<and> take (length (aws m)) (aws m') = aws m
   \<and> length (frames m) \<le> length (frames m')
   \<and> (\<forall>i < length (frames m). i \<notin> H \<longrightarrow> frames m' ! i = frames m ! i)
   \<and> fr_continuation (frames m' ! h) = fr_continuation (frames m ! h)
   \<and> fr_type (frames m' ! h) = fr_type (frames m ! h)"

text \<open>
  Where a run that started with \<open>H\<close> as its own frames, rooted at \<open>h\<close>, hands control back: the root
  is final with its result and control is with its continuation, or the root heads a chain again,
  the operation at its end is the one just staged, and nobody is running. Frames that are not its
  own are untouched.
\<close>

definition lands :: "nat set \<Rightarrow> nat \<Rightarrow> 'z mach_scheme \<Rightarrow> eres \<times> estate \<Rightarrow> 'z mach_scheme \<Rightarrow> bool" where
  "lands H h m res m' \<longleftrightarrow> keeps H h m m' \<and> mst m' = snd res
   \<and> (case fst res of
        Done out \<Rightarrow> current m' = fr_continuation (frames m ! h)
          \<and> fr_status (frames m' ! h) = Final \<and> \<not> fr_destroyed (frames m' ! h)
          \<and> Task_result (frames m' ! h) = result_of (fr_type (frames m ! h)) out
      | Susp a f \<Rightarrow> current m' = None \<and> a < length (aws m')
          \<and> (\<exists>hs. chain (frames m') (h # hs) a \<and> rest_of (frames m') (h # hs) = f
               \<and> aw_handle (aws m' ! a) = Some (last (h # hs))
               \<and> set hs \<subseteq> H \<union> {length (frames m)..}))"

section \<open>Single steps\<close>

lemma frames_upd_frame:
  "h < length (frames m) \<Longrightarrow> frames (upd_frame h f m) ! i = (if i = h then f (frames m ! h) else frames m ! i)"
  by (simp add: upd_frame_def)

lemma upd_frame_fields [simp]:
  "length (frames (upd_frame h f m)) = length (frames m)" "aws (upd_frame h f m) = aws m"
  "ring (upd_frame h f m) = ring m" "tl_sq_full (upd_frame h f m) = tl_sq_full m" "log (upd_frame h f m) = log m"
  "ub_flag (upd_frame h f m) = ub_flag m" "current (upd_frame h f m) = current m"
  "mach.more (upd_frame h f m) = mach.more m"
  by (simp_all add: upd_frame_def)

lemma run_step:
  "current m = Some h \<Longrightarrow> run m = run (co_step h m)"
  by (subst run.simps) simp

lemma run_idle [simp]: "current m = None \<Longrightarrow> run m = m"
  by (subst run.simps) simp

lemma reserve_handle:
  assumes "await_suspend a h (mk_op op tmo, r, tls) = (susp, aw, r', tls')"
  shows "reserve a op tmo r tls = (susp, r', tls')"
    "aw_result aw = 0" "susp \<Longrightarrow> aw_handle aw = Some h"
  using assms
  by (auto simp: reserve_def await_suspend_def mk_op_def mk_awaitable_def with_timeout_def Let_def
      split: prod.splits option.splits if_splits)

lemma destroy_final:
  assumes "h < length fs" "\<not> fr_destroyed (fs ! h)" "fr_status (fs ! h) = Final"
  shows "destroy_frames h fs = (fs[h := (fs ! h)\<lparr>fr_destroyed := True\<rparr>], True)"
  using assms by (subst destroy_frames.simps) simp

lemma Task_result_return:
  "clean f \<Longrightarrow> Task_result (return_value v f) = result_of (fr_type f) (Inr v)"
  by (cases "fr_type f") (auto simp: Task_result_def return_value_def result_of_def clean_def)

lemma return_value_fields [simp]:
  "fr_continuation (return_value v f) = fr_continuation f" "fr_type (return_value v f) = fr_type f"
  "fr_destroyed (return_value v f) = fr_destroyed f"
  by (simp_all add: return_value_def split: task_type.split)

lemma unhandled_exception_fields [simp]:
  "fr_continuation (unhandled_exception e f) = fr_continuation f" "fr_type (unhandled_exception e f) = fr_type f"
  "fr_destroyed (unhandled_exception e f) = fr_destroyed f"
  by (simp_all add: unhandled_exception_def)

lemma Task_result_throw:
  "Task_result (unhandled_exception e f) = result_of (fr_type f) (Inl e)"
  by (cases "fr_type f") (auto simp: Task_result_def unhandled_exception_def result_of_def)

section \<open>Running one frame\<close>

lemma take_prefix_trans:
  assumes "take (length xs) ys = xs" "take (length ys) zs = ys"
  shows "take (length xs) zs = xs"
proof -
  have "length xs \<le> length ys" using assms(1) by (metis nle_le take_all)
  then have "take (length xs) zs = take (length xs) (take (length ys) zs)" by (simp add: min_absorb1)
  then show ?thesis using assms by simp
qed

lemma keeps_trans:
  assumes a: "keeps H h m m1" and b: "keeps H1 h m1 m'" and c: "H1 \<subseteq> H \<union> {length (frames m)..}"
  shows "keeps H h m m'"
proof -
  have "frames m' ! i = frames m ! i" if "i < length (frames m)" "i \<notin> H" for i
  proof -
    have "i \<notin> H1" "i < length (frames m1)" using c that a by (auto simp: keeps_def)
    then show ?thesis using a b that by (simp add: keeps_def)
  qed
  moreover have "take (length (aws m)) (aws m') = aws m"
    using a b unfolding keeps_def by (blast intro: take_prefix_trans)
  ultimately show ?thesis using a b by (simp add: keeps_def)
qed

lemma lands_trans:
  assumes a: "keeps H h m m1" and b: "lands H1 h m1 res m'" and c: "H1 \<subseteq> H \<union> {length (frames m)..}"
  shows "lands H h m res m'"
proof -
  have k: "keeps H h m m'" using b by (intro keeps_trans [OF a _ c]) (simp add: lands_def)
  have l: "length (frames m) \<le> length (frames m1)" and
    f: "fr_continuation (frames m1 ! h) = fr_continuation (frames m ! h)"
       "fr_type (frames m1 ! h) = fr_type (frames m ! h)"
    using a by (auto simp: keeps_def)
  have s: "set hs \<subseteq> H \<union> {length (frames m)..}" if "set hs \<subseteq> H1 \<union> {length (frames m1)..}" for hs
  proof -
    have "{length (frames m1)..} \<subseteq> H \<union> {length (frames m)..}" using l by auto
    from subset_trans [OF that Un_least [OF c this]] show ?thesis .
  qed
  show ?thesis
  proof (cases "fst res")
    case (Done out)
    then show ?thesis using b k f by (simp add: lands_def)
  next
    case (Susp a f)
    then obtain hs where "chain (frames m') (h # hs) a \<and> rest_of (frames m') (h # hs) = f
        \<and> aw_handle (aws m' ! a) = Some (last (h # hs))" "set hs \<subseteq> H1 \<union> {length (frames m1)..}"
      using b unfolding lands_def by auto
    with s [of hs] Susp b k show ?thesis
      unfolding lands_def by (simp only: eres.case) (intro conjI exI [of _ hs], auto)
  qed
qed

lemma Task_result_status [simp]: "Task_result (f\<lparr>fr_status := st\<rparr>) = Task_result f"
  by (simp add: Task_result_def split: option.split task_type.split)

lemma keeps_upd_frame:
  assumes "h < length (frames m)" "\<And>f. fr_continuation (g f) = fr_continuation f" "\<And>f. fr_type (g f) = fr_type f"
  shows "keeps {h} h m (upd_frame h g m)"
  using assms by (simp add: keeps_def frames_upd_frame)

lemma lands_final:
  assumes h: "h < length (frames m)" and c: "clean (frames m ! h)"
    and g: "\<And>f. fr_continuation (g f) = fr_continuation f" "\<And>f. fr_type (g f) = fr_type f"
      "\<And>f. fr_destroyed (g f) = fr_destroyed f"
    and r: "Task_result (g (frames m ! h)) = result_of (fr_type (frames m ! h)) out"
  shows "lands {h} h m (Done out, mst m) (final_suspend h (upd_frame h g m))"
proof -
  let ?f = "(g (frames m ! h))\<lparr>fr_status := Final\<rparr>"
  have "frames (final_suspend h (upd_frame h g m)) = (frames m)[h := ?f]"
    using h by (simp add: final_suspend_def upd_frame_def Let_def)
  moreover have "current (final_suspend h (upd_frame h g m)) = fr_continuation (frames m ! h)"
    using h g by (simp add: final_suspend_def upd_frame_def Let_def FinalAwaiter_await_suspend_def split: option.splits)
  moreover have "mst (final_suspend h (upd_frame h g m)) = mst m" "aws (final_suspend h (upd_frame h g m)) = aws m"
    "ub_flag (final_suspend h (upd_frame h g m)) = ub_flag m" "mach.more (final_suspend h (upd_frame h g m)) = mach.more m"
    by (simp_all add: final_suspend_def upd_frame_def Let_def mst_def)
  ultimately show ?thesis
    using h c g r by (simp add: lands_def keeps_def clean_def)
qed

lemma frame_live_clean: "h < length (frames m) \<Longrightarrow> clean (frames m ! h) \<Longrightarrow> frame_live m h"
  by (simp add: frame_live_def clean_def)

lemma set_status_frames:
  "h < length (frames m) \<Longrightarrow>
   frames (set_status h st m) ! i = (if i = h then (frames m ! h)\<lparr>fr_status := st\<rparr> else frames m ! i)"
  by (simp add: set_status_def frames_upd_frame)

lemma set_status_fields [simp]:
  "length (frames (set_status h st m)) = length (frames m)" "aws (set_status h st m) = aws m"
  "ring (set_status h st m) = ring m" "tl_sq_full (set_status h st m) = tl_sq_full m" "log (set_status h st m) = log m"
  "ub_flag (set_status h st m) = ub_flag m" "current (set_status h st m) = current m"
  "mach.more (set_status h st m) = mach.more m"
  by (simp_all add: set_status_def)

lemma resume_from_task_result:
  assumes "h' < length (frames m)" "fr_status (frames m ! h') = Final" "\<not> fr_destroyed (frames m ! h')"
    and "Task_result (frames m ! h') = result_of ty out"
  shows "resume_from_task h h' k m = set_status h (Ready (k (coerce ty out)))
     (m\<lparr>frames := (frames m)[h' := (frames m ! h')\<lparr>fr_destroyed := True\<rparr>]\<rparr>)"
  using assms
  by (auto simp: resume_from_task_def result_of_def Task_dtor_def destroy_def destroy_final Let_def split: sum.splits)

text \<open>The statement proved by induction on the body.\<close>

definition frame_ok :: "co \<Rightarrow> 'z mach_scheme \<Rightarrow> nat \<Rightarrow> bool" where
  "frame_ok c m h \<longleftrightarrow> current m = Some h \<and> h < length (frames m) \<and> clean (frames m ! h)
     \<and> fr_status (frames m ! h) = Ready c"

lemma exec_frame_op:
  fixes m :: "'z mach_scheme"
  assumes IH: "\<And>r (m :: 'z mach_scheme) h. frame_ok (k r) m h \<Longrightarrow> \<exists>m'. run m = run m' \<and> lands {h} h m (exec (k r) (mst m)) m'"
    and ok: "frame_ok (CoAwait op tmo k) m h"
  shows "\<exists>m'. run m = run m' \<and> lands {h} h m (exec (CoAwait op tmo k) (mst m)) m'"
proof -
  let ?a = "length (aws m)"
  have h: "h < length (frames m)" "clean (frames m ! h)" "current m = Some h" using ok by (auto simp: frame_ok_def)
  obtain susp aw r' tls' where aw: "await_suspend ?a h (mk_op op tmo, ring m, tl_sq_full m) = (susp, aw, r', tls')"
    by (metis prod_cases4)
  note res = reserve_handle [OF aw]
  let ?m1 = "(set_status h (WaitOp ?a k) m)\<lparr>aws := aws m @ [aw], ring := r', tl_sq_full := tls',
     current := (if susp then None else Some h)\<rparr>"
  have "co_step h m = ?m1"
    using ok aw frame_live_clean [OF h(1,2)]
    by (simp add: frame_ok_def co_step_def co_await_op_def await_ready_def Let_def)
  then have r1: "run m = run ?m1" using run_step [OF h(3)] by simp
  have k1: "keeps {h} h m ?m1" using h by (simp add: keeps_def set_status_frames)
  have st1: "mst ?m1 = (r', Suc ?a, tls', log m)" by (simp add: mst_def)
  show ?thesis
  proof (cases susp)
    case True
    have "lands {h} h m (Susp ?a k, (r', Suc ?a, tls', log m)) ?m1"
      using k1 st1 h True res(3)
      by (auto simp: lands_def set_status_frames clean_def nth_append intro!: exI [of _ "[]"])
    then show ?thesis using r1 True res(1) by (intro exI [of _ ?m1]) (simp add: mst_def)
  next
    case False
    let ?m2 = "set_status h (Ready (k 0)) ?m1"
    have "co_step h ?m1 = ?m2"
      using h False res(2) by (simp add: co_step_def frame_live_def set_status_frames clean_def nth_append await_resume_def)
    then have r2: "run m = run ?m2" using r1 run_step [of ?m1 h] False by simp
    have ok2: "frame_ok (k 0) ?m2 h" using h False by (simp add: frame_ok_def set_status_frames clean_def)
    from IH [OF this] obtain m' where m': "run ?m2 = run m'" "lands {h} h ?m2 (exec (k 0) (mst ?m2)) m'" by blast
    have k2: "keeps {h} h m ?m2" using h by (simp add: keeps_def set_status_frames)
    have "mst ?m2 = (r', Suc ?a, tls', log m)" by (simp add: mst_def)
    moreover have "lands {h} h m (exec (k 0) (mst ?m2)) m'" using lands_trans [OF k2 m'(2)] by simp
    ultimately show ?thesis using r2 m'(1) False res(1) by (auto simp: mst_def)
  qed
qed

lemma exec_frame_task:
  fixes m :: "'z mach_scheme"
  assumes IHc: "\<And>(m :: 'z mach_scheme) h. frame_ok c m h \<Longrightarrow> \<exists>m'. run m = run m' \<and> lands {h} h m (exec c (mst m)) m'"
    and IHk: "\<And>v (m :: 'z mach_scheme) h. frame_ok (k v) m h \<Longrightarrow> \<exists>m'. run m = run m' \<and> lands {h} h m (exec (k v) (mst m)) m'"
    and ok: "frame_ok (CoAwaitTask ty c k) m h"
  shows "\<exists>m'. run m = run m' \<and> lands {h} h m (exec (CoAwaitTask ty c k) (mst m)) m'"
proof -
  have h: "h < length (frames m)" "clean (frames m ! h)" "current m = Some h" using ok by (auto simp: frame_ok_def)
  let ?h1 = "length (frames m)"
  define m1 where "m1 = co_step h m"
  have fs1: "frames m1 = (frames m)[h := (frames m ! h)\<lparr>fr_status := WaitTask ?h1 k\<rparr>]
      @ [(new_frame ty c)\<lparr>fr_continuation := Some h\<rparr>]"
    and m1: "current m1 = Some ?h1" "mst m1 = mst m" "aws m1 = aws m" "ub_flag m1 = ub_flag m" "mach.more m1 = mach.more m"
    using ok frame_live_clean [OF h(1,2)] h(1)
    by (simp_all add: m1_def frame_ok_def co_step_def co_await_task_def make_task_def Task_await_suspend_def
        set_status_def upd_frame_def mst_def nth_append list_update_append)
  have r1: "run m = run m1" using run_step [OF h(3)] by (simp add: m1_def)
  have fh1: "frames m1 ! ?h1 = (new_frame ty c)\<lparr>fr_continuation := Some h\<rparr>" by (simp add: fs1 nth_append)
  have fh: "frames m1 ! h = (frames m ! h)\<lparr>fr_status := WaitTask ?h1 k\<rparr>" using h(1) by (simp add: fs1 nth_append)
  have k1: "keeps {h} h m m1" using h(1) m1 fh by (auto simp: keeps_def fs1 nth_append)
  have "frame_ok c m1 ?h1" using m1(1) fh1 by (simp add: frame_ok_def fs1 new_frame_def clean_def)
  from IHc [OF this] obtain m2 where r2: "run m1 = run m2" and
    l2: "lands {?h1} ?h1 m1 (exec c (mst m)) m2" using m1(2) by auto
  have keep2: "keeps {?h1} ?h1 m1 m2" using l2 by (simp add: lands_def)
  have len2: "Suc ?h1 \<le> length (frames m2)" using keep2 by (simp add: keeps_def fs1)
  have fh2: "frames m2 ! h = frames m1 ! h" using keep2 h(1) by (simp add: keeps_def fs1)
  have old2: "frames m2 ! i = frames m ! i" if "i < ?h1" "i \<noteq> h" for i
    using keep2 that by (simp add: keeps_def fs1 nth_append)
  have ty2: "fr_type (frames m2 ! ?h1) = ty" "fr_continuation (frames m2 ! ?h1) = Some h"
    using keep2 fh1 by (simp_all add: keeps_def new_frame_def)
  have k2: "keeps {h} h m m2"
    using keep2 k1 old2 fh2 fh len2 m1 by (auto simp: keeps_def)
  obtain er st' where ex: "exec c (mst m) = (er, st')" by (cases "exec c (mst m)")
  show ?thesis
  proof (cases er)
    case (Done out)
    have d: "current m2 = Some h" "fr_status (frames m2 ! ?h1) = Final" "\<not> fr_destroyed (frames m2 ! ?h1)"
      "Task_result (frames m2 ! ?h1) = result_of ty out" "mst m2 = st'"
      using l2 ex Done fh1 by (simp_all add: lands_def new_frame_def)
    let ?o = "coerce ty out"
    define m3 where "m3 = co_step h m2"
    have "m3 = set_status h (Ready (k ?o)) (m2\<lparr>frames := (frames m2)[?h1 := (frames m2 ! ?h1)\<lparr>fr_destroyed := True\<rparr>]\<rparr>)"
      using resume_from_task_result [OF _ d(2,3,4)] len2 h fh2 fh
      by (simp add: m3_def co_step_def frame_live_def clean_def)
    then have m3: "current m3 = Some h" "mst m3 = st'" "aws m3 = aws m2" "ub_flag m3 = ub_flag m2" "mach.more m3 = mach.more m2"
      and fs3: "length (frames m3) = length (frames m2)"
        "frames m3 ! h = (frames m ! h)\<lparr>fr_status := Ready (k ?o)\<rparr>"
        "\<And>i. i \<noteq> h \<Longrightarrow> i \<noteq> ?h1 \<Longrightarrow> frames m3 ! i = frames m2 ! i"
      using d(1,5) h(1) len2 fh2 fh by (simp_all add: set_status_frames mst_def)
    have r3: "run m2 = run m3" using run_step [OF d(1)] by (simp add: m3_def)
    have k3: "keeps {h} h m m3" using k2 m3 fs3 len2 old2 by (auto simp: keeps_def)
    have "frame_ok (k ?o) m3 h" using m3(1) fs3(1,2) len2 h by (simp add: frame_ok_def clean_def)
    from IHk [OF this] obtain m' where "run m3 = run m'" "lands {h} h m3 (exec (k ?o) st') m'" using m3(2) by auto
    then show ?thesis
      using r1 r2 r3 ex Done lands_trans [OF k3] by (intro exI [of _ m']) simp
  next
    case (Susp a f)
    obtain hs where s: "current m2 = None" "a < length (aws m2)" "chain (frames m2) (?h1 # hs) a"
      "rest_of (frames m2) (?h1 # hs) = f" "aw_handle (aws m2 ! a) = Some (last (?h1 # hs))"
      "set hs \<subseteq> {?h1} \<union> {Suc ?h1..}" "mst m2 = st'"
      using l2 ex Susp by (auto simp: lands_def fs1)
    have nin: "h \<notin> set (?h1 # hs)" using s(6) h(1) by auto
    have "chain (frames m2) (h # ?h1 # hs) a"
      using s(3) nin h fh2 fh ty2 len2 by (simp add: clean_def)
    moreover have "rest_of (frames m2) (h # ?h1 # hs) = (\<lambda>r. CoAwaitTask ty (f r) k)"
      using s(4) fh2 fh ty2 by simp
    moreover have "set (?h1 # hs) \<subseteq> {h} \<union> {length (frames m)..}" using s(6) by auto
    ultimately have "lands {h} h m (Susp a (\<lambda>r. CoAwaitTask ty (f r) k), st') m2"
      using k2 s unfolding lands_def by (simp only: eres.case fst_conv snd_conv)
        (intro conjI exI [of _ "?h1 # hs"], simp_all)
    then show ?thesis using r1 r2 ex Susp by (intro exI [of _ m2]) simp
  qed
qed

lemma exec_frame:
  "frame_ok c m h \<Longrightarrow> \<exists>m'. run m = run m' \<and> lands {h} h m (exec c (mst m)) m'"
proof (induction c arbitrary: m h)
  case (CoReturn v)
  then have "run m = run (final_suspend h (upd_frame h (return_value v) m))"
    by (simp add: frame_ok_def run_step co_step_def frame_live_clean)
  moreover have "lands {h} h m (Done (Inr v), mst m) (final_suspend h (upd_frame h (return_value v) m))"
    using CoReturn
    by (intro lands_final) (auto simp: frame_ok_def Task_result_return)
  ultimately show ?case by (metis exec.simps(1))
next
  case (CoThrow e)
  then have "run m = run (final_suspend h (upd_frame h (unhandled_exception e) m))"
    by (simp add: frame_ok_def run_step co_step_def frame_live_clean)
  moreover have "lands {h} h m (Done (Inl e), mst m) (final_suspend h (upd_frame h (unhandled_exception e) m))"
    using CoThrow
    by (intro lands_final) (auto simp: frame_ok_def Task_result_throw)
  ultimately show ?case by (metis exec.simps(2))
next
  case (CoAct ev c)
  let ?m1 = "set_status h (Ready c) (m\<lparr>log := log m @ [ev]\<rparr>)"
  have h: "h < length (frames m)" using CoAct.prems by (simp add: frame_ok_def)
  have "run m = run ?m1"
    using CoAct.prems by (simp add: frame_ok_def run_step co_step_def frame_live_clean)
  moreover have "frame_ok c ?m1 h"
    using CoAct.prems by (simp add: frame_ok_def set_status_frames clean_def)
  then obtain m' where "run ?m1 = run m'" "lands {h} h ?m1 (exec c (mst ?m1)) m'" using CoAct.IH by blast
  moreover have "keeps {h} h m ?m1" using h by (simp add: keeps_def set_status_frames)
  moreover have "exec (CoAct ev c) (mst m) = exec c (mst ?m1)" by (simp add: mst_def)
  ultimately show ?case using lands_trans by (metis Un_upper1)
next
  case (CoAwait op tmo k)
  then show ?case by (intro exec_frame_op) auto
next
  case (CoAwaitTask ty c k)
  then show ?case by (intro exec_frame_task) auto
qed

section \<open>Running a chain from its innermost frame\<close>

lemma chain_root:
  "chain fs hs a \<Longrightarrow> hd hs < length fs \<and> clean (fs ! hd hs)"
  by (induction fs hs a rule: chain.induct) auto

lemma chain_mem:
  "chain fs hs a \<Longrightarrow> h \<in> set hs \<Longrightarrow> h < length fs \<and> clean (fs ! h)"
  by (induction fs hs a rule: chain.induct) auto

lemma chain_nonempty: "chain fs hs a \<Longrightarrow> hs \<noteq> []"
  by auto

lemma chain_last: "chain fs hs a \<Longrightarrow> \<exists>k. fr_status (fs ! last hs) = WaitOp a k"
  by (induction fs hs a rule: chain.induct) auto

lemma exec_chain:
  fixes m :: "'z mach_scheme"
  assumes "chain (frames m) hs a" "current m = Some (last hs)"
  shows "\<exists>m'. run m = run m' \<and>
    lands (set hs) (hd hs) m (exec (rest_of (frames m) hs (aw_result (aws m ! a))) (mst m)) m'"
  using assms
proof (induction "frames m" hs a rule: chain.induct)
  case (1 a)
  then show ?case by simp
next
  case (2 h a)
  then obtain k where k: "fr_status (frames m ! h) = WaitOp a k" by auto
  let ?m1 = "set_status h (Ready (k (aw_result (aws m ! a)))) m"
  have h: "h < length (frames m)" "clean (frames m ! h)" "current m = Some h" using 2 by auto
  have "run m = run ?m1"
    using k h by (simp add: run_step co_step_def frame_live_clean await_resume_def)
  moreover have "frame_ok (k (aw_result (aws m ! a))) ?m1 h"
    using h by (simp add: frame_ok_def set_status_frames clean_def)
  from exec_frame [OF this] obtain m' where "run ?m1 = run m'"
    "lands {h} h ?m1 (exec (k (aw_result (aws m ! a))) (mst ?m1)) m'" by blast
  moreover have "keeps {h} h m ?m1" "mst ?m1 = mst m" using h by (simp_all add: keeps_def set_status_frames mst_def)
  ultimately show ?case using k lands_trans [of "{h}" h m ?m1 "{h}"] by (intro exI [of _ m']) simp
next
  case (3 h h1 hs a)
  let ?H = "set (h1 # hs)" and ?v = "aw_result (aws m ! a)"
  from 3 obtain k where k: "fr_status (frames m ! h) = WaitTask h1 k" by auto
  have h: "h < length (frames m)" "clean (frames m ! h)" "h \<notin> ?H" and
    ch: "chain (frames m) (h1 # hs) a" and c1: "fr_continuation (frames m ! h1) = Some h" using 3 by auto
  have h1: "h1 < length (frames m)" using chain_root [OF ch] by simp
  let ?ty = "fr_type (frames m ! h1)"
  from 3 obtain m2 where r2: "run m = run m2" and
    l2: "lands ?H h1 m (exec (rest_of (frames m) (h1 # hs) ?v) (mst m)) m2" by auto
  have keep2: "keeps ?H h1 m m2" using l2 by (simp add: lands_def)
  then have fh2: "frames m2 ! h = frames m ! h" "length (frames m) \<le> length (frames m2)"
    using h by (simp_all add: keeps_def)
  have k2: "keeps (set (h # h1 # hs)) h m m2" using keep2 fh2 by (simp add: keeps_def)
  have rest: "rest_of (frames m) (h # h1 # hs) ?v = CoAwaitTask ?ty (rest_of (frames m) (h1 # hs) ?v) k"
    using k by simp
  obtain er st' where ex: "exec (rest_of (frames m) (h1 # hs) ?v) (mst m) = (er, st')"
    by (cases "exec (rest_of (frames m) (h1 # hs) ?v) (mst m)")
  show ?case
  proof (cases er)
    case (Done out)
    have d: "current m2 = Some h" "fr_status (frames m2 ! h1) = Final" "\<not> fr_destroyed (frames m2 ! h1)"
      "Task_result (frames m2 ! h1) = result_of ?ty out" "mst m2 = st'"
      using l2 ex Done c1 by (simp_all add: lands_def)
    let ?o = "coerce ?ty out"
    define m3 where "m3 = co_step h m2"
    have lh1: "h1 < length (frames m2)" using h1 fh2(2) by simp
    have "m3 = set_status h (Ready (k ?o)) (m2\<lparr>frames := (frames m2)[h1 := (frames m2 ! h1)\<lparr>fr_destroyed := True\<rparr>]\<rparr>)"
      using resume_from_task_result [OF lh1 d(2,3,4)] h fh2 k
      by (simp add: m3_def co_step_def frame_live_def clean_def)
    then have m3: "current m3 = Some h" "mst m3 = st'" "aws m3 = aws m2" "ub_flag m3 = ub_flag m2" "mach.more m3 = mach.more m2"
      and fs3: "length (frames m3) = length (frames m2)"
        "frames m3 ! h = (frames m ! h)\<lparr>fr_status := Ready (k ?o)\<rparr>"
        "\<And>i. i \<noteq> h \<Longrightarrow> i \<noteq> h1 \<Longrightarrow> frames m3 ! i = frames m2 ! i"
      using d(1,5) h fh2 by (simp_all add: set_status_frames mst_def)
    have r3: "run m2 = run m3" using run_step [OF d(1)] by (simp add: m3_def)
    have k3: "keeps (set (h # h1 # hs)) h m m3" using k2 m3 fs3 by (auto simp: keeps_def)
    have "frame_ok (k ?o) m3 h" using m3(1) fs3(1,2) fh2 h by (simp add: frame_ok_def clean_def)
    from exec_frame [OF this] obtain m' where "run m3 = run m'" "lands {h} h m3 (exec (k ?o) st') m'" using m3(2) by auto
    then show ?thesis
      using r2 r3 ex Done rest lands_trans [OF k3] by (intro exI [of _ m']) simp
  next
    case (Susp b f)
    obtain hs' where s: "current m2 = None" "b < length (aws m2)" "chain (frames m2) (h1 # hs') b"
      "rest_of (frames m2) (h1 # hs') = f" "aw_handle (aws m2 ! b) = Some (last (h1 # hs'))"
      "set hs' \<subseteq> ?H \<union> {length (frames m)..}" "mst m2 = st'"
      using l2 ex Susp by (auto simp: lands_def)
    have nin: "h \<notin> set (h1 # hs')" using s(6) h by auto
    have ty: "fr_type (frames m2 ! h1) = ?ty" "fr_continuation (frames m2 ! h1) = Some h"
      using keep2 c1 by (simp_all add: keeps_def)
    have "chain (frames m2) (h # h1 # hs') b" using s(3) nin h fh2 ty k by simp
    moreover have "rest_of (frames m2) (h # h1 # hs') = (\<lambda>r. CoAwaitTask ?ty (f r) k)"
      using s(4) fh2 ty k by simp
    moreover have "set (h1 # hs') \<subseteq> set (h # h1 # hs) \<union> {length (frames m)..}" using s(6) by auto
    ultimately have "lands (set (h # h1 # hs)) h m (Susp b (\<lambda>r. CoAwaitTask ?ty (f r) k), st') m2"
      using k2 s unfolding lands_def by (simp only: eres.case fst_conv snd_conv)
        (intro conjI exI [of _ "h1 # hs'"], simp_all)
    then show ?thesis using r2 ex Susp rest by (intro exI [of _ m2]) simp
  qed
qed

lemma resume_chain:
  assumes "chain (frames m) hs a" "fr_continuation (frames m ! hd hs) = None"
  shows "lands (set hs) (hd hs) (m\<lparr>current := Some (last hs)\<rparr>)
    (exec (rest_of (frames m) hs (aw_result (aws m ! a))) (mst m)) (resume_handle (last hs) m)"
proof -
  let ?m = "m\<lparr>current := Some (last hs)\<rparr>"
  obtain m' where m': "run ?m = run m'"
    "lands (set hs) (hd hs) ?m (exec (rest_of (frames m) hs (aw_result (aws m ! a))) (mst m)) m'"
    using exec_chain [of ?m hs a] assms by (auto simp: mst_def)
  moreover have "current m' = None" using m'(2) assms(2) by (auto simp: lands_def split: eres.splits)
  ultimately show ?thesis by (simp add: resume_handle_def)
qed

lemma resume_new:
  assumes "h < length (frames m)" "frames m ! h = new_frame ty c"
  shows "lands {h} h (m\<lparr>current := Some h\<rparr>) (exec c (mst m)) (resume_handle h m)"
proof -
  let ?m = "m\<lparr>current := Some h\<rparr>"
  have "frame_ok c ?m h" using assms by (simp add: frame_ok_def new_frame_def clean_def)
  then obtain m' where m': "run ?m = run m'" "lands {h} h ?m (exec c (mst m)) m'"
    using exec_frame [of c ?m h] by (auto simp: mst_def)
  moreover have "current m' = None"
    using m'(2) assms(2) by (auto simp: lands_def new_frame_def split: eres.splits)
  ultimately show ?thesis by (simp add: resume_handle_def)
qed

section \<open>Properties\<close>

text \<open>
  C2: Awaiting a task is calling it. Resuming the innermost frame of a chain of awaiting tasks does
  what in-place evaluation of the composed body does: the same submissions, effects and flag, the
  outcome of each inner task (value or exception) handed to the task that awaits it, frames of other
  tasks untouched and no undefined behaviour. Afterwards the root is finished with the outcome of
  the composed body, or it heads a chain again whose remaining body is the one evaluation left.
\<close>

theorem resume_refines_exec:
  assumes "chain (frames m) hs a" "fr_continuation (frames m ! hd hs) = None"
  shows "lands (set hs) (hd hs) (m\<lparr>current := Some (last hs)\<rparr>)
    (exec (rest_of (frames m) hs (aw_result (aws m ! a))) (mst m)) (resume_handle (last hs) m)"
  using assms by (rule resume_chain)

text \<open>An outer task awaiting an inner one that is suspended on a \<open>Recv\<close>; the result 5 arrives.\<close>

definition two_frames :: mach where
  "two_frames = \<lparr>ring = fresh_ring 2,
     aws = [(mk_awaitable (Recv 4 64 16 0))\<lparr>aw_result := 5, aw_handle := Some 1\<rparr>],
     frames =
       [(new_frame TVoid (CoReturn VVoid))\<lparr>fr_status := WaitTask 1 (\<lambda>out. case out of
            Inr (VInt n) \<Rightarrow> CoAct (''result'', n) (CoReturn VVoid) | _ \<Rightarrow> CoThrow (UserExc ''bad''))\<rparr>,
        (new_frame (TDefault (VInt 0)) (CoReturn VVoid))\<lparr>fr_status := WaitOp 0 (\<lambda>n. CoReturn (VInt n)),
            fr_continuation := Some 0\<rparr>],
     tl_sq_full = False, log = [], ub_flag = None, current = None\<rparr>"

theorem resume_refines_exec_witness:
  "chain (frames two_frames) [0, 1] 0 \<and> log (resume_handle 1 two_frames) = [(''result'', 5)]
   \<and> fr_status (frames (resume_handle 1 two_frames) ! 0) = Final \<and> ub_flag (resume_handle 1 two_frames) = None"
proof -
  have c: "chain (frames two_frames) [0, 1] 0" and n: "fr_continuation (frames two_frames ! hd [0, 1]) = None"
    by (simp_all add: two_frames_def new_frame_def clean_def)
  have e: "exec (rest_of (frames two_frames) [0, 1] (aw_result (aws two_frames ! 0))) (mst two_frames)
      = (Done (Inr VVoid), (fresh_ring 2, 1, False, [(''result'', 5)]))"
    by (simp add: two_frames_def new_frame_def mst_def)
  from resume_refines_exec [OF c n] c show ?thesis
    unfolding e by (auto simp: lands_def keeps_def mst_def two_frames_def)
qed

text \<open>
  The first resumption of a new task runs its body from the start in the same way, so a task
  handed to \<open>spawn\<close> has, after \<open>handle.resume()\<close>, either finished or staged exactly the operation its
  innermost body waits for.
\<close>

theorem first_resume_refines_exec:
  assumes "h < length (frames m)" "frames m ! h = new_frame ty c"
  shows "lands {h} h (m\<lparr>current := Some h\<rparr>) (exec c (mst m)) (resume_handle h m)"
  using assms by (rule resume_new)

theorem first_resume_refines_exec_witness:
  "let m = two_frames\<lparr>frames := [new_frame (TDefault (VInt 0)) (CoAwaitTask TVoid (CoThrow (UserExc ''boom''))
        (\<lambda>out. case out of Inl e \<Rightarrow> CoAct (''caught'', 1) (CoReturn (VInt 42)) | Inr v \<Rightarrow> CoReturn v))]\<rparr>
   in log (resume_handle 0 m) = [(''caught'', 1)] \<and> Task_result (frames (resume_handle 0 m) ! 0) = Value (VInt 42)"
proof -
  let ?c = "CoAwaitTask TVoid (CoThrow (UserExc ''boom''))
        (\<lambda>out. case out of Inl e \<Rightarrow> CoAct (''caught'', 1) (CoReturn (VInt 42)) | Inr v \<Rightarrow> CoReturn v)"
  let ?m = "two_frames\<lparr>frames := [new_frame (TDefault (VInt 0)) ?c]\<rparr>"
  have "0 < length (frames ?m)" "frames ?m ! 0 = new_frame (TDefault (VInt 0)) ?c" by simp_all
  from first_resume_refines_exec [OF this] show ?thesis
    by (auto simp: lands_def mst_def result_of_def two_frames_def new_frame_def Let_def)
qed

end
