(* ===== verification/Scheduler_Inv.thy ===== *)
theory Scheduler_Inv
  imports Scheduler Nested_Await
begin

text \<open>
  The safety invariant of a scheduler. Every task in \<open>tasks_\<close> owns a chain of frames of its own:
  finished, or suspended on one operation. The operations still outstanding (staged in the
  submission queue, in flight in the kernel, or completed and not yet processed) are exactly the
  ones the unfinished tasks are suspended on. From this it follows that a completion always finds a
  live awaitable and a coroutine that is suspended on it. The lemmas show which steps keep it.
\<close>

section \<open>What one uninterrupted run stages\<close>

definition cq_same :: "ring \<Rightarrow> ring \<Rightarrow> bool" where
  "cq_same r r' \<longleftrightarrow> cq_head r' = cq_head r \<and> cq_tail r' = cq_tail r \<and> cq_mask r' = cq_mask r
     \<and> cq_entries r' = cq_entries r \<and> cq_cqes r' = cq_cqes r"

lemma cq_same_refl [simp]: "cq_same r r"
  by (simp add: cq_same_def)

lemma cq_same_trans: "cq_same r r1 \<Longrightarrow> cq_same r1 r2 \<Longrightarrow> cq_same r r2"
  by (simp add: cq_same_def)

lemma cq_same_abs: "cq_same r r' \<Longrightarrow> cq_ready r' = cq_ready r \<and> cq_ok r' = cq_ok r \<and> cq_len r' = cq_len r"
  by (simp add: cq_same_def cq_ready_def cq_ok_def cq_len_def cq_slot_def)

lemma stage_cq_same: "cq_same r (stage r e)"
  by (simp add: cq_same_def stage_def)

lemma foldl_stage_fields: "cq_same r (foldl stage r es) \<and> sq_entries (foldl stage r es) = sq_entries r
    \<and> sq_head (foldl stage r es) = sq_head r"
  by (induction es arbitrary: r) (auto simp: stage_def intro: cq_same_trans [OF stage_cq_same [unfolded stage_def]])

lemma reserve_cases:
  assumes "sq_ok r" "reserve n op tmo r tls = (susp, r', tls')"
  shows "susp \<Longrightarrow> sq_pending r' = sq_pending r @ entries_of n (mk_op op tmo) \<and> sq_ok r' \<and> cq_same r r'
      \<and> sq_entries r' = sq_entries r \<and> tls' = tls"
    and "\<not> susp \<Longrightarrow> r' = r \<and> tls'"
    and "susp \<longleftrightarrow> has_capacity r (needed_slots (mk_op op tmo))"
proof -
  obtain aw' where aw: "await_suspend n 0 (mk_op op tmo, r, tls) = (susp, aw', r', tls')"
    using assms(2) by (auto simp: reserve_def split: prod.splits)
  show iff: "susp \<longleftrightarrow> has_capacity r (needed_slots (mk_op op tmo))"
    using aw by (auto simp: await_suspend_def Let_def split: if_splits prod.splits)
  show "sq_pending r' = sq_pending r @ entries_of n (mk_op op tmo) \<and> sq_ok r' \<and> cq_same r r'
      \<and> sq_entries r' = sq_entries r \<and> tls' = tls" if susp
    using that iff aw await_suspend_fits [OF assms(1) _ aw] await_suspend_stages [OF assms(1)] foldl_stage_fields
    by auto
  show "r' = r \<and> tls'" if "\<not> susp"
    using that iff aw by (auto simp: await_suspend_full)
qed

text \<open>
  A run stages nothing when it ends, and exactly the entries of the operation it is left suspended
  on otherwise.
\<close>

definition staged :: "ring \<Rightarrow> nat \<Rightarrow> eres \<Rightarrow> ring \<Rightarrow> nat \<Rightarrow> bool" where
  "staged r n res r' n' \<longleftrightarrow> n \<le> n' \<and> (case res of
     Done out \<Rightarrow> r' = r
   | Susp a f \<Rightarrow> n \<le> a \<and> a < n' \<and> sq_ok r' \<and> cq_same r r' \<and> sq_entries r' = sq_entries r
       \<and> (\<exists>op tmo. sq_pending r' = sq_pending r @ entries_of a (mk_op op tmo)))"

lemma exec_staged:
  "sq_ok r \<Longrightarrow> exec c (r, n, tls, lg) = (res, (r', n', tls', lg')) \<Longrightarrow> staged r n res r' n'"
proof (induction c arbitrary: r n tls lg res r' n' tls' lg')
  case (CoAwait op tmo k)
  obtain susp r1 tls1 where rv: "reserve n op tmo r tls = (susp, r1, tls1)" by (metis prod_cases3)
  show ?case
  proof (cases susp)
    case True
    then show ?thesis
      using CoAwait.prems rv reserve_cases(1) [OF CoAwait.prems(1) rv] by (auto simp: staged_def) blast+
  next
    case False
    then have e: "r1 = r" "exec (k 0) (r, Suc n, tls1, lg) = (res, (r', n', tls', lg'))"
      using CoAwait.prems rv reserve_cases(2) [OF CoAwait.prems(1) rv] by auto
    from CoAwait.IH [OF _ CoAwait.prems(1) e(2)] show ?thesis
      by (auto simp: staged_def split: eres.splits)
  qed
next
  case (CoAwaitTask ty c k)
  obtain res1 r1 n1 tls1 lg1 where e1: "exec c (r, n, tls, lg) = (res1, (r1, n1, tls1, lg1))"
    by (metis prod_cases5)
  note s1 = CoAwaitTask.IH(1) [OF CoAwaitTask.prems(1) e1]
  show ?case
  proof (cases res1)
    case (Done out)
    then have "r1 = r" "n \<le> n1" and e2: "exec (k (coerce ty out)) (r, n1, tls1, lg1) = (res, (r', n', tls', lg'))"
      using s1 e1 CoAwaitTask.prems(2) by (auto simp: staged_def)
    from CoAwaitTask.IH(2) [OF _ CoAwaitTask.prems(1) e2] \<open>n \<le> n1\<close> show ?thesis
      by (auto simp: staged_def split: eres.splits)
  next
    case (Susp a f)
    then show ?thesis using s1 e1 CoAwaitTask.prems(2) by (auto simp: staged_def) blast+
  qed
qed (auto simp: staged_def)

section \<open>Outstanding operations\<close>

fun is_aw :: "ptr \<Rightarrow> bool" where
  "is_aw (AwPtr a) = True"
| "is_aw p = False"

definition sq_uds :: "ring \<Rightarrow> ptr multiset" where
  "sq_uds r = mset (map sqe_user_data (sq_pending r))"

lemma uds_entries:
  "mset (map sqe_user_data (entries_of a aw)) =
     (if aw_timeout aw = None then {#AwPtr a#} else {#AwPtr a, NullPtr#})"
  by (simp add: entries_of_def primary_entry_def prepare_primary_def set_link_def timeout_entry_def zero_sqe_def
      del: prepare_primary_entry)

definition task_root :: "'z mach_scheme \<Rightarrow> nat \<Rightarrow> nat list \<Rightarrow> nat \<Rightarrow> bool" where
  "task_root m h hs a \<longleftrightarrow> fr_continuation (frames m ! h) = None \<and>
     (if frame_done m h then hs = [h] \<and> h < length (frames m) \<and> \<not> fr_destroyed (frames m ! h)
      else hd hs = h \<and> chain (frames m) hs a \<and> a < length (aws m) \<and> aw_handle (aws m ! a) = Some (last hs))"

definition unfinished :: "('j, 'k) sched \<Rightarrow> task list" where
  "unfinished s = filter (\<lambda>t. \<not> Task_done s t) (tasks s)"

definition owns :: "('j, 'k) sched \<Rightarrow> (nat \<Rightarrow> nat list) \<Rightarrow> (nat \<Rightarrow> nat) \<Rightarrow> bool" where
  "owns s ch lf \<longleftrightarrow> distinct (tasks s) \<and> None \<notin> set (tasks s)
     \<and> (\<forall>h. Some h \<in> set (tasks s) \<longrightarrow> task_root s h (ch h) (lf h))
     \<and> (\<forall>h h'. Some h \<in> set (tasks s) \<longrightarrow> Some h' \<in> set (tasks s) \<longrightarrow> h \<noteq> h' \<longrightarrow> set (ch h) \<inter> set (ch h') = {})"

text \<open>\<open>Q\<close>: the pointers outstanding outside the submission queue.\<close>

definition outstanding :: "ptr multiset \<Rightarrow> ('j, 'k) sched \<Rightarrow> (nat \<Rightarrow> nat) \<Rightarrow> bool" where
  "outstanding Q s lf \<longleftrightarrow>
     filter_mset is_aw (sq_uds (ring s) + Q) = mset (map (\<lambda>t. AwPtr (lf (the t))) (unfinished s))
   \<and> (\<forall>p \<in># sq_uds (ring s) + Q. is_aw p \<or> p = NullPtr \<or> p = EventfdBuf)"

definition calm :: "('j, 'k) sched \<Rightarrow> bool" where
  "calm s \<longleftrightarrow> ring_ok (ring s) \<and> ub_flag s = None \<and> current s = None \<and> \<not> tl_sq_full s"

definition sched_inv :: "ptr multiset \<Rightarrow> ('j, 'k) sched \<Rightarrow> bool" where
  "sched_inv Q s \<longleftrightarrow> calm s \<and> (\<exists>ch lf. owns s ch lf \<and> outstanding Q s lf)"

lemma mset_filter_split:
  "x \<in> set xs \<Longrightarrow> mset (map g (filter P xs)) =
     (if P x then {#g x#} else {#}) + mset (map g (filter P (remove1 x xs)))"
  by (induction xs) auto

lemma task_root_mem: "task_root m h hs a \<Longrightarrow> h \<in> set hs \<and> (\<forall>i \<in> set hs. i < length (frames m))"
  by (cases hs) (auto simp: task_root_def chain_mem split: if_splits)

lemma more_fields:
  assumes "mach.more s' = mach.more s"
  shows "eventfd s' = eventfd s" "eventfd_armed s' = eventfd_armed s" "shutting_down s' = shutting_down s"
    "tasks s' = tasks s" "inbox s' = inbox s" "kst s' = kst s"
  using assms by (cases s; cases s'; simp)+

section \<open>Stability of the other tasks\<close>

lemma chain_cong:
  "chain fs hs a \<Longrightarrow> \<forall>i \<in> set hs. fs' ! i = fs ! i \<Longrightarrow> length fs \<le> length fs' \<Longrightarrow> chain fs' hs a"
  by (induction fs hs a rule: chain.induct) auto

definition aws_kept :: "'z mach_scheme \<Rightarrow> 'z mach_scheme \<Rightarrow> bool" where
  "aws_kept m m' \<longleftrightarrow> length (aws m) \<le> length (aws m')
     \<and> (\<forall>a < length (aws m). aw_handle (aws m' ! a) = aw_handle (aws m ! a))"

lemma aws_kept_refl [simp]: "aws_kept m m"
  by (simp add: aws_kept_def)

lemma aws_kept_trans: "aws_kept m m1 \<Longrightarrow> aws_kept m1 m2 \<Longrightarrow> aws_kept m m2"
  by (auto simp: aws_kept_def)

lemma aws_kept_take: "take (length (aws m)) (aws m') = aws m \<Longrightarrow> aws_kept m m'"
  unfolding aws_kept_def by (metis length_take min.cobounded1 min_def nle_le nth_take)

lemma keeps_aws_kept: "keeps H h m m' \<Longrightarrow> aws_kept m m'"
  by (simp add: keeps_def aws_kept_take)

lemma task_root_keep:
  assumes r: "task_root m h hs a" and l: "length (frames m) \<le> length (frames m')"
    and f: "\<forall>i \<in> set hs. frames m' ! i = frames m ! i" and w: "aws_kept m m'"
  shows "task_root m' h hs a" "frame_done m' h = frame_done m h"
proof -
  have "h \<in> set hs" using task_root_mem [OF r] by simp
  then have e: "frames m' ! h = frames m ! h" using f by simp
  then show d: "frame_done m' h = frame_done m h" by (simp add: frame_done_def)
  show "task_root m' h hs a"
    using r d e l w chain_cong [OF _ f l] by (auto simp: task_root_def aws_kept_def split: if_splits)
qed

text \<open>A root after its run.\<close>

lemma task_root_lands:
  assumes l: "lands H h m (res, st') m'" and c: "fr_continuation (frames m ! h) = None" and h: "h < length (frames m)"
  shows "\<exists>hs a. task_root m' h hs a \<and> set hs \<subseteq> {h} \<union> H \<union> {length (frames m)..}
    \<and> (case res of Done out \<Rightarrow> frame_done m' h | Susp b f \<Rightarrow> \<not> frame_done m' h \<and> a = b)"
proof (cases res)
  case (Done out)
  then have "task_root m' h [h] 0" "frame_done m' h"
    using l c h by (auto simp: lands_def keeps_def task_root_def frame_done_def)
  then show ?thesis using Done by (intro exI [of _ "[h]"] exI [of _ 0]) auto
next
  case (Susp b f)
  then obtain hs where hs: "chain (frames m') (h # hs) b" "aw_handle (aws m' ! b) = Some (last (h # hs))"
      "set hs \<subseteq> H \<union> {length (frames m)..}" "b < length (aws m')"
    using l by (auto simp: lands_def)
  have nd: "\<not> frame_done m' h"
    using hs(1) by (cases hs) (auto simp: frame_done_def)
  have "fr_continuation (frames m' ! h) = None" using l c by (simp add: lands_def keeps_def)
  then have "task_root m' h (h # hs) b" using hs nd by (simp add: task_root_def)
  then show ?thesis using Susp nd hs(3) by (intro exI [of _ "h # hs"] exI [of _ b]) auto
qed

section \<open>Delivering a completion\<close>

lemma owns_mem: "owns s ch lf \<Longrightarrow> Some h \<in> set (tasks s) \<Longrightarrow> task_root s h (ch h) (lf h)"
  by (simp add: owns_def)

lemma unfinished_leaf:
  assumes "owns s ch lf" "outstanding (add_mset (AwPtr a) Q) s lf"
  obtains h where "Some h \<in> set (tasks s)" "\<not> frame_done s h" "lf h = a"
proof -
  have "AwPtr a \<in># filter_mset is_aw (sq_uds (ring s) + add_mset (AwPtr a) Q)" by simp
  then have "AwPtr a \<in># mset (map (\<lambda>t. AwPtr (lf (the t))) (unfinished s))"
    using assms(2) unfolding outstanding_def by (simp only:)
  then obtain t where t: "t \<in> set (unfinished s)" "lf (the t) = a" by auto
  moreover have "t \<noteq> None" using t assms(1) unfolding owns_def unfinished_def by (metis filter_is_subset subsetD)
  ultimately show thesis using that by (auto simp: unfinished_def Task_done_def)
qed

text \<open>
  The resumed task may have finished or be suspended on another operation; every other task is as
  it was. \<open>s\<close> before, \<open>s'\<close> after.
\<close>

lemma owns_step:
  assumes own: "owns s ch lf" and h: "Some h \<in> set (tasks s)" and t: "tasks s' = tasks s"
    and root: "task_root s' h hs b" and sub: "set hs \<subseteq> set (ch h) \<union> {length (frames s)..}"
    and len: "length (frames s) \<le> length (frames s')" and aw: "aws_kept s s'"
    and keep: "\<forall>i < length (frames s). i \<notin> set (ch h) \<longrightarrow> frames s' ! i = frames s ! i"
  shows "owns s' (ch(h := hs)) (lf(h := b))"
    "\<And>h'. Some h' \<in> set (tasks s) \<Longrightarrow> h' \<noteq> h \<Longrightarrow> frame_done s' h' = frame_done s h'"
proof -
  have dis: "set (ch h') \<inter> set (ch h) = {}" if "Some h' \<in> set (tasks s)" "h' \<noteq> h" for h'
    using own h that by (auto simp: owns_def)
  have lt: "\<forall>i \<in> set (ch h'). i < length (frames s)" if "Some h' \<in> set (tasks s)" for h'
    using task_root_mem [OF owns_mem [OF own that]] by simp
  have fr: "\<forall>i \<in> set (ch h'). frames s' ! i = frames s ! i" if "Some h' \<in> set (tasks s)" "h' \<noteq> h" for h'
    using keep dis [OF that] lt [OF that(1)] by auto
  have rt: "task_root s' h' (ch h') (lf h')" and "frame_done s' h' = frame_done s h'"
    if "Some h' \<in> set (tasks s)" "h' \<noteq> h" for h'
    using task_root_keep [OF owns_mem [OF own that(1)] len fr [OF that] aw] by auto
  then show "\<And>h'. Some h' \<in> set (tasks s) \<Longrightarrow> h' \<noteq> h \<Longrightarrow> frame_done s' h' = frame_done s h'" by blast
  have dis': "set hs \<inter> set (ch h') = {}" if "Some h' \<in> set (tasks s)" "h' \<noteq> h" for h'
    using sub dis [OF that] lt [OF that(1)] by fastforce
  show "owns s' (ch(h := hs)) (lf(h := b))"
    unfolding owns_def t using own rt root dis' by (auto simp: owns_def Int_commute)
qed

lemma unfinished_step:
  assumes h: "Some h \<in> set (tasks s)" and d: "distinct (tasks s)" "None \<notin> set (tasks s)" and t: "tasks s' = tasks s"
    and same: "\<And>h'. Some h' \<in> set (tasks s) \<Longrightarrow> h' \<noteq> h \<Longrightarrow> frame_done s' h' = frame_done s h'"
    and nd: "\<not> frame_done s h"
  shows "add_mset (AwPtr (lf h)) (mset (map (\<lambda>t. AwPtr ((lf(h := b)) (the t))) (unfinished s')))
     = mset (map (\<lambda>t. AwPtr (lf (the t))) (unfinished s)) + (if frame_done s' h then {#} else {#AwPtr b#})"
proof -
  let ?xs = "remove1 (Some h) (tasks s)"
  have mem: "x \<in> set (tasks s) \<and> x \<noteq> Some h \<and> x \<noteq> None" if "x \<in> set ?xs" for x
    using that d by (metis set_remove1_eq Diff_iff insertI1)
  have eq: "map (\<lambda>t. AwPtr ((lf(h := b)) (the t))) (filter (\<lambda>t. \<not> Task_done s' t) ?xs)
      = map (\<lambda>t. AwPtr (lf (the t))) (filter (\<lambda>t. \<not> Task_done s t) ?xs)"
  proof -
    have "filter (\<lambda>t. \<not> Task_done s' t) ?xs = filter (\<lambda>t. \<not> Task_done s t) ?xs"
    proof (rule filter_cong [OF refl])
      fix x assume "x \<in> set ?xs"
      then obtain h' where x: "x = Some h'" "Some h' \<in> set (tasks s)" "h' \<noteq> h" using mem [of x] by (metis option.exhaust)
      from same [OF x(2,3)] show "(\<not> Task_done s' x) = (\<not> Task_done s x)" by (simp add: Task_done_def x(1))
    qed
    moreover have "(lf(h := b)) (the x) = lf (the x)" if "x \<in> set (filter (\<lambda>t. \<not> Task_done s t) ?xs)" for x
      using mem [of x] that by (metis filter_is_subset fun_upd_other option.collapse subsetD)
    ultimately show ?thesis by (metis (no_types, lifting) map_cong)
  qed
  let ?R = "mset (map (\<lambda>t. AwPtr (lf (the t))) (filter (\<lambda>t. \<not> Task_done s t) ?xs))"
  have A: "mset (map (\<lambda>t. AwPtr ((lf(h := b)) (the t))) (filter (\<lambda>t. \<not> Task_done s' t) (tasks s)))
      = (if frame_done s' h then {#} else {#AwPtr b#}) + ?R"
    unfolding mset_filter_split [OF h] eq by (simp only: Task_done_def option.case option.sel fun_upd_same if_not_P not_not split: if_split)
      blast
  have B: "mset (map (\<lambda>t. AwPtr (lf (the t))) (filter (\<lambda>t. \<not> Task_done s t) (tasks s))) = {#AwPtr (lf h)#} + ?R"
    unfolding mset_filter_split [OF h] using nd by (simp only: Task_done_def option.case option.sel if_P simp_thms)
  show ?thesis unfolding unfinished_def t A B by (cases "frame_done s' h") (simp_all only: if_True if_False, simp_all only: add_mset_commute union_mset_add_mset_left add_0 union_mset_add_mset_right add_0_right)
qed


lemma snd_take_pending [simp]: "snd (take_pending_sq_error flag) = False"
  by (simp add: take_pending_sq_error_def)

text \<open>The effect of one uninterrupted run of a root frame, whoever started it.\<close>

definition ran :: "nat set \<Rightarrow> nat \<Rightarrow> 'z mach_scheme \<Rightarrow> 'z mach_scheme \<Rightarrow> nat list \<Rightarrow> nat \<Rightarrow> bool" where
  "ran H h m m' hs b \<longleftrightarrow> ring_ok (ring m') \<and> cq_same (ring m) (ring m') \<and> sq_entries (ring m') = sq_entries (ring m)
     \<and> sq_len (ring m') \<le> sq_len (ring m) + 2 \<and> current m' = None \<and> keeps H h m m'
     \<and> task_root m' h hs b \<and> set hs \<subseteq> {h} \<union> H \<union> {length (frames m)..}
     \<and> filter_mset is_aw (sq_uds (ring m')) =
         filter_mset is_aw (sq_uds (ring m)) + (if frame_done m' h then {#} else {#AwPtr b#})
     \<and> (\<forall>p \<in># sq_uds (ring m'). p \<in># sq_uds (ring m) \<or> is_aw p \<or> p = NullPtr)
     \<and> count (sq_uds (ring m')) EventfdBuf = count (sq_uds (ring m)) EventfdBuf"

lemma lands_ran:
  assumes l: "lands H h m (exec c (mst m)) m'" and ok: "ring_ok (ring m)"
    and c: "fr_continuation (frames m ! h) = None" and h: "h < length (frames m)"
  shows "\<exists>hs b. ran H h m m' hs b"
proof -
  obtain er r' n' tls' lg' where e: "exec c (mst m) = (er, (r', n', tls', lg'))" by (metis prod_cases5)
  have st: "staged (ring m) (length (aws m)) er r' n'"
    using exec_staged [of "ring m" c] e ok by (simp add: mst_def ring_ok_def)
  have r': "ring m' = r'" using l e by (simp add: lands_def mst_def)
  obtain hs b where t: "task_root m' h hs b" "set hs \<subseteq> {h} \<union> H \<union> {length (frames m)..}"
    "case er of Done out \<Rightarrow> frame_done m' h | Susp b' f \<Rightarrow> \<not> frame_done m' h \<and> b = b'"
    using task_root_lands [OF l [unfolded e] c h] by auto
  have k: "keeps H h m m'" "current m' = None" using l e c by (auto simp: lands_def split: eres.splits)
  show ?thesis
  proof (cases er)
    case (Done out)
    then show ?thesis using st r' t k ok by (intro exI [of _ hs] exI [of _ b]) (simp add: ran_def staged_def)
  next
    case (Susp b' f)
    then obtain op tmo where p: "sq_pending r' = sq_pending (ring m) @ entries_of b (mk_op op tmo)"
      "sq_ok r'" "cq_same (ring m) r'" "sq_entries r' = sq_entries (ring m)"
      using st t(3) by (auto simp: staged_def)
    have len: "sq_len r' \<le> sq_len (ring m) + 2"
      using arg_cong [OF p(1), of length] by (simp add: entries_of_def split: if_splits)
    have u: "sq_uds r' = sq_uds (ring m) + (if aw_timeout (mk_op op tmo) = None then {#AwPtr b#} else {#AwPtr b, NullPtr#})"
      by (simp add: sq_uds_def p(1) uds_entries del: mset_map)
    show ?thesis
      using Susp r' t k ok p(2-4) len u cq_same_abs [OF p(3)]
      by (intro exI [of _ hs] exI [of _ b]) (auto simp: ran_def ring_ok_def split: if_splits)
  qed
qed

lemma deliver_lands:
  assumes own: "owns s ch lf" and out: "outstanding (add_mset (AwPtr a) Q) s lf"
  obtains h s1 s2 where "Some h \<in> set (tasks s)" "\<not> frame_done s h" "lf h = a" "hd (ch h) = h" "chain (frames s) (ch h) a"
    "s1 = s\<lparr>aws := (aws s)[a := (aws s ! a)\<lparr>aw_result := res\<rparr>], current := Some (last (ch h))\<rparr>"
    "lands (set (ch h)) h s1 (exec (rest_of (frames s) (ch h) res) (mst s1)) s2" "deliver a res s = s2\<lparr>tl_sq_full := False\<rparr>"
proof -
  obtain h where h: "Some h \<in> set (tasks s)" "\<not> frame_done s h" "lf h = a"
    using unfinished_leaf [OF own out] .
  let ?hs = "ch h"
  have root: "hd ?hs = h" "chain (frames s) ?hs a" "a < length (aws s)" "aw_handle (aws s ! a) = Some (last ?hs)"
    "fr_continuation (frames s ! h) = None"
    using owns_mem [OF own h(1)] h(2,3) by (auto simp: task_root_def)
  have ne: "?hs \<noteq> []" using root(2) by (rule chain_nonempty)
  have alive: "aw_alive s a"
    using root chain_last [OF root(2)] chain_mem [OF root(2) last_in_set [OF ne]]
    by (auto simp: aw_alive_def frame_live_def clean_def)
  let ?s0 = "s\<lparr>aws := (aws s)[a := (aws s ! a)\<lparr>aw_result := res\<rparr>]\<rparr>"
  let ?s1 = "?s0\<lparr>current := Some (last ?hs)\<rparr>" and ?s2 = "resume_handle (last ?hs) ?s0"
  have "lands (set ?hs) h ?s1 (exec (rest_of (frames s) ?hs res) (mst ?s1)) ?s2"
    using resume_chain [of ?s0 ?hs a] root by (simp add: mst_def)
  moreover have "deliver a res s = ?s2\<lparr>tl_sq_full := False\<rparr>"
    using alive root by (simp add: deliver_def Let_def)
  ultimately show thesis using that [OF h root(1,2)] by simp
qed

lemma deliver_runs:
  assumes own: "owns s ch lf" and out: "outstanding (add_mset (AwPtr a) Q) s lf" and calm: "calm s"
  obtains h hs b s1 s2 where "Some h \<in> set (tasks s)" "\<not> frame_done s h" "lf h = a"
    "s1 = s\<lparr>aws := (aws s)[a := (aws s ! a)\<lparr>aw_result := res\<rparr>], current := Some (last (ch h))\<rparr>"
    "ran (set (ch h)) h s1 s2 hs b" "deliver a res s = s2\<lparr>tl_sq_full := False\<rparr>"
proof -
  obtain h s1 s2 where h: "Some h \<in> set (tasks s)" "\<not> frame_done s h" "lf h = a" "hd (ch h) = h" "chain (frames s) (ch h) a"
    and s1: "s1 = s\<lparr>aws := (aws s)[a := (aws s ! a)\<lparr>aw_result := res\<rparr>], current := Some (last (ch h))\<rparr>"
    and l: "lands (set (ch h)) h s1 (exec (rest_of (frames s) (ch h) res) (mst s1)) s2" "deliver a res s = s2\<lparr>tl_sq_full := False\<rparr>"
    by (rule deliver_lands [OF own out])
  have "fr_continuation (frames s ! h) = None" using owns_mem [OF own h(1)] by (simp add: task_root_def)
  with lands_ran [OF l(1)] obtain hs b where "ran (set (ch h)) h s1 s2 hs b"
    using calm chain_root [OF h(5)] h(4) by (auto simp: calm_def s1)
  with that [OF h(1-3) s1 _ l(2)] show thesis by blast
qed


lemma handle_result: "aw_handle (xs[a := (xs ! a)\<lparr>aw_result := r\<rparr>] ! i) = aw_handle (xs ! i)"
  by (cases "i = a"; cases "a < length xs") (simp_all add: list_update_beyond)

lemma owns_cong:
  "frames s' = frames s \<Longrightarrow> aws s' = aws s \<Longrightarrow> tasks s' = tasks s \<Longrightarrow> owns s' ch lf = owns s ch lf"
  by (simp add: owns_def task_root_def frame_done_def)

lemma unfinished_cong:
  "frames s' = frames s \<Longrightarrow> tasks s' = tasks s \<Longrightarrow> unfinished s' = unfinished s"
  by (simp add: unfinished_def Task_done_def frame_done_def cong: option.case_cong)

text \<open>What processing a completion never touches.\<close>

definition same_loop :: "('j, 'k) sched \<Rightarrow> ('j, 'k) sched \<Rightarrow> bool" where
  "same_loop s s' \<longleftrightarrow> cq_same (ring s) (ring s') \<and> sq_entries (ring s') = sq_entries (ring s)
     \<and> eventfd s' = eventfd s \<and> shutting_down s' = shutting_down s"

lemma deliver_frame:
  assumes "sched_inv (add_mset (AwPtr a) Q) s"
  shows "same_loop s (deliver a res s) \<and> tasks (deliver a res s) = tasks s \<and> inbox (deliver a res s) = inbox s
    \<and> eventfd_armed (deliver a res s) = eventfd_armed s \<and> kst (deliver a res s) = kst s
    \<and> sq_len (ring (deliver a res s)) \<le> sq_len (ring s) + 2
    \<and> count (sq_uds (ring (deliver a res s))) EventfdBuf = count (sq_uds (ring s)) EventfdBuf"
proof -
  obtain ch lf where i: "calm s" "owns s ch lf" "outstanding (add_mset (AwPtr a) Q) s lf"
    using assms by (auto simp: sched_inv_def)
  obtain h hs b s1 s2 where
    s1: "s1 = s\<lparr>aws := (aws s)[a := (aws s ! a)\<lparr>aw_result := res\<rparr>], current := Some (last (ch h))\<rparr>" and
    r: "ran (set (ch h)) h s1 s2 hs b" and d: "deliver a res s = s2\<lparr>tl_sq_full := False\<rparr>"
    using deliver_runs [OF i(2,3,1)] by metis
  have "mach.more s2 = mach.more s1" using r by (simp add: ran_def keeps_def)
  from more_fields [OF this] show ?thesis using r by (simp add: d s1 ran_def same_loop_def)
qed

lemma deliver_inv:
  assumes "sched_inv (add_mset (AwPtr a) Q) s"
  shows "sched_inv Q (deliver a res s)"
proof -
  obtain ch lf where i: "calm s" "owns s ch lf" "outstanding (add_mset (AwPtr a) Q) s lf"
    using assms by (auto simp: sched_inv_def)
  obtain h hs b s1 s2 where h: "Some h \<in> set (tasks s)" "\<not> frame_done s h" "lf h = a" and
    s1: "s1 = s\<lparr>aws := (aws s)[a := (aws s ! a)\<lparr>aw_result := res\<rparr>], current := Some (last (ch h))\<rparr>" and
    r: "ran (set (ch h)) h s1 s2 hs b" and d: "deliver a res s = s2\<lparr>tl_sq_full := False\<rparr>"
    using deliver_runs [OF i(2,3,1)] by metis
  have k: "keeps (set (ch h)) h s1 s2" using r by (simp add: ran_def)
  have t: "tasks s2 = tasks s" using k more_fields(4) [of s2 s1] by (simp add: keeps_def s1)
  have aw: "aws_kept s s2"
    by (rule aws_kept_trans [OF _ keeps_aws_kept [OF k]]) (simp add: aws_kept_def s1 handle_result)
  have root: "task_root s2 h hs b" and sub: "set hs \<subseteq> set (ch h) \<union> {length (frames s)..}"
    using r task_root_mem [OF owns_mem [OF i(2) h(1)]] by (auto simp: ran_def s1)
  have fr: "length (frames s) \<le> length (frames s2)"
    "\<forall>i < length (frames s). i \<notin> set (ch h) \<longrightarrow> frames s2 ! i = frames s ! i"
    using k by (simp_all add: keeps_def s1)
  note own = owns_step [OF i(2) h(1) t root sub fr(1) aw fr(2)]
  have un: "add_mset (AwPtr a) (mset (map (\<lambda>t. AwPtr ((lf(h := b)) (the t))) (unfinished s2)))
     = mset (map (\<lambda>t. AwPtr (lf (the t))) (unfinished s)) + (if frame_done s2 h then {#} else {#AwPtr b#})"
    using unfinished_step [OF h(1) _ _ t own(2) h(2), of lf b] i(2) h(3) unfolding owns_def by blast
  have q: "filter_mset is_aw (sq_uds (ring s2)) =
      filter_mset is_aw (sq_uds (ring s)) + (if frame_done s2 h then {#} else {#AwPtr b#})"
    "\<forall>p \<in># sq_uds (ring s2). p \<in># sq_uds (ring s) \<or> is_aw p \<or> p = NullPtr"
    using r by (simp_all add: ran_def s1)
  have M: "mset (map (\<lambda>t. AwPtr (lf (the t))) (unfinished s)) =
      add_mset (AwPtr a) (filter_mset is_aw (sq_uds (ring s)) + filter_mset is_aw Q)"
    using i(3) unfolding outstanding_def by (metis (no_types) filter_union_mset filter_mset_add_mset is_aw.simps(1) union_mset_add_mset_right)
  have "mset (map (\<lambda>t. AwPtr ((lf(h := b)) (the t))) (unfinished s2)) = filter_mset is_aw (sq_uds (ring s2) + Q)"
    using un unfolding M filter_union_mset q(1)
    by (simp only: union_mset_add_mset_left union_mset_add_mset_right add_mset_add_mset_same_iff ac_simps)
  moreover have "\<forall>p \<in># sq_uds (ring s2) + Q. is_aw p \<or> p = NullPtr \<or> p = EventfdBuf"
    using q(2) i(3) by (auto simp: outstanding_def)
  ultimately have "outstanding Q s2 (lf(h := b))" by (simp add: outstanding_def)
  then have "outstanding Q (deliver a res s) (lf(h := b))" "owns (deliver a res s) (ch(h := hs)) (lf(h := b))"
    using own(1) by (simp_all add: d outstanding_def unfinished_cong [of "s2\<lparr>tl_sq_full := False\<rparr>" s2]
        owns_cong [of "s2\<lparr>tl_sq_full := False\<rparr>" s2])
  moreover have "calm (deliver a res s)"
    using r i(1) k by (simp add: d ran_def calm_def keeps_def s1)
  ultimately show ?thesis unfolding sched_inv_def by blast
qed

end
