(* ===== verification/Scheduler_Loop.thy ===== *)
theory Scheduler_Loop
  imports Scheduler_Inv
begin

text \<open>
  The loop of \<^verbatim>\<open>src/scheduler.cpp\<close> keeps the safety invariant of \<open>Scheduler_Inv\<close>: \<open>spawn\<close>, \<open>post\<close>,
  \<open>drain\<close> with everything it calls, and \<open>reap\<close>. The kernel is any implementation of the ring
  interface: it takes staged entries from the front, and completes each entry it has taken once.
  The runs of a scheduler are a step relation with a flag for the two situations the code does not
  guard against; every state reached without them satisfies the invariant, so that no completion
  reaches a dead frame.
\<close>

section \<open>The kernel's contract\<close>

text \<open>\<open>infl k\<close>: the \<open>user_data\<close> of the entries taken and not yet completed.\<close>

locale uring_kernel =
  fixes os :: "'k os" and infl :: "'k \<Rightarrow> ptr multiset"
  assumes enter_taken: "os_enter os es mc room k = (resp, k') \<Longrightarrow> er_taken resp \<le> length es"
    and enter_room: "os_enter os es mc room k = (resp, k') \<Longrightarrow> length (er_cqes resp) \<le> room"
    and enter_conserves: "os_enter os es mc room k = (resp, k') \<Longrightarrow>
      mset (map cqe_user_data (er_cqes resp)) + infl k' = infl k + mset (map sqe_user_data (take (er_taken resp) es))"
    and write_keeps: "os_write os fd k = (ok, k') \<Longrightarrow> infl k' = infl k"
    and eventfd_keeps: "os_eventfd os k = (fd, k') \<Longrightarrow> infl k' = infl k"

definition live_q :: "('k \<Rightarrow> ptr multiset) \<Rightarrow> ('j, 'k) sched \<Rightarrow> ptr multiset" where
  "live_q infl s = infl (kst s) + mset (map cqe_user_data (cq_ready (ring s)))"

definition safe :: "('k \<Rightarrow> ptr multiset) \<Rightarrow> ('j, 'k) sched \<Rightarrow> bool" where
  "safe infl s \<longleftrightarrow> sched_inv (live_q infl s) s"

lemma sched_inv_sum:
  assumes "sched_inv Q s" "calm s'" "frames s' = frames s" "aws s' = aws s" "tasks s' = tasks s"
    and "sq_uds (ring s') + Q' = sq_uds (ring s) + Q"
  shows "sched_inv Q' s'"
proof -
  obtain ch lf where "owns s ch lf" "outstanding Q s lf" using assms(1) by (auto simp: sched_inv_def)
  then have "owns s' ch lf" "outstanding Q' s' lf"
    using assms owns_cong [of s' s] unfinished_cong [of s' s] unfolding outstanding_def by simp_all
  then show ?thesis using assms(2) by (auto simp: sched_inv_def)
qed

lemma sched_inv_drop:
  assumes "sched_inv (add_mset p Q) s" "\<not> is_aw p"
  shows "sched_inv Q s"
  using assms by (fastforce simp: sched_inv_def outstanding_def)

lemma sched_inv_add:
  assumes "sched_inv Q s" "p = NullPtr \<or> p = EventfdBuf"
  shows "sched_inv (add_mset p Q) s"
  using assms by (fastforce simp: sched_inv_def outstanding_def)

lemma sched_inv_calm: "sched_inv Q s \<Longrightarrow> calm s"
  by (simp add: sched_inv_def)

section \<open>Jobs\<close>

text \<open>
  A posted callable may spawn tasks, post more work and have effects of its own; it must leave the
  invariant in place. \<open>spawn\<close> does, as shown below.
\<close>

definition keeps_safe :: "('k \<Rightarrow> ptr multiset) \<Rightarrow> ('j, 'k) sched \<Rightarrow> ('j, 'k) sched \<Rightarrow> bool" where
  "keeps_safe infl s s' \<longleftrightarrow> same_loop s s' \<and> infl (kst s') = infl (kst s) \<and> (\<forall>Q. sched_inv Q s \<longrightarrow> sched_inv Q s')"

definition jobs_ok :: "('k \<Rightarrow> ptr multiset) \<Rightarrow> ('j, 'k) invoke \<Rightarrow> bool" where
  "jobs_ok infl invoke \<longleftrightarrow> (\<forall>j s Q. sched_inv Q s \<longrightarrow> keeps_safe infl s (snd (invoke j s)))"

lemma keeps_safe_refl [simp]: "keeps_safe infl s s"
  by (simp add: keeps_safe_def same_loop_def)

lemma keeps_safe_trans: "keeps_safe infl s s1 \<Longrightarrow> keeps_safe infl s1 s2 \<Longrightarrow> keeps_safe infl s s2"
  by (auto simp: keeps_safe_def same_loop_def intro: cq_same_trans)

lemma sched_inv_cong:
  assumes "ring s' = ring s" "frames s' = frames s" "aws s' = aws s" "tasks s' = tasks s" "ub_flag s' = ub_flag s"
    "current s' = current s" "tl_sq_full s' = tl_sq_full s" "sched_inv Q s"
  shows "sched_inv Q s'"
  using assms sched_inv_calm [OF assms(8)] by (intro sched_inv_sum [OF assms(8)]) (simp_all add: calm_def)

lemma keeps_safe_flags [simp]:
  "keeps_safe infl s (s\<lparr>inbox := b\<rparr>)" "keeps_safe infl s (s\<lparr>eventfd_armed := a\<rparr>)"
  unfolding keeps_safe_def by (auto simp: same_loop_def elim!: sched_inv_cong [rotated 7])

text \<open>The loop as a fold over the completions that were there when \<open>drain\<close> read the tail.\<close>

fun process_all :: "'k os \<Rightarrow> ('j, 'k) invoke \<Rightarrow> cqe list \<Rightarrow> ('j, 'k) sched \<Rightarrow> exn option \<times> ('j, 'k) sched" where
  "process_all os invoke [] s = (None, s)"
| "process_all os invoke (c # cs) s =
     (case process_cqe os invoke c s of
        (Some e, s') \<Rightarrow> (Some e, s')
      | (None, s') \<Rightarrow> process_all os invoke cs (s'\<lparr>ring := cq_advance (ring s')\<rparr>))"

section \<open>Arming the eventfd read\<close>

lemma arm_stages:
  "arm_eventfd_read s = s\<lparr>ring := stage_with (ring s) (eventfd_read_sqe (eventfd s)), eventfd_armed := True\<rparr>"
  by (simp add: arm_eventfd_read_def stage_with_def commit_one_def write_sqe_def Let_def)

lemma arm_inv:
  assumes "sched_inv Q s" "sq_len (ring s) < unat (sq_entries (ring s))"
  shows "sched_inv Q (arm_eventfd_read s)" "same_loop s (arm_eventfd_read s)"
proof -
  let ?r = "stage_with (ring s) (eventfd_read_sqe (eventfd s))"
  have c: "calm s" using assms(1) by (rule sched_inv_calm)
  then have ok: "sq_ok (ring s)" by (simp add: calm_def ring_ok_def)
  have "sq_uds ?r = add_mset EventfdBuf (sq_uds (ring s))"
    by (simp add: sq_uds_def sq_pending_stage [OF ok assms(2)] eventfd_read_sqe_def)
  then have "sched_inv Q (s\<lparr>ring := ?r, eventfd_armed := True\<rparr>)"
    using c by (intro sched_inv_sum [OF sched_inv_add [OF assms(1), of EventfdBuf]])
      (simp_all add: calm_def ring_ok_def sq_ok_stage [OF ok assms(2)])
  then show "sched_inv Q (arm_eventfd_read s)" by (simp add: arm_stages)
  show "same_loop s (arm_eventfd_read s)" by (simp add: arm_stages same_loop_def cq_same_def)
qed

section \<open>Entering the kernel\<close>

context uring_kernel
begin

lemma enter_flow:
  assumes "safe infl s"
  shows "safe infl (io_uring_enter os n mc s)"
    "sq_uds (ring (io_uring_enter os n mc s)) + live_q infl (io_uring_enter os n mc s) = sq_uds (ring s) + live_q infl s"
    "\<exists>es room resp k'. os_enter os es mc room (kst s) = (resp, k') \<and> kst (io_uring_enter os n mc s) = k'
      \<and> cq_ready (ring (io_uring_enter os n mc s)) = cq_ready (ring s) @ er_cqes resp"
proof -
  let ?r = "ring s" and ?es = "take (unat n) (sq_pending (ring s))" and ?room = "unat (cq_entries (ring s)) - cq_len (ring s)"
  obtain resp k' where e: "os_enter os ?es mc ?room (kst s) = (resp, k')" by fastforce
  let ?r' = "fold post_cqe (er_cqes resp) (consume_sq (er_taken resp) ?r)"
  have s': "io_uring_enter os n mc s = s\<lparr>ring := ?r', kst := k'\<rparr>" by (simp add: io_uring_enter_def e)
  have inv: "sched_inv (live_q infl s) s" using assms by (simp add: safe_def)
  have c: "calm s" using inv by (rule sched_inv_calm)
  then have ok: "sq_ok ?r" "cq_ok ?r" by (simp_all add: calm_def ring_ok_def)
  have t: "er_taken resp \<le> sq_len ?r" "er_taken resp \<le> unat n" using enter_taken [OF e] by auto
  have "cq_len ?r + length (er_cqes resp) \<le> unat (cq_entries ?r)"
    using enter_room [OF e] ok(2) unfolding cq_ok_def by linarith
  then have cq: "cq_ready ?r' = cq_ready ?r @ er_cqes resp" "cq_ok ?r'"
    using cq_post_all [of "consume_sq (er_taken resp) ?r"] ok(2) by auto
  have sq: "sq_pending ?r' = drop (er_taken resp) (sq_pending ?r)" "sq_ok ?r'"
    using t ok sq_pending_consume sq_ok_consume by simp_all
  have "take (er_taken resp) ?es = take (er_taken resp) (sq_pending ?r)" using t by (simp add: min_absorb1)
  then have con: "mset (map cqe_user_data (er_cqes resp)) + infl k' =
      infl (kst s) + mset (map sqe_user_data (take (er_taken resp) (sq_pending ?r)))"
    using enter_conserves [OF e] by simp
  have "sq_uds ?r = mset (map sqe_user_data (take (er_taken resp) (sq_pending ?r))) + sq_uds ?r'"
    unfolding sq_uds_def sq(1) by (metis append_take_drop_id map_append mset_append)
  then have flow: "sq_uds ?r' + live_q infl (s\<lparr>ring := ?r', kst := k'\<rparr>) = sq_uds ?r + live_q infl s"
    using con by (simp add: live_q_def cq(1) ac_simps)
  then show "safe infl (io_uring_enter os n mc s)"
    unfolding safe_def s' using c cq(2) sq(2)
    by (intro sched_inv_sum [OF inv]) (simp_all add: calm_def ring_ok_def)
  show "sq_uds (ring (io_uring_enter os n mc s)) + live_q infl (io_uring_enter os n mc s) = sq_uds ?r + live_q infl s"
    using flow by (simp add: s')
  show "\<exists>es room resp k'. os_enter os es mc room (kst s) = (resp, k') \<and> kst (io_uring_enter os n mc s) = k'
      \<and> cq_ready (ring (io_uring_enter os n mc s)) = cq_ready (ring s) @ er_cqes resp"
    using e cq(1) by (auto simp: s')
qed

lemmas enter_safe = enter_flow(1)

section \<open>Processing completions\<close>

lemma poke_keeps: "keeps_safe infl s (snd (poke_eventfd os s))"
  unfolding keeps_safe_def
  by (auto simp: poke_eventfd_def same_loop_def write_keeps split: prod.splits elim!: sched_inv_cong [rotated 7])

lemma drain_local_keeps:
  assumes "jobs_ok infl invoke" "sched_inv Q s"
  shows "keeps_safe infl s (snd (drain_local os invoke js s))"
  using assms
proof (induction js arbitrary: s)
  case (Cons j js)
  obtain e s1 where i: "invoke j s = (e, s1)" by fastforce
  have k1: "keeps_safe infl s s1" using Cons.prems i unfolding jobs_ok_def by (metis snd_conv)
  then have i1: "sched_inv Q s1" using Cons.prems by (simp add: keeps_safe_def)
  let ?s2 = "snd (poke_eventfd os (s1\<lparr>inbox := inbox s1 @ [j]\<rparr>))"
  have k2: "keeps_safe infl s1 ?s2" by (rule keeps_safe_trans [OF keeps_safe_flags(1) poke_keeps])
  then have i2: "sched_inv Q ?s2" using i1 by (simp add: keeps_safe_def)
  note IH = Cons.IH [OF Cons.prems(1)]
  show ?case
    using i keeps_safe_trans [OF k1 IH [OF i1]] keeps_safe_trans [OF k1 keeps_safe_trans [OF k2 IH [OF i2]]] k1
    by (auto split: option.split exn.split)
qed simp

lemma drain_inbox_keeps:
  assumes "jobs_ok infl invoke" "sched_inv Q s"
  shows "keeps_safe infl s (snd (drain_inbox os invoke s))"
proof -
  have "sched_inv Q (s\<lparr>inbox := []\<rparr>)" using keeps_safe_flags(1) [of infl s] assms(2) by (simp add: keeps_safe_def)
  from drain_local_keeps [OF assms(1) this] show ?thesis
    unfolding drain_inbox_def by (rule keeps_safe_trans [OF keeps_safe_flags(1)])
qed

text \<open>One completion \<open>c\<close>, the others outstanding being \<open>Q\<close>.\<close>

lemma process_cqe_inv:
  assumes jobs: "jobs_ok infl invoke" and inv: "sched_inv (add_mset (cqe_user_data c) Q) s"
    and p: "process_cqe os invoke c s = (e, s')"
  shows "sched_inv Q s'" "same_loop s s'" "infl (kst s') = infl (kst s)" "e = None \<or> cqe_user_data c = EventfdBuf"
proof -
  let ?u = "cqe_user_data c"
  have "is_aw ?u \<or> ?u = NullPtr \<or> ?u = EventfdBuf"
    using inv by (auto simp: sched_inv_def outstanding_def)
  then consider a where "?u = AwPtr a" | "?u = NullPtr" | "?u = EventfdBuf" by (cases ?u) auto
  then have "sched_inv Q s' \<and> same_loop s s' \<and> infl (kst s') = infl (kst s) \<and> (e = None \<or> ?u = EventfdBuf)"
  proof cases
    case 1
    then have "e = None" "s' = deliver a (cqe_res c) s" using p by (auto simp: process_cqe_def)
    then show ?thesis using deliver_inv deliver_frame inv 1 by metis
  next
    case 2
    then have "e = None" "s' = s" using p by (auto simp: process_cqe_def)
    then show ?thesis using sched_inv_drop [OF inv] 2 by (simp add: same_loop_def)
  next
    case 3
    let ?s0 = "s\<lparr>eventfd_armed := False\<rparr>"
    have "sched_inv Q s" using sched_inv_drop [OF inv] 3 by simp
    moreover from this have "sched_inv Q ?s0" using keeps_safe_flags(2) [of infl s] by (simp add: keeps_safe_def)
    moreover have "s' = snd (drain_inbox os invoke ?s0)" using p 3 by (simp add: process_cqe_def)
    ultimately have "keeps_safe infl s s'" "sched_inv Q s"
      using drain_inbox_keeps [OF jobs, of Q ?s0] keeps_safe_trans [OF keeps_safe_flags(2)] by auto
    then show ?thesis using 3 by (simp add: keeps_safe_def)
  qed
  then show "sched_inv Q s'" "same_loop s s'" "infl (kst s') = infl (kst s)" "e = None \<or> ?u = EventfdBuf" by auto
qed

text \<open>The body of the loop of \<open>drain\<close>: the completion at the head, then the head store.\<close>

lemma cqe_step:
  assumes jobs: "jobs_ok infl invoke" and safe: "safe infl s" and ne: "cq_head (ring s) \<noteq> cq_tail (ring s)"
    and p: "process_cqe os invoke (cq_front (ring s)) s = (e1, s1)"
  shows "cq_same (ring s) (ring s1)" "e1 \<noteq> None \<Longrightarrow> safe infl s1"
    "safe infl (s1\<lparr>ring := cq_advance (ring s1)\<rparr>)" "cq_ready (cq_advance (ring s1)) = tl (cq_ready (ring s))"
    "cq_ready (ring s) = cq_front (ring s) # tl (cq_ready (ring s))"
proof -
  let ?r = "ring s" and ?c = "cq_front (ring s)"
  have ok: "cq_ok ?r" using safe sched_inv_calm by (fastforce simp: safe_def calm_def ring_ok_def)
  show ready: "cq_ready ?r = ?c # tl (cq_ready ?r)"
    using cq.nonempty_iff [OF ok] cq.front_hd [OF ok] ne by simp
  let ?Q = "infl (kst s) + mset (map cqe_user_data (tl (cq_ready ?r)))"
  have lq: "live_q infl s = add_mset (cqe_user_data ?c) ?Q"
    unfolding live_q_def by (subst ready) simp
  then have inv: "sched_inv (add_mset (cqe_user_data ?c) ?Q) s" using safe by (simp add: safe_def)
  note pi = process_cqe_inv [OF jobs inv p]
  show cs: "cq_same ?r (ring s1)" using pi(2) by (simp add: same_loop_def)
  show "safe infl s1" if "e1 \<noteq> None"
  proof -
    have "sched_inv (live_q infl s) s1" using sched_inv_add [OF pi(1)] pi(4) that by (simp add: lq)
    moreover have "live_q infl s1 = live_q infl s" using pi(3) cq_same_abs [OF cs] by (simp add: live_q_def)
    ultimately show ?thesis by (simp add: safe_def)
  qed
  have ne1: "cq_head (ring s1) \<noteq> cq_tail (ring s1)" using ne cs by (simp add: cq_same_def)
  show r2: "cq_ready (cq_advance (ring s1)) = tl (cq_ready ?r)"
    using cq_ready_advance [OF ne1] cq_same_abs [OF cs] by simp
  let ?s2 = "s1\<lparr>ring := cq_advance (ring s1)\<rparr>"
  have "calm ?s2"
    using sched_inv_calm [OF pi(1)] cq.good_advance [of "ring s1"] ne1
    by (simp add: calm_def ring_ok_def cq_advance_def)
  moreover have "sq_uds (ring ?s2) + live_q infl ?s2 = sq_uds (ring s1) + ?Q"
    using r2 pi(3) by (simp add: live_q_def) (simp add: sq_uds_def cq_advance_def)
  ultimately show "safe infl ?s2" unfolding safe_def by (intro sched_inv_sum [OF pi(1)]) simp_all
qed

lemma drain_cqes_all:
  assumes "jobs_ok infl invoke" "safe infl s"
    and "drain_cqes os invoke (cq_mask (ring s)) (cq_head (ring s)) (cq_tail (ring s)) s = (e, s')"
  shows "safe infl s'" "process_all os invoke (cq_ready (ring s)) s = (e, s')" "e = None \<Longrightarrow> cq_ready (ring s') = []"
proof -
  have "safe infl s' \<and> process_all os invoke (cq_ready (ring s)) s = (e, s') \<and> (e = None \<longrightarrow> cq_ready (ring s') = [])"
    using assms
  proof (induction "cq_len (ring s)" arbitrary: s rule: less_induct)
    case less
    let ?r = "ring s"
    note step = less.prems(3) [unfolded drain_cqes.simps [of os invoke _ "cq_head ?r"]]
    show ?case
    proof (cases "cq_head ?r = cq_tail ?r")
      case True
      then have "cq_ready ?r = []" by (simp add: cq_ready_def cq_len_def)
      then show ?thesis using step less.prems(2) True by auto
    next
      case False
      obtain e1 s1 where p: "process_cqe os invoke (cq_front ?r) s = (e1, s1)" by fastforce
      note cs = cqe_step [OF less.prems(1,2) False p]
      show ?thesis
      proof (cases e1)
        case (Some x)
        then have "s' = s1" "e = Some x" using step p False by (auto simp: cq_front_def)
        then show ?thesis using cs(2) Some p by (subst cs(5)) simp
      next
        case None
        let ?s2 = "s1\<lparr>ring := cq_advance (ring s1)\<rparr>"
        have "length (cq_ready (ring ?s2)) < length (cq_ready ?r)" by (subst cs(5)) (simp add: cs(4))
        moreover have "drain_cqes os invoke (cq_mask (ring ?s2)) (cq_head (ring ?s2)) (cq_tail (ring ?s2)) ?s2 = (e, s')"
          using step p None False cs(1) by (simp add: cq_front_def cq_advance_def store_cq_head_def cq_same_def)
        ultimately have "safe infl s' \<and> process_all os invoke (cq_ready (ring ?s2)) ?s2 = (e, s')
            \<and> (e = None \<longrightarrow> cq_ready (ring s') = [])"
          using less.hyps [of ?s2] less.prems(1) cs(3) by simp
        then show ?thesis using p None cs(4) by (subst cs(5)) simp
      qed
    qed
  qed
  then show "safe infl s'" "process_all os invoke (cq_ready (ring s)) s = (e, s')" "e = None \<Longrightarrow> cq_ready (ring s') = []"
    by auto
qed

text \<open>What every completion preserves holds when the loop is done.\<close>

lemma drain_cqes_invariant:
  assumes jobs: "jobs_ok infl invoke" and "safe infl s" "P s"
    and step: "\<And>s c cs e s1. safe infl s \<Longrightarrow> P s \<Longrightarrow> cq_ready (ring s) = c # cs \<Longrightarrow> process_cqe os invoke c s = (e, s1) \<Longrightarrow>
      cq_ready (cq_advance (ring s1)) = cs \<Longrightarrow> safe infl (s1\<lparr>ring := cq_advance (ring s1)\<rparr>) \<Longrightarrow> cq_same (ring s) (ring s1) \<Longrightarrow>
      infl (kst s1) = infl (kst s) \<Longrightarrow> e = None \<and> P (s1\<lparr>ring := cq_advance (ring s1)\<rparr>)"
  shows "\<exists>s'. drain_cqes os invoke (cq_mask (ring s)) (cq_head (ring s)) (cq_tail (ring s)) s = (None, s') \<and> P s' \<and> safe infl s'
    \<and> cq_ready (ring s') = []"
proof -
  have "\<exists>s'. process_all os invoke (cq_ready (ring s)) s = (None, s') \<and> P s'"
    using assms(2,3)
  proof (induction "cq_ready (ring s)" arbitrary: s)
    case Nil
    have "cq_ready (ring s) = []" using Nil.hyps by simp
    then show ?case using Nil.prems by simp
  next
    case (Cons c cs)
    have ne: "cq_head (ring s) \<noteq> cq_tail (ring s)" using Cons.hyps(2) by (auto simp: cq_ready_def cq_len_def)
    obtain e s1 where p: "process_cqe os invoke (cq_front (ring s)) s = (e, s1)" by fastforce
    note st = cqe_step [OF jobs Cons.prems(1) ne p]
    have c: "c = cq_front (ring s)" "cs = tl (cq_ready (ring s))" using st(5) Cons.hyps(2) by (metis list.sel(1), metis list.sel(3))
    have "live_q infl s = add_mset (cqe_user_data c) (infl (kst s) + mset (map cqe_user_data cs))"
      by (simp add: live_q_def flip: Cons.hyps(2))
    then have "sched_inv (add_mset (cqe_user_data c) (infl (kst s) + mset (map cqe_user_data cs))) s"
      using Cons.prems(1) by (simp add: safe_def)
    then have k: "infl (kst s1) = infl (kst s)" using process_cqe_inv(3) [OF jobs _ p] c(1) by blast
    have r: "cq_ready (cq_advance (ring s1)) = cs" using st(4) c(2) by simp
    have "e = None \<and> P (s1\<lparr>ring := cq_advance (ring s1)\<rparr>)"
      by (rule step [OF Cons.prems Cons.hyps(2) [symmetric] p [folded c(1)] r st(3,1) k])
    then show ?case
      using Cons.hyps(1) [of "s1\<lparr>ring := cq_advance (ring s1)\<rparr>"] r st(3) p c(1) by (simp flip: Cons.hyps(2))
  qed
  then obtain s' where s': "process_all os invoke (cq_ready (ring s)) s = (None, s')" "P s'" by blast
  from drain_cqes_all [OF jobs assms(2) prod.collapse [symmetric]] s' show ?thesis
    by (metis fst_conv prod.collapse snd_conv)
qed

lemma drain_safe:
  assumes "jobs_ok infl invoke" "safe infl s" "eventfd_armed s \<or> sq_len (ring s) < unat (sq_entries (ring s))"
    and "drain os invoke s = (e, s')"
  shows "safe infl s'"
proof -
  let ?s0 = "if \<not> eventfd_armed s then arm_eventfd_read s else s"
  have "live_q infl (arm_eventfd_read s) = live_q infl s"
    by (simp add: arm_stages live_q_def)
  then have "safe infl ?s0" using assms(2,3) arm_inv(1) by (auto simp: safe_def)
  from drain_cqes_all(1) [OF assms(1) enter_safe [OF this]] assms(4) show ?thesis
    by (simp add: drain_def Let_def)
qed

end

section \<open>reap\<close>

lemma fold_dtor_final:
  assumes "distinct ts"
    "\<forall>t \<in> set ts. \<exists>h. t = Some h \<and> h < length (frames m) \<and> fr_status (frames m ! h) = Final \<and> \<not> fr_destroyed (frames m ! h)"
  shows "fold Task_dtor ts m = m\<lparr>frames := map (\<lambda>i. if Some i \<in> set ts then (frames m ! i)\<lparr>fr_destroyed := True\<rparr>
      else frames m ! i) [0..<length (frames m)]\<rparr>"
  using assms
proof (induction ts arbitrary: m)
  case Nil
  then show ?case by (simp add: map_nth)
next
  case (Cons t ts)
  then obtain h where h: "t = Some h" "h < length (frames m)" "fr_status (frames m ! h) = Final" "\<not> fr_destroyed (frames m ! h)"
    by auto
  let ?m = "m\<lparr>frames := (frames m)[h := (frames m ! h)\<lparr>fr_destroyed := True\<rparr>]\<rparr>"
  have d: "Task_dtor t m = ?m" using h by (simp add: Task_dtor_def destroy_def destroy_final Let_def)
  have "\<forall>t' \<in> set ts. \<exists>i. t' = Some i \<and> i < length (frames ?m) \<and> fr_status (frames ?m ! i) = Final \<and> \<not> fr_destroyed (frames ?m ! i)"
  proof
    fix t' assume "t' \<in> set ts"
    moreover from this obtain i where i: "t' = Some i" "i < length (frames m)" "fr_status (frames m ! i) = Final"
      "\<not> fr_destroyed (frames m ! i)" using Cons.prems(2) by auto
    ultimately have "i \<noteq> h" using Cons.prems(1) h(1) by auto
    then show "\<exists>i. t' = Some i \<and> i < length (frames ?m) \<and> fr_status (frames ?m ! i) = Final \<and> \<not> fr_destroyed (frames ?m ! i)"
      using i by auto
  qed
  from Cons.IH [OF _ this] Cons.prems(1) have "fold Task_dtor ts ?m = ?m\<lparr>frames := map (\<lambda>i. if Some i \<in> set ts
      then (frames ?m ! i)\<lparr>fr_destroyed := True\<rparr> else frames ?m ! i) [0..<length (frames ?m)]\<rparr>" by simp
  moreover have "(if Some i \<in> set ts then (frames ?m ! i)\<lparr>fr_destroyed := True\<rparr> else frames ?m ! i) =
      (if Some i \<in> set (t # ts) then (frames m ! i)\<lparr>fr_destroyed := True\<rparr> else frames m ! i)" if "i < length (frames m)" for i
    using that h Cons.prems(1) by (auto simp: nth_list_update)
  ultimately show ?case by (simp add: d)
qed

text \<open>The frames after \<open>reap\<close>: those of finished tasks are gone, the others untouched.\<close>

definition reaped_frames :: "('j, 'k) sched \<Rightarrow> frame list" where
  "reaped_frames s = map (\<lambda>i. if Some i \<in> set (filter (Task_done s) (tasks s)) then (frames s ! i)\<lparr>fr_destroyed := True\<rparr>
      else frames s ! i) [0..<length (frames s)]"

lemma reap_effect:
  assumes "sched_inv Q s"
  shows "reap s = s\<lparr>tasks := unfinished s, frames := reaped_frames s\<rparr>"
proof -
  obtain ch lf where o: "owns s ch lf" using assms by (auto simp: sched_inv_def)
  let ?s = "s\<lparr>tasks := unfinished s\<rparr>"
  have "\<forall>t \<in> set (filter (Task_done s) (tasks s)).
      \<exists>h. t = Some h \<and> h < length (frames ?s) \<and> fr_status (frames ?s ! h) = Final \<and> \<not> fr_destroyed (frames ?s ! h)"
  proof
    fix t assume "t \<in> set (filter (Task_done s) (tasks s))"
    then have t: "t \<in> set (tasks s)" "Task_done s t" by simp_all
    moreover have "None \<notin> set (tasks s)" using o by (simp add: owns_def)
    ultimately obtain h where h: "t = Some h" by (metis option.exhaust)
    then have "task_root s h (ch h) (lf h)" "frame_done s h" using o t by (auto simp: owns_def Task_done_def)
    then show "\<exists>h. t = Some h \<and> h < length (frames ?s) \<and> fr_status (frames ?s ! h) = Final \<and> \<not> fr_destroyed (frames ?s ! h)"
      using h by (auto simp: task_root_def frame_done_def split: fstatus.splits)
  qed
  from fold_dtor_final [OF _ this] o show ?thesis
    by (simp add: reap_def unfinished_def reaped_frames_def owns_def)
qed

lemma reap_frames_kept:
  assumes o: "owns s ch lf" and h: "Some h \<in> set (unfinished s)" and i: "i \<in> set (ch h)"
  shows "reaped_frames s ! i = frames s ! i"
proof -
  have h': "Some h \<in> set (tasks s)" "\<not> frame_done s h" using h by (auto simp: unfinished_def Task_done_def)
  have lt: "i < length (frames s)" using task_root_mem [OF owns_mem [OF o h'(1)]] i by blast
  have "Some i \<notin> set (filter (Task_done s) (tasks s))"
  proof
    assume "Some i \<in> set (filter (Task_done s) (tasks s))"
    then have i': "Some i \<in> set (tasks s)" "frame_done s i" by (auto simp: Task_done_def)
    then have "i \<noteq> h" using h' by auto
    moreover have "i \<in> set (ch i)" using task_root_mem [OF owns_mem [OF o i'(1)]] by blast
    ultimately show False using o i' h' i by (auto simp: owns_def)
  qed
  then show ?thesis using lt by (auto simp: reaped_frames_def)
qed

lemma reap_inv:
  assumes "sched_inv Q s"
  shows "sched_inv Q (reap s)"
proof -
  obtain ch lf where c: "calm s" and o: "owns s ch lf" and out: "outstanding Q s lf"
    using assms by (auto simp: sched_inv_def)
  let ?s = "s\<lparr>tasks := unfinished s, frames := reaped_frames s\<rparr>"
  have len: "length (frames s) \<le> length (frames ?s)" by (simp add: reaped_frames_def)
  have sub: "set (unfinished s) \<subseteq> set (tasks s)" "distinct (unfinished s)" using o by (auto simp: unfinished_def owns_def)
  have keep: "task_root ?s h (ch h) (lf h) \<and> frame_done ?s h = frame_done s h" if "Some h \<in> set (unfinished s)" for h
    using task_root_keep [OF owns_mem [OF o] len, of h] reap_frames_kept [OF o that] sub that by (auto simp: aws_kept_def)
  have "set (ch h) \<inter> set (ch h') = {}" if "Some h \<in> set (unfinished s)" "Some h' \<in> set (unfinished s)" "h \<noteq> h'" for h h'
    using o sub(1) that unfolding owns_def by blast
  moreover have "None \<notin> set (unfinished s)" using o sub(1) unfolding owns_def by blast
  ultimately have own: "owns ?s ch lf" using sub(2) keep by (simp add: owns_def)
  have "\<not> Task_done ?s t" if "t \<in> set (unfinished s)" for t
    using keep that by (cases t) (auto simp: Task_done_def unfinished_def)
  then have "filter (\<lambda>t. \<not> Task_done ?s t) (unfinished s) = unfinished s" by (intro filter_True) simp
  then have "unfinished ?s = unfinished s" by (simp add: unfinished_def)
  then have "outstanding Q ?s lf" using out by (simp add: outstanding_def)
  then show ?thesis unfolding reap_effect [OF assms] using c own by (auto simp: sched_inv_def calm_def)
qed

section \<open>spawn\<close>

lemma owns_add:
  assumes o: "owns s ch lf" and t: "tasks s' = tasks s @ [Some h]" and h: "length (frames s) \<le> h"
    and root: "task_root s' h hs b" and sub: "set hs \<subseteq> {length (frames s)..}"
    and len: "length (frames s) \<le> length (frames s')" and aw: "aws_kept s s'"
    and keep: "\<forall>i < length (frames s). frames s' ! i = frames s ! i"
  shows "owns s' (ch(h := hs)) (lf(h := b))"
    "\<And>h'. Some h' \<in> set (tasks s) \<Longrightarrow> h' \<noteq> h \<and> frame_done s' h' = frame_done s h'"
proof -
  have lt: "\<forall>i \<in> set (ch h'). i < length (frames s)" "h' < length (frames s)" if "Some h' \<in> set (tasks s)" for h'
    using task_root_mem [OF owns_mem [OF o that]] by auto
  have rt: "task_root s' h' (ch h') (lf h')" "frame_done s' h' = frame_done s h'" if "Some h' \<in> set (tasks s)" for h'
    using task_root_keep [OF owns_mem [OF o that] len _ aw] keep lt [OF that] by auto
  then show "\<And>h'. Some h' \<in> set (tasks s) \<Longrightarrow> h' \<noteq> h \<and> frame_done s' h' = frame_done s h'"
    using lt(2) h by fastforce
  have new: "Some h \<notin> set (tasks s)" using lt(2) h by force
  have dis: "set hs \<inter> set (ch h') = {}" if "Some h' \<in> set (tasks s)" for h'
    using sub lt(1) [OF that] by fastforce
  have ne: "h' \<noteq> h" if "Some h' \<in> set (tasks s)" for h' using new that by auto
  show "owns s' (ch(h := hs)) (lf(h := b))"
    unfolding owns_def t using o new root rt(1) dis ne by (auto simp: owns_def Int_commute)
qed

lemma spawn_runs:
  assumes inv: "sched_inv Q s" and m: "make_task TVoid c s = (h, s0)"
  obtains hs b where "h = length (frames s)" "ran {h} h (s0\<lparr>current := Some h\<rparr>) (resume_handle h s0) hs b"
    "s0 = s\<lparr>frames := frames s @ [new_frame TVoid c]\<rparr>"
proof -
  have h: "h = length (frames s)" "s0 = s\<lparr>frames := frames s @ [new_frame TVoid c]\<rparr>"
    using m by (auto simp: make_task_def)
  then have "lands {h} h (s0\<lparr>current := Some h\<rparr>) (exec c (mst (s0\<lparr>current := Some h\<rparr>))) (resume_handle h s0)"
    using resume_new [of h s0 TVoid c] by (simp add: mst_def)
  from lands_ran [OF this] obtain hs b where "ran {h} h (s0\<lparr>current := Some h\<rparr>) (resume_handle h s0) hs b"
    using h sched_inv_calm [OF inv] by (auto simp: calm_def new_frame_def)
  with h that show thesis by blast
qed

lemma spawn_keeps:
  assumes inv: "sched_inv Q s" and sp: "spawn_call os c s = (None, s')"
  shows "sched_inv Q s'" "same_loop s s'" "kst s' = kst s" "inbox s' = inbox s" "eventfd_armed s' = eventfd_armed s"
    "tasks s' = tasks s @ [Some (length (frames s))]"
    "count (sq_uds (ring s')) EventfdBuf = count (sq_uds (ring s)) EventfdBuf"
proof -
  obtain ch lf where c: "calm s" and o: "owns s ch lf" and out: "outstanding Q s lf"
    using inv by (auto simp: sched_inv_def)
  obtain h s0 where m: "make_task TVoid c s = (h, s0)" by fastforce
  obtain hs b where h: "h = length (frames s)" and s0: "s0 = s\<lparr>frames := frames s @ [new_frame TVoid c]\<rparr>"
    and r: "ran {h} h (s0\<lparr>current := Some h\<rparr>) (resume_handle h s0) hs b"
    using spawn_runs [OF inv m] by metis
  define s1 where "s1 = resume_handle h s0"
  have k: "keeps {h} h (s0\<lparr>current := Some h\<rparr>) s1" using r by (simp add: ran_def s1_def)
  have more: "mach.more s1 = mach.more (s0\<lparr>current := Some h\<rparr>)" using k by (simp add: keeps_def)
  note f = more_fields [OF more]
  have nt: "\<not> tl_sq_full s1" and s': "s' = s1\<lparr>tl_sq_full := False, tasks := tasks s1 @ [Some h]\<rparr>"
    using sp m
    by (auto simp: spawn_call_def Scheduler_spawn_def s1_def take_pending_sq_error_def Let_def Task_move_def Task_dtor_def
        split: if_splits option.splits prod.splits)
  show t: "tasks s' = tasks s @ [Some (length (frames s))]" using f by (simp add: s' s0 h)
  show "kst s' = kst s" "inbox s' = inbox s" "eventfd_armed s' = eventfd_armed s" "same_loop s s'"
    "count (sq_uds (ring s')) EventfdBuf = count (sq_uds (ring s)) EventfdBuf"
    using f r by (simp_all add: s' s0 same_loop_def ran_def s1_def)
  have root: "task_root s' h hs b" using r by (simp add: ran_def s' task_root_def frame_done_def s1_def)
  have sub: "set hs \<subseteq> {length (frames s)..}" using r by (auto simp: ran_def s0 h)
  have fr: "length (frames s) \<le> length (frames s')" "\<forall>i < length (frames s). frames s' ! i = frames s ! i"
    using k by (auto simp: keeps_def s' s0 h nth_append)
  have aw: "aws_kept s s'" using keeps_aws_kept [OF k] by (simp add: aws_kept_def s' s0)
  note own = owns_add [OF o t [folded h] _ root sub fr(1) aw fr(2)]
  have "map (\<lambda>t. AwPtr ((lf(h := b)) (the t))) (filter (\<lambda>t. \<not> Task_done s' t) (tasks s))
      = map (\<lambda>t. AwPtr (lf (the t))) (filter (\<lambda>t. \<not> Task_done s t) (tasks s))"
  proof -
    have "t = Some (the t) \<and> the t \<noteq> h \<and> Task_done s' t = Task_done s t" if "t \<in> set (tasks s)" for t
      using own(2) [of "the t"] that o h by (cases t) (auto simp: owns_def Task_done_def)
    then show ?thesis by (intro map_cong filter_cong) auto
  qed
  then have "mset (map (\<lambda>t. AwPtr ((lf(h := b)) (the t))) (unfinished s'))
      = mset (map (\<lambda>t. AwPtr (lf (the t))) (unfinished s)) + (if frame_done s' h then {#} else {#AwPtr b#})"
    unfolding unfinished_def t h [symmetric] filter_append map_append mset_append by (simp add: Task_done_def)
  moreover have q: "filter_mset is_aw (sq_uds (ring s')) =
      filter_mset is_aw (sq_uds (ring s)) + (if frame_done s' h then {#} else {#AwPtr b#})"
    "\<forall>p \<in># sq_uds (ring s'). p \<in># sq_uds (ring s) \<or> is_aw p \<or> p = NullPtr"
    using r by (simp_all add: ran_def s' s0 frame_done_def s1_def)
  ultimately have "outstanding Q s' (lf(h := b))"
    using out unfolding outstanding_def filter_union_mset by (auto simp: ac_simps)
  moreover have "calm s'" using c r k nt by (simp add: calm_def ran_def keeps_def s' s0 s1_def)
  ultimately show "sched_inv Q s'" using own(1) h by (auto simp: sched_inv_def)
qed

text \<open>A full ring: \<open>spawn\<close> throws before the body has run; only the unused frame is made and destroyed.\<close>

lemma spawn_full:
  assumes "sq_entries (ring s) \<le> sq_tail (ring s) - sq_head (ring s)"
  shows "spawn_call os c s =
    (Some (IOExc SQFull), s\<lparr>frames := frames s @ [(new_frame TVoid c)\<lparr>fr_destroyed := True\<rparr>]\<rparr>)"
proof -
  have "destroy_frames (length (frames s)) (frames s @ [new_frame TVoid c])
      = (frames s @ [(new_frame TVoid c)\<lparr>fr_destroyed := True\<rparr>], True)"
    by (subst destroy_frames.simps) (simp add: new_frame_def nth_append)
  then show ?thesis
    using assms by (simp add: spawn_call_def make_task_def Scheduler_spawn_def Task_dtor_def destroy_def Let_def)
qed

lemma owns_grow:
  assumes "owns s ch lf"
  shows "owns (s\<lparr>frames := frames s @ fs\<rparr>) ch lf" "unfinished (s\<lparr>frames := frames s @ fs\<rparr>) = unfinished s"
proof -
  let ?s = "s\<lparr>frames := frames s @ fs\<rparr>"
  have k: "task_root ?s h (ch h) (lf h) \<and> frame_done ?s h = frame_done s h" if "Some h \<in> set (tasks s)" for h
    using task_root_keep [OF owns_mem [OF assms that], of ?s] task_root_mem [OF owns_mem [OF assms that]]
    by (auto simp: aws_kept_def nth_append)
  then show "owns ?s ch lf" using assms by (auto simp: owns_def)
  have "Task_done ?s t = Task_done s t" if "t \<in> set (tasks s)" for t
    using k that by (cases t) (auto simp: Task_done_def)
  then show "unfinished ?s = unfinished s" by (simp add: unfinished_def cong: filter_cong)
qed

lemma sched_inv_grow: "sched_inv Q s \<Longrightarrow> sched_inv Q (s\<lparr>frames := frames s @ fs\<rparr>)"
  using owns_grow [of s] by (fastforce simp: sched_inv_def outstanding_def calm_def)

text \<open>
  A body whose first awaited operation has no deadline needs one slot, which is what \<open>spawn\<close>
  checks for before it resumes: the check after \<open>resume()\<close> then never fires.
\<close>

primrec first_small :: "co \<Rightarrow> bool" where
  "first_small (CoReturn v) = True"
| "first_small (CoThrow e) = True"
| "first_small (CoAct ev c) = first_small c"
| "first_small (CoAwait op tmo k) = (tmo = None)"
| "first_small (CoAwaitTask ty c k) = (first_small c \<and> (\<forall>out. first_small (k out)))"

lemma exec_small:
  "first_small c \<Longrightarrow> has_capacity r 1 \<Longrightarrow> exec c (r, n, False, lg) = (res, (r', n', tls', lg')) \<Longrightarrow>
   \<not> tls' \<and> (case res of Done out \<Rightarrow> r' = r | Susp a f \<Rightarrow> True)"
proof (induction c arbitrary: r n lg res r' n' tls' lg')
  case (CoAct ev c)
  have "exec c (r, n, False, lg @ [ev]) = (res, (r', n', tls', lg'))" using CoAct.prems by simp
  from CoAct.IH [OF _ CoAct.prems(2) this] CoAct.prems(1) show ?case by simp
next
  case (CoAwait op tmo k)
  then have "needed_slots (mk_op op tmo) = 1" by (simp add: needed_slots_def mk_op_def mk_awaitable_def)
  then show ?case
    using CoAwait.prems by (auto simp: reserve_def await_suspend_def Let_def split: prod.splits)
next
  case (CoAwaitTask ty c k)
  obtain res1 r1 n1 tls1 lg1 where e1: "exec c (r, n, False, lg) = (res1, (r1, n1, tls1, lg1))"
    by (metis prod_cases5)
  have s1: "\<not> tls1 \<and> (case res1 of Done out \<Rightarrow> r1 = r | Susp a f \<Rightarrow> True)"
    using CoAwaitTask.IH(1) [OF _ CoAwaitTask.prems(2) e1] CoAwaitTask.prems(1) by simp
  show ?case
  proof (cases res1)
    case (Done out)
    then have "exec (k (coerce ty out)) (r, n1, False, lg1) = (res, (r', n', tls', lg'))"
      using s1 e1 CoAwaitTask.prems(3) by simp
    moreover have "first_small (k (coerce ty out))" using CoAwaitTask.prems(1) by simp
    ultimately show ?thesis using CoAwaitTask.IH(2) [OF _ _ CoAwaitTask.prems(2)] by blast
  next
    case (Susp a f)
    then show ?thesis using s1 e1 CoAwaitTask.prems(3) by auto
  qed
qed auto

lemma capacity_spawn:
  "sq_ok r \<Longrightarrow> sq_entries r \<le> sq_tail r - sq_head r \<longleftrightarrow> \<not> has_capacity r 1"
  by (simp add: has_capacity_1 word_le_nat_alt sq_len_def dist_def) linarith

lemma spawn_small:
  assumes inv: "sched_inv Q s" and small: "first_small c" and mem: "\<And>n k. os_can_grow os n k"
  shows "fst (spawn_call os c s) = (if has_capacity (ring s) 1 then None else Some (IOExc SQFull))"
proof (cases "has_capacity (ring s) 1")
  case True
  have ok: "sq_ok (ring s)" "\<not> tl_sq_full s" using sched_inv_calm [OF inv] by (simp_all add: calm_def ring_ok_def)
  let ?h = "length (frames s)" and ?s0 = "s\<lparr>frames := frames s @ [new_frame TVoid c]\<rparr>"
  obtain res r' n' tls' lg' where e: "exec c (mst ?s0) = (res, (r', n', tls', lg'))" by (metis prod_cases5)
  then have "\<not> tls'"
    using exec_small [OF small True, of "length (aws s)" "log s" res r' n' tls' lg'] ok by (simp add: mst_def)
  moreover have "tl_sq_full (resume_handle ?h ?s0) = tls'"
    using resume_new [of ?h ?s0 TVoid c] e by (simp add: lands_def mst_def)
  ultimately show ?thesis
    using True capacity_spawn [OF ok(1)] mem
    by (simp add: spawn_call_def make_task_def Scheduler_spawn_def take_pending_sq_error_def Let_def)
next
  case False
  have "sq_ok (ring s)" using sched_inv_calm [OF inv] by (simp_all add: calm_def ring_ok_def)
  then show ?thesis using spawn_full [of s os c] capacity_spawn [of "ring s"] False by simp
qed

lemma spawn_jobs_ok:
  fixes os :: "'k os" and infl :: "'k \<Rightarrow> ptr multiset" and prog :: "'j \<Rightarrow> co"
  assumes "\<And>j. first_small (prog j)" "\<And>n k. os_can_grow os n k"
  shows "jobs_ok infl (\<lambda>j. spawn_call os (prog j))"
  unfolding jobs_ok_def
proof (intro allI impI)
  fix j and s :: "('j, 'k) sched" and Q :: "ptr multiset" assume inv: "sched_inv Q s"
  obtain e s' where sp: "spawn_call os (prog j) s = (e, s')" by fastforce
  show "keeps_safe infl s (snd (spawn_call os (prog j) s))"
  proof (cases "has_capacity (ring s) 1")
    case True
    then have e: "e = None" using spawn_small [OF inv assms] sp by (metis fst_conv)
    show ?thesis
      using spawn_keeps [OF _ sp [unfolded e]] inv by (auto simp: keeps_safe_def sp)
  next
    case False
    moreover have "sq_ok (ring s)" using sched_inv_calm [OF inv] by (simp_all add: calm_def ring_ok_def)
    ultimately show ?thesis
      using spawn_full [of s os "prog j"] capacity_spawn [of "ring s"] sched_inv_grow
      by (auto simp: keeps_safe_def same_loop_def)
  qed
qed

section \<open>Reachable states\<close>

text \<open>
  What happens to a scheduler from its construction on, one call at a time: every call, in any state
  and with any outcome. The flag \<open>ok\<close> of \<open>reach os invoke s0 ok s\<close> records whether the calls made so far
  stayed clear of the two situations the code does not guard against (see \<open>Scheduler_Limits\<close>): a
  \<open>spawn\<close> that throws after it has resumed the task, and a \<open>drain\<close> that arms the eventfd read in a ring
  without a free slot. What is said of \<open>reach os invoke s0 True s\<close> is said of the runs without them.
\<close>

inductive reach :: "'k os \<Rightarrow> ('j, 'k) invoke \<Rightarrow> ('j, 'k) sched \<Rightarrow> bool \<Rightarrow> ('j, 'k) sched \<Rightarrow> bool"
  for os :: "'k os" and invoke :: "('j, 'k) invoke" and s0 :: "('j, 'k) sched" where
  start: "reach os invoke s0 True s0"
| spawn: "reach os invoke s0 ok s \<Longrightarrow> spawn_call os c s = (e, s') \<Longrightarrow>
    reach os invoke s0 (ok \<and> (e = None \<or> \<not> has_capacity (ring s) 1)) s'"
| post: "reach os invoke s0 ok s \<Longrightarrow> reach os invoke s0 ok (snd (post os j s))"
| drain: "reach os invoke s0 ok s \<Longrightarrow>
    reach os invoke s0 (ok \<and> (eventfd_armed s \<or> has_capacity (ring s) 1)) (snd (drain os invoke s))"
| reap: "reach os invoke s0 ok s \<Longrightarrow> reach os invoke s0 ok (reap s)"
| shutdown: "reach os invoke s0 ok s \<Longrightarrow> reach os invoke s0 ok (s\<lparr>shutting_down := True\<rparr>)"

context uring_kernel
begin

lemma safe_cong:
  assumes "ring s' = ring s" "frames s' = frames s" "aws s' = aws s" "tasks s' = tasks s" "ub_flag s' = ub_flag s"
    "current s' = current s" "tl_sq_full s' = tl_sq_full s" "infl (kst s') = infl (kst s)" "safe infl s"
  shows "safe infl s'"
  using sched_inv_cong [OF assms(1-7)] assms by (simp add: safe_def live_q_def)

lemma keeps_safe_safe: "keeps_safe infl s s' \<Longrightarrow> safe infl s \<Longrightarrow> safe infl s'"
  using cq_same_abs by (fastforce simp: keeps_safe_def same_loop_def safe_def live_q_def)

lemma post_keeps: "keeps_safe infl s (snd (post os j s))"
proof -
  have "snd (post os j s) = snd (poke_eventfd os (s\<lparr>inbox := inbox s @ [j]\<rparr>))"
    by (simp add: post_def split: prod.split)
  then show ?thesis using keeps_safe_trans [OF keeps_safe_flags(1) poke_keeps] by metis
qed

lemma reach_safe:
  assumes jobs: "jobs_ok infl invoke" and "reach os invoke s0 ok s" and "safe infl s0" and "ok"
  shows "safe infl s"
  using assms(2-)
proof (induction rule: reach.induct)
  case (spawn ok s c e s')
  then have inv: "sched_inv (live_q infl s) s" by (simp add: safe_def)
  have ok: "sq_ok (ring s)" using sched_inv_calm [OF inv] by (simp add: calm_def ring_ok_def)
  show ?case
  proof (cases e)
    case None
    then show ?thesis
      using spawn_keeps [OF inv] spawn.hyps(2) cq_same_abs [of "ring s" "ring s'"]
      by (simp add: safe_def live_q_def same_loop_def)
  next
    case (Some x)
    then have "s' = s\<lparr>frames := frames s @ [(new_frame TVoid c)\<lparr>fr_destroyed := True\<rparr>]\<rparr>"
      using spawn.hyps(2) spawn.prems(2) spawn_full [of s os c] capacity_spawn [OF ok] by simp
    then show ?thesis using sched_inv_grow [OF inv] by (simp add: safe_def live_q_def)
  qed
next
  case (post ok s j)
  then show ?case using keeps_safe_safe [OF post_keeps] by simp
next
  case (drain ok s)
  then have "eventfd_armed s \<or> sq_len (ring s) < unat (sq_entries (ring s))"
    using sched_inv_calm has_capacity_1 by (fastforce simp: safe_def calm_def ring_ok_def)
  from drain_safe [OF jobs _ this] drain show ?case by (metis prod.collapse)
next
  case (reap ok s)
  then have inv: "sched_inv (live_q infl s) s" by (simp add: safe_def)
  have "live_q infl (reap s) = live_q infl s" by (simp add: reap_effect [OF inv] live_q_def)
  then show ?case using reap_inv [OF inv] by (simp add: safe_def)
next
  case (shutdown ok s)
  then show ?case by - (rule safe_cong [of _ s], simp_all)
qed simp

end

lemma safe_alive:
  assumes "safe infl s" "AwPtr a \<in># sq_uds (ring s) + live_q infl s"
  shows "aw_alive s a"
proof -
  obtain ch lf where o: "owns s ch lf" and out: "outstanding (live_q infl s) s lf"
    using assms(1) by (auto simp: safe_def sched_inv_def)
  have "AwPtr a \<in># filter_mset is_aw (sq_uds (ring s) + live_q infl s)" using assms(2) by simp
  then have "AwPtr a \<in># mset (map (\<lambda>t. AwPtr (lf (the t))) (unfinished s))"
    using out unfolding outstanding_def by (simp only:)
  then obtain t where t: "t \<in> set (tasks s)" "\<not> Task_done s t" "lf (the t) = a" by (auto simp: unfinished_def)
  then obtain h where h: "t = Some h" using o unfolding owns_def by (metis option.exhaust)
  let ?hs = "ch h"
  have root: "chain (frames s) ?hs a" "a < length (aws s)" "aw_handle (aws s ! a) = Some (last ?hs)"
    using owns_mem [OF o, of h] t h by (auto simp: task_root_def Task_done_def)
  show ?thesis
    using root chain_last [OF root(1)] chain_mem [OF root(1) last_in_set [OF chain_nonempty [OF root(1)]]]
    by (auto simp: aw_alive_def frame_live_def clean_def)
qed

end
