(* ===== verification/Sim_Kernel.thy ===== *)
theory Sim_Kernel
  imports Scheduler_Loop
begin

text \<open>
  An executable kernel for the scheduler model, used to run it on concrete inputs: a list of entries
  in flight, an eventfd counter, and for every entry the result it completes with, or none while it
  stays in flight. A read of the eventfd completes when the counter is positive and resets it. No
  more completions are posted than the ring has room for: the eventfd read first, then operations,
  then their deadlines. It satisfies the contract \<open>uring_kernel\<close>.
\<close>

record sim =
  ks_infl :: "sqe list"
  ks_count :: nat
  ks_open :: bool
  ks_answer :: "sqe \<Rightarrow> int option"

definition ks_outcome :: "sim \<Rightarrow> sqe \<Rightarrow> int option" where
  "ks_outcome k e = (if sqe_user_data e = EventfdBuf then (if 0 < ks_count k then Some 8 else None) else ks_answer k e)"

definition ks_cqe :: "sim \<Rightarrow> sqe \<Rightarrow> cqe" where
  "ks_cqe k e = \<lparr>cqe_user_data = sqe_user_data e, cqe_res = (case ks_outcome k e of Some r \<Rightarrow> r | None \<Rightarrow> 0)\<rparr>"

definition ks_ready :: "sim \<Rightarrow> sqe list \<Rightarrow> sqe list" where
  "ks_ready k all =
     (let finished = filter (\<lambda>e. ks_outcome k e \<noteq> None) all;
          others = filter (\<lambda>e. sqe_user_data e \<noteq> EventfdBuf) finished
      in filter (\<lambda>e. sqe_user_data e = EventfdBuf) finished
         @ filter (\<lambda>e. is_aw (sqe_user_data e)) others @ filter (\<lambda>e. \<not> is_aw (sqe_user_data e)) others)"

definition ks_enter :: "sqe list \<Rightarrow> u32 \<Rightarrow> nat \<Rightarrow> sim \<Rightarrow> enter_resp \<times> sim" where
  "ks_enter es mc room k =
     (let all = ks_infl k @ es;
          ready = ks_ready k all;
          idle = filter (\<lambda>e. ks_outcome k e = None) all;
          posted = map (ks_cqe k) (take room ready)
      in (\<lparr>er_taken = length es, er_cqes = posted\<rparr>,
          k\<lparr>ks_infl := drop room ready @ idle,
            ks_count := (if EventfdBuf \<in> set (map cqe_user_data posted) then 0 else ks_count k)\<rparr>))"

definition sim_os :: "sim os" where
  "sim_os = \<lparr>os_eventfd = (\<lambda>k. (5, k\<lparr>ks_open := True\<rparr>)),
     os_write = (\<lambda>fd k. (True, k\<lparr>ks_count := Suc (ks_count k)\<rparr>)),
     os_close = (\<lambda>fd k. k\<lparr>ks_open := False\<rparr>), os_enter = ks_enter, os_can_grow = (\<lambda>n k. True)\<rparr>"

definition sim_uds :: "sim \<Rightarrow> ptr multiset" where
  "sim_uds k = mset (map sqe_user_data (ks_infl k))"

definition sim0 :: sim where
  "sim0 = \<lparr>ks_infl = [], ks_count = 0, ks_open = False, ks_answer = (\<lambda>e. if sqe_user_data e = NullPtr then Some (-125) else Some 5)\<rparr>"

lemma mset_partition: "mset (map f (filter P xs)) + mset (map f (filter (\<lambda>x. \<not> P x) xs)) = mset (map f xs)"
  by (induction xs) auto

lemma mset_split_take:
  assumes "mset (map f ys) + mset (map f zs) = mset (map f xs)"
  shows "mset (map f (take n ys)) + mset (map f (drop n ys @ zs)) = mset (map f xs)"
proof -
  have "mset (map f (take n ys)) + mset (map f (drop n ys)) = mset (map f ys)"
    by (metis append_take_drop_id map_append mset_append)
  then show ?thesis using assms by (simp del: mset_map flip: add.assoc)
qed

lemma cqe_uds_ks [simp]: "map cqe_user_data (map (ks_cqe k) es) = map sqe_user_data es"
  by (simp add: ks_cqe_def)

lemma set_ks_ready: "set (ks_ready k all) = {e \<in> set all. ks_outcome k e \<noteq> None}"
  by (auto simp: ks_ready_def)

lemma mset_ks_ready:
  "mset (map f (ks_ready k all)) + mset (map f (filter (\<lambda>e. ks_outcome k e = None) all)) = mset (map f all)"
proof -
  let ?f = "filter (\<lambda>e. ks_outcome k e \<noteq> None) all"
  let ?o = "filter (\<lambda>e. sqe_user_data e \<noteq> EventfdBuf) ?f"
  have "mset (map f (ks_ready k all)) = mset (map f ?f)"
    using mset_partition [of f "\<lambda>e. is_aw (sqe_user_data e)" ?o] mset_partition [of f "\<lambda>e. sqe_user_data e = EventfdBuf" ?f]
    by (simp add: ks_ready_def Let_def del: mset_map filter_filter)
  then show ?thesis using mset_partition [of f "\<lambda>e. ks_outcome k e \<noteq> None" all] by simp
qed

lemma ks_enterE:
  assumes "ks_enter es mc room k = (resp, k')"
  shows "er_taken resp = length es" "er_cqes resp = map (ks_cqe k) (take room (ks_ready k (ks_infl k @ es)))"
    "ks_infl k' = drop room (ks_ready k (ks_infl k @ es)) @ filter (\<lambda>e. ks_outcome k e = None) (ks_infl k @ es)"
    "ks_count k' = (if EventfdBuf \<in> set (map cqe_user_data (er_cqes resp)) then 0 else ks_count k)"
  using assms by (auto simp: ks_enter_def Let_def simp del: filter_append)

interpretation sim: uring_kernel sim_os sim_uds
proof unfold_locales
  fix es mc room k resp k' assume "os_enter sim_os es mc room k = (resp, k')"
  then have "ks_enter es mc room k = (resp, k')" by (simp add: sim_os_def)
  note e = ks_enterE [OF this]
  show "er_taken resp \<le> length es" "length (er_cqes resp) \<le> room" by (simp_all add: e)
  show "mset (map cqe_user_data (er_cqes resp)) + sim_uds k'
      = sim_uds k + mset (map sqe_user_data (take (er_taken resp) es))"
    using mset_split_take [OF mset_ks_ready [of sqe_user_data k "ks_infl k @ es"], of room]
    by (simp add: e sim_uds_def ks_cqe_def comp_def del: mset_map filter_append)
qed (auto simp: sim_os_def sim_uds_def)

lemma sim_can_grow [simp]: "os_can_grow sim_os n k"
  by (simp add: sim_os_def)

end
