(* ===== verification/Scheduler_Safety.thy ===== *)
theory Scheduler_Safety
  imports Sim_Kernel
begin

text \<open>
  The properties of the scheduler in the states it reaches within the limits that \<open>reach\<close> records: no
  completion meets a dead frame, every unfinished task has one operation outstanding. A refused \<open>spawn\<close>
  has run nothing, completions are processed once each and in order, \<open>reap\<close> removes finished tasks
  only, and a full ring makes \<open>drain_inbox\<close> keep what it could not start.
\<close>

section \<open>A new scheduler\<close>

context uring_kernel
begin

lemma ctor_safe:
  assumes "Scheduler_ctor os r k = Inr s" "ring_ok r" "sq_pending r = []" "cq_ready r = []" "infl k = {#}"
  shows "safe infl s"
proof -
  have "ring s = r" "kst s = snd (os_eventfd os k)" "tasks s = []" "ub_flag s = None" "current s = None" "\<not> tl_sq_full s"
    using assms(1) by (auto simp: Scheduler_ctor_def split: prod.splits if_splits)
  moreover have "infl (snd (os_eventfd os k)) = {#}"
    using eventfd_keeps [of k] assms(5) by (metis prod.collapse)
  ultimately show ?thesis
    using assms by (auto simp: safe_def sched_inv_def calm_def owns_def outstanding_def unfinished_def live_q_def sq_uds_def)
qed

lemma reachable_safe:
  assumes "jobs_ok infl invoke" "Scheduler_ctor os r k = Inr s0" "ring_ok r" "sq_pending r = []" "cq_ready r = []"
    "infl k = {#}" "reach os invoke s0 True s"
  shows "safe infl s"
  using reach_safe [OF assms(1,7) ctor_safe [OF assms(2-6)]] by simp

end

section \<open>A scheduler to run\<close>

definition recv_body :: co where
  "recv_body = CoAwait (Recv 4 64 16 0) None (\<lambda>n. CoAct (''got'', n) (CoReturn VVoid))"

definition recv_jobs :: "(nat, sim) invoke" where
  "recv_jobs = (\<lambda>j. spawn_call sim_os recv_body)"

definition sched_on :: "nat \<Rightarrow> (nat, sim) sched" where
  "sched_on n = projr (Scheduler_ctor sim_os (fresh_ring n) sim0)"

lemma sched_on: "Scheduler_ctor sim_os (fresh_ring n) sim0 = Inr (sched_on n)"
  by (simp add: sched_on_def Scheduler_ctor_def sim_os_def)

lemma recv_jobs_ok: "jobs_ok infl recv_jobs"
  unfolding recv_jobs_def by (rule spawn_jobs_ok) (simp_all add: recv_body_def)

lemma sim0_uds [simp]: "sim_uds sim0 = {#}"
  by (simp add: sim_uds_def sim0_def)

lemma spawned_reach: "fst (spawn_call os c s0) = None \<Longrightarrow> reach os invoke s0 True (snd (spawn_call os c s0))"
  using reach.spawn [OF reach.start prod.collapse [symmetric], of os invoke s0 c] by simp

section \<open>Starting posted jobs\<close>

text \<open>A number of spawns, one after the other, up to the first that throws.\<close>

fun spawn_all :: "'k os \<Rightarrow> co list \<Rightarrow> ('j, 'k) sched \<Rightarrow> exn option \<times> ('j, 'k) sched" where
  "spawn_all os [] s = (None, s)"
| "spawn_all os (c # cs) s =
     (case spawn_call os c s of (None, s') \<Rightarrow> spawn_all os cs s' | (Some e, s') \<Rightarrow> (Some e, s'))"

text \<open>Bodies that suspend at once on an operation that takes one slot.\<close>

primrec takes_one :: "co \<Rightarrow> bool" where
  "takes_one (CoReturn v) = False"
| "takes_one (CoThrow e) = False"
| "takes_one (CoAct ev c) = takes_one c"
| "takes_one (CoAwait op tmo k) = (tmo = None)"
| "takes_one (CoAwaitTask ty c k) = takes_one c"

lemma exec_one:
  "takes_one c \<Longrightarrow> sq_ok r \<Longrightarrow> has_capacity r 1 \<Longrightarrow>
   \<exists>a f r' n' lg'. exec c (r, n, tls, lg) = (Susp a f, (r', n', tls, lg'))
     \<and> map sqe_user_data (sq_pending r') = map sqe_user_data (sq_pending r) @ [AwPtr a]"
proof (induction c arbitrary: n lg)
  case (CoAwait op tmo k)
  then have need: "needed_slots (mk_op op tmo) = 1" "aw_timeout (mk_op op tmo) = None"
    by (simp_all add: needed_slots_def mk_op_def mk_awaitable_def)
  obtain susp r' tls' where rv: "reserve n op tmo r tls = (susp, r', tls')" by (metis prod_cases3)
  note c = reserve_cases [OF CoAwait.prems(2) rv]
  have "susp" using c(3) need(1) CoAwait.prems(3) by simp
  moreover have "map sqe_user_data (entries_of n (mk_op op tmo)) = [AwPtr n]"
    using arg_cong [OF uds_entries [of n "mk_op op tmo"], of set_mset] need(2) by (simp add: entries_of_def)
  ultimately have "susp" "tls' = tls" "map sqe_user_data (sq_pending r') = map sqe_user_data (sq_pending r) @ [AwPtr n]"
    using c(1) by simp_all
  then show ?case using rv by simp
next
  case (CoAwaitTask ty c k)
  then obtain a f r' n' lg' where "exec c (r, n, tls, lg) = (Susp a f, (r', n', tls, lg'))"
    "map sqe_user_data (sq_pending r') = map sqe_user_data (sq_pending r) @ [AwPtr a]"
    by (metis takes_one.simps(5))
  then show ?case by simp
qed auto

lemma spawn_one:
  assumes inv: "sched_inv Q s" and one: "takes_one c" and mem: "\<And>n k. os_can_grow os n k" and cap: "has_capacity (ring s) 1"
  obtains s' a where "spawn_call os c s = (None, s')" "map sqe_user_data (sq_pending (ring s')) = map sqe_user_data (sq_pending (ring s)) @ [AwPtr a]"
proof -
  have ok: "sq_ok (ring s)" "\<not> tl_sq_full s" using sched_inv_calm [OF inv] by (simp_all add: calm_def ring_ok_def)
  let ?h = "length (frames s)" and ?s0 = "s\<lparr>frames := frames s @ [new_frame TVoid c]\<rparr>"
  obtain a f r' n' lg' where e: "exec c (mst ?s0) = (Susp a f, (r', n', False, lg'))"
    "map sqe_user_data (sq_pending r') = map sqe_user_data (sq_pending (ring s)) @ [AwPtr a]"
    using exec_one [OF one ok(1) cap, of "length (aws s)" False "log s"] ok(2) by (auto simp: mst_def)
  have "tl_sq_full (resume_handle ?h ?s0) = False" "ring (resume_handle ?h ?s0) = r'"
    using resume_new [of ?h ?s0 TVoid c] e by (simp_all add: lands_def mst_def)
  then show thesis
    using that cap capacity_spawn [OF ok(1)] mem e(2)
    by (simp add: spawn_call_def make_task_def Scheduler_spawn_def take_pending_sq_error_def Let_def Task_move_def Task_dtor_def)
qed

lemma same_loop_trans: "same_loop s s' \<Longrightarrow> same_loop s' s'' \<Longrightarrow> same_loop s s''"
  by (simp add: same_loop_def cq_same_def)

text \<open>
  The state after \<open>drain_inbox\<close> found no room for the jobs \<open>js\<close>: each has had a frame that was destroyed
  before it ran, is back in the inbox, and has had its own wake-up written.
\<close>

definition put_back :: "'k os \<Rightarrow> ('j \<Rightarrow> co) \<Rightarrow> 'j list \<Rightarrow> ('j, 'k) sched \<Rightarrow> ('j, 'k) sched" where
  "put_back os prog js s = s\<lparr>inbox := inbox s @ js,
     frames := frames s @ map (\<lambda>j. (new_frame TVoid (prog j))\<lparr>fr_destroyed := True\<rparr>) js,
     kst := fold (\<lambda>j k. snd (os_write os (eventfd s) k)) js (kst s)\<rparr>"

lemma drain_local_full:
  assumes "sq_entries (ring s) \<le> sq_tail (ring s) - sq_head (ring s)"
  shows "drain_local os (\<lambda>j. spawn_call os (prog j)) js s = (None, put_back os prog js s)"
  using assms
proof (induction js arbitrary: s)
  case (Cons j js)
  let ?s1 = "s\<lparr>frames := frames s @ [(new_frame TVoid (prog j))\<lparr>fr_destroyed := True\<rparr>]\<rparr>"
  let ?s2 = "snd (poke_eventfd os (?s1\<lparr>inbox := inbox ?s1 @ [j]\<rparr>))"
  have s2: "?s2 = put_back os prog [j] s" by (simp add: put_back_def poke_eventfd_def split: prod.split)
  have "drain_local os (\<lambda>j. spawn_call os (prog j)) (j # js) s = drain_local os (\<lambda>j. spawn_call os (prog j)) js ?s2"
    using spawn_full [OF Cons.prems, of os "prog j"] by simp
  also have "\<dots> = (None, put_back os prog js ?s2)" unfolding s2 using Cons.prems by (intro Cons.IH) (simp add: put_back_def)
  also have "put_back os prog js ?s2 = put_back os prog (j # js) s" unfolding s2 by (simp add: put_back_def)
  finally show ?case .
qed (simp add: put_back_def)

lemma drain_local_starts:
  assumes "sched_inv Q s" "\<And>j. takes_one (prog j)" "\<And>n k. os_can_grow os n k"
    and "free = unat (sq_entries (ring s)) - sq_len (ring s)"
  shows "\<exists>s1. spawn_all os (map prog (take free js)) s = (None, s1)
    \<and> drain_local os (\<lambda>j. spawn_call os (prog j)) js s = (None, put_back os prog (drop free js) s1)"
  using assms
proof (induction js arbitrary: s free)
  case (Cons j js)
  have ok: "sq_ok (ring s)" using sched_inv_calm [OF Cons.prems(1)] by (simp add: calm_def ring_ok_def)
  show ?case
  proof (cases "has_capacity (ring s) 1")
    case True
    then obtain s1 a where sp: "spawn_call os (prog j) s = (None, s1)"
      and uds: "map sqe_user_data (sq_pending (ring s1)) = map sqe_user_data (sq_pending (ring s)) @ [AwPtr a]"
      using spawn_one [OF Cons.prems(1,2,3)] by blast
    have len: "sq_len (ring s1) = Suc (sq_len (ring s))" using arg_cong [OF uds, of length] by simp
    note k = spawn_keeps [OF Cons.prems(1) sp(1)]
    have "free = Suc (unat (sq_entries (ring s1)) - sq_len (ring s1))"
      using k(2) len True has_capacity_1 [OF ok] Cons.prems(4) by (simp add: same_loop_def)
    then show ?thesis using Cons.IH [OF k(1) Cons.prems(2,3) HOL.refl] sp by simp
  next
    case False
    then have "free = 0" using has_capacity_1 [OF ok] Cons.prems(4) by simp
    moreover have "sq_entries (ring s) \<le> sq_tail (ring s) - sq_head (ring s)" using False capacity_spawn [OF ok] by simp
    ultimately show ?thesis using drain_local_full [of s os prog "j # js"] by simp
  qed
qed (simp add: put_back_def)

lemma spawn_all_fields:
  "sched_inv Q s \<Longrightarrow> spawn_all os cs s = (None, s') \<Longrightarrow> inbox s' = inbox s \<and> eventfd s' = eventfd s"
proof (induction cs arbitrary: s)
  case (Cons c cs)
  then obtain s1 where s1: "spawn_call os c s = (None, s1)" "spawn_all os cs s1 = (None, s')"
    by (auto split: prod.splits option.splits)
  note k = spawn_keeps [OF Cons.prems(1) s1(1)]
  from Cons.IH [OF k(1) s1(2)] k show ?case by (simp add: same_loop_def)
qed simp

context uring_kernel
begin

text \<open>What \<open>drain_inbox\<close> starts, what it puts back, and what it stages.\<close>

lemma drain_local_capacity:
  assumes "sched_inv Q s" "\<And>j. takes_one (prog j)" "\<And>n k. os_can_grow os n k"
    and "drain_local os (\<lambda>j. spawn_call os (prog j)) js s = (e, s')"
  shows "e = None \<and> inbox s' = inbox s @ drop (unat (sq_entries (ring s)) - sq_len (ring s)) js
    \<and> length (tasks s') = length (tasks s) + min (length js) (unat (sq_entries (ring s)) - sq_len (ring s))
    \<and> sched_inv Q s' \<and> same_loop s s' \<and> infl (kst s') = infl (kst s)
    \<and> (\<exists>as. map sqe_user_data (sq_pending (ring s')) = map sqe_user_data (sq_pending (ring s)) @ map AwPtr as
        \<and> length as = min (length js) (unat (sq_entries (ring s)) - sq_len (ring s)))"
  using assms
proof (induction js arbitrary: s)
  case (Cons j js)
  let ?invoke = "\<lambda>j. spawn_call os (prog j)"
  have ok: "sq_ok (ring s)" using sched_inv_calm [OF Cons.prems(1)] by (simp add: calm_def ring_ok_def)
  note IH = Cons.IH [OF _ Cons.prems(2,3)]
  show ?case
  proof (cases "has_capacity (ring s) 1")
    case True
    then obtain s1 a where sp: "spawn_call os (prog j) s = (None, s1)"
      and uds: "map sqe_user_data (sq_pending (ring s1)) = map sqe_user_data (sq_pending (ring s)) @ [AwPtr a]"
      using spawn_one [OF Cons.prems(1,2,3)] by blast
    have len: "sq_len (ring s1) = Suc (sq_len (ring s))" using arg_cong [OF uds, of length] by simp
    note k = spawn_keeps [OF Cons.prems(1) sp(1)]
    have "drain_local os ?invoke js s1 = (e, s')" using Cons.prems(4) sp(1) by simp
    note ih = IH [OF k(1) this]
    have free: "unat (sq_entries (ring s)) - sq_len (ring s) = Suc (unat (sq_entries (ring s1)) - sq_len (ring s1))"
      using k(2) len True has_capacity_1 [OF ok] by (simp add: same_loop_def)
    obtain as where "map sqe_user_data (sq_pending (ring s')) = map sqe_user_data (sq_pending (ring s1)) @ map AwPtr as"
      "length as = min (length js) (unat (sq_entries (ring s1)) - sq_len (ring s1))" using ih by blast
    then have as: "map sqe_user_data (sq_pending (ring s')) = map sqe_user_data (sq_pending (ring s)) @ map AwPtr (a # as)"
      "length (a # as) = min (length (j # js)) (unat (sq_entries (ring s)) - sq_len (ring s))"
      using uds free by simp_all
    have "same_loop s s'" using same_loop_trans [OF k(2)] ih by blast
    moreover have "e = None \<and> inbox s' = inbox s @ drop (unat (sq_entries (ring s)) - sq_len (ring s)) (j # js)
      \<and> length (tasks s') = length (tasks s) + min (length (j # js)) (unat (sq_entries (ring s)) - sq_len (ring s))"
      using ih k free by simp
    ultimately show ?thesis using ih k(3) as by metis
  next
    case False
    then have full: "unat (sq_entries (ring s)) - sq_len (ring s) = 0" using has_capacity_1 [OF ok] by simp
    let ?s1 = "s\<lparr>frames := frames s @ [(new_frame TVoid (prog j))\<lparr>fr_destroyed := True\<rparr>]\<rparr>"
    let ?s2 = "snd (poke_eventfd os (?s1\<lparr>inbox := inbox ?s1 @ [j]\<rparr>))"
    have "spawn_call os (prog j) s = (Some (IOExc SQFull), ?s1)"
      using spawn_full [of s os "prog j"] capacity_spawn [OF ok] False by simp
    then have dl: "drain_local os ?invoke js ?s2 = (e, s')" using Cons.prems(4) by simp
    have keeps: "keeps_safe infl ?s1 ?s2" by (rule keeps_safe_trans [OF keeps_safe_flags(1) poke_keeps])
    then have inv2: "sched_inv Q ?s2" and infl2: "infl (kst ?s2) = infl (kst s)"
      using sched_inv_grow [OF Cons.prems(1)] by (auto simp: keeps_safe_def)
    have "ring ?s2 = ring s" "inbox ?s2 = inbox s @ [j]" "tasks ?s2 = tasks s"
      by (simp_all add: poke_eventfd_def split: prod.split)
    moreover have "same_loop s ?s2" using keeps by (simp add: keeps_safe_def same_loop_def)
    ultimately show ?thesis using IH [OF inv2 dl] infl2 full same_loop_trans by auto
  qed
qed (simp add: same_loop_def)

end

section \<open>Properties\<close>

text \<open>
  C1: No use after free within the limits. A scheduler is created on an empty ring and its operations
  are called in any order, on any kernel that completes each entry it takes once, in whatever order.
  As long as no \<open>spawn\<close> has thrown after it resumed its task, no \<open>drain\<close> was entered with the eventfd
  read unarmed and the ring full, and the posted callables keep the invariant of the scheduler (as
  those do that spawn a body whose first operation has no deadline), nothing undefined has happened,
  no coroutine is left running, and every operation that is staged, in flight or completed but not yet
  processed belongs to an awaitable that still exists, in a live frame suspended on that very
  operation: \<open>awt->handle.resume()\<close> in \<open>drain\<close> never meets a dead or a finished frame.
\<close>

theorem reachable_no_use_after_free:
  assumes "uring_kernel os infl" "jobs_ok infl invoke" "Scheduler_ctor os r k = Inr s0"
    and "ring_ok r" "sq_pending r = []" "cq_ready r = []" "infl k = {#}" "reach os invoke s0 True s"
  shows "ub_flag s = None \<and> current s = None \<and> (\<forall>a. AwPtr a \<in># sq_uds (ring s) + live_q infl s \<longrightarrow> aw_alive s a)"
proof -
  have "safe infl s" using uring_kernel.reachable_safe [OF assms] .
  then show ?thesis
    using safe_alive [of infl s] sched_inv_calm [of "live_q infl s" s] by (auto simp: safe_def calm_def)
qed

theorem reachable_no_use_after_free_witness:
  "let s = snd (spawn_call sim_os recv_body (sched_on 1)) in AwPtr 0 \<in># sq_uds (ring s) \<and> aw_alive s 0"
proof -
  let ?s = "snd (spawn_call sim_os recv_body (sched_on 1))"
  have f: "fst (spawn_call sim_os recv_body (sched_on 1)) = None"
    and m: "map sqe_user_data (sq_pending (ring ?s)) = [AwPtr 0]" by code_simp+
  have a: "AwPtr 0 \<in># sq_uds (ring ?s)" unfolding sq_uds_def m by simp
  have r: "reach sim_os recv_jobs (sched_on 1) True ?s" using f by (rule spawned_reach)
  from reachable_no_use_after_free [OF sim.uring_kernel_axioms recv_jobs_ok sched_on _ _ _ _ r]
  have "\<forall>a. AwPtr a \<in># sq_uds (ring ?s) + live_q sim_uds ?s \<longrightarrow> aw_alive ?s a"
    using ring_ok_fresh [of 1] by simp
  then show ?thesis using a by (simp add: Let_def)
qed



text \<open>
  \<open>spawn\<close> on a full ring throws \<open>SQFull\<close> strictly before the task runs: the ring, the effects,
  the tasks, the inbox and the flag are as they were; the only trace is the task's own frame, made
  and destroyed.
\<close>

theorem spawn_full_runs_nothing:
  assumes "sq_tail (ring s) - sq_head (ring s) \<ge> sq_entries (ring s)"
  shows "spawn_call os c s =
    (Some (IOExc SQFull), s\<lparr>frames := frames s @ [(new_frame TVoid c)\<lparr>fr_destroyed := True\<rparr>]\<rparr>)"
  using assms by (rule spawn_full)

theorem spawn_full_runs_nothing_witness:
  "let s = snd (spawn_call sim_os recv_body (sched_on 0)) in
   spawn_call sim_os recv_body s = (Some (IOExc SQFull), s\<lparr>frames := frames s @ [(new_frame TVoid recv_body)\<lparr>fr_destroyed := True\<rparr>]\<rparr>)"
proof -
  let ?s = "snd (spawn_call sim_os recv_body (sched_on 0))"
  have "sq_tail (ring ?s) - sq_head (ring ?s) \<ge> sq_entries (ring ?s)" by code_simp
  from spawn_full_runs_nothing [OF this] show ?thesis by (simp add: Let_def)
qed

text \<open>
  For a task whose first operation has no deadline, \<open>spawn\<close> has exactly two outcomes. With a
  free slot it succeeds and the task is owned by the scheduler; without one it throws \<open>SQFull\<close>.
  The check after \<open>resume()\<close> never throws, so a task that throws at \<open>spawn\<close> has not run.
\<close>

theorem spawn_one_slot_outcomes:
  assumes "safe infl s" "first_small c" "\<And>n k. os_can_grow os n k"
  shows "spawn_call os c s =
    (if length (sq_pending (ring s)) < unat (sq_entries (ring s)) then (None, snd (spawn_call os c s))
     else (Some (IOExc SQFull), s\<lparr>frames := frames s @ [(new_frame TVoid c)\<lparr>fr_destroyed := True\<rparr>]\<rparr>))
    \<and> (length (sq_pending (ring s)) < unat (sq_entries (ring s)) \<longrightarrow>
        tasks (snd (spawn_call os c s)) = tasks s @ [Some (length (frames s))] \<and> safe infl (snd (spawn_call os c s)))"
proof -
  have inv: "sched_inv (live_q infl s) s" using assms(1) by (simp add: safe_def)
  have ok: "sq_ok (ring s)" using sched_inv_calm [OF inv] by (simp add: calm_def ring_ok_def)
  show ?thesis
  proof (cases "has_capacity (ring s) 1")
    case True
    have f: "fst (spawn_call os c s) = None" using spawn_small [OF inv assms(2,3)] True by simp
    then have "spawn_call os c s = (None, snd (spawn_call os c s))" by (metis prod.collapse)
    note k = spawn_keeps [OF inv this]
    have "live_q infl (snd (spawn_call os c s)) = live_q infl s"
      using k(2,3) cq_same_abs [of "ring s" "ring (snd (spawn_call os c s))"] by (simp add: live_q_def same_loop_def)
    then show ?thesis
      using f k(1,6) True has_capacity_1 [OF ok] by (auto simp: safe_def prod_eq_iff)
  next
    case False
    then show ?thesis using spawn_full [of s os c] capacity_spawn [OF ok] has_capacity_1 [OF ok] by simp
  qed
qed

theorem spawn_one_slot_outcomes_witness:
  "tasks (snd (spawn_call sim_os recv_body (sched_on 1))) = [Some 0]"
proof -
  have "safe sim_uds (sched_on 1)" using sim.ctor_safe [OF sched_on] ring_ok_fresh [of 1] by simp
  then have "tasks (snd (spawn_call sim_os recv_body (sched_on 1))) = tasks (sched_on 1) @ [Some (length (frames (sched_on 1)))]"
    using spawn_one_slot_outcomes [of sim_uds "sched_on 1" recv_body sim_os] ring_ok_fresh [of 1]
    by (simp add: recv_body_def sched_on_def Scheduler_ctor_def sim_os_def)
  then show ?thesis by (simp add: sched_on_def Scheduler_ctor_def sim_os_def)
qed

text \<open>
  C17: \<open>drain_inbox\<close> with jobs that each spawn a task suspending on one operation without a deadline:
  with room for \<open>free\<close> entries in the ring it starts exactly the first \<open>free\<close> jobs in the order they
  were posted, each once, as that many calls of \<open>spawn\<close> in a row would, and puts every other one back
  in order, having run nothing of it and written one wake-up for it. The state it leaves is stated in
  full: a job is neither lost, nor started twice, nor overtaken.
\<close>

theorem drain_inbox_capacity:
  assumes "uring_kernel os infl" "safe infl s" "\<And>j. takes_one (prog j)" "\<And>n k. os_can_grow os n k"
    and "drain_inbox os (\<lambda>j. spawn_call os (prog j)) s = (e, s')" "free = unat (sq_entries (ring s)) - length (sq_pending (ring s))"
  shows "e = None \<and> length (tasks s') = length (tasks s) + length (take free (inbox s))
    \<and> (\<exists>s1. spawn_all os (map prog (take free (inbox s))) (s\<lparr>inbox := []\<rparr>) = (None, s1)
        \<and> s' = s1\<lparr>inbox := drop free (inbox s),
            frames := frames s1 @ map (\<lambda>j. (new_frame TVoid (prog j))\<lparr>fr_destroyed := True\<rparr>) (drop free (inbox s)),
            kst := fold (\<lambda>j k. snd (os_write os (eventfd s) k)) (drop free (inbox s)) (kst s1)\<rparr>)"
proof -
  have inv: "sched_inv (live_q infl s) (s\<lparr>inbox := []\<rparr>)"
    using assms(2) keeps_safe_flags(1) [of infl s] by (auto simp: safe_def keeps_safe_def)
  have d: "drain_local os (\<lambda>j. spawn_call os (prog j)) (inbox s) (s\<lparr>inbox := []\<rparr>) = (e, s')"
    using assms(5) by (simp add: drain_inbox_def)
  have n: "e = None" "length (tasks s') = length (tasks s) + length (take free (inbox s))"
    using uring_kernel.drain_local_capacity [OF assms(1) inv assms(3,4) d] assms(6) by simp_all
  obtain s1 where s1: "spawn_all os (map prog (take free (inbox s))) (s\<lparr>inbox := []\<rparr>) = (None, s1)"
    "s' = put_back os prog (drop free (inbox s)) s1"
    using drain_local_starts [where prog = prog and free = free and js = "inbox s", OF inv assms(3,4)] d assms(6) by auto
  have "inbox s1 = [] \<and> eventfd s1 = eventfd s" using spawn_all_fields [OF inv s1(1)] by simp
  then show ?thesis using n s1 by (auto simp: put_back_def)
qed

theorem drain_inbox_capacity_witness:
  "let s = (sched_on 1)\<lparr>inbox := [7, 8, 9]\<rparr> in
   inbox (snd (drain_inbox sim_os recv_jobs s)) = [9] \<and> length (tasks (snd (drain_inbox sim_os recv_jobs s))) = 2"
proof -
  let ?s = "(sched_on 1)\<lparr>inbox := [7, 8, 9]\<rparr>"
  have "safe sim_uds (sched_on 1)" using sim.ctor_safe [OF sched_on] ring_ok_fresh [of 1] by simp
  then have safe: "safe sim_uds ?s" using sim.keeps_safe_safe [OF keeps_safe_flags(1)] by blast
  have p: "sq_len (ring ?s) = 0" "unat (sq_entries (ring ?s)) = 2" "tasks ?s = []"
    using ring_ok_fresh [of 1] by (simp_all add: sched_on_def Scheduler_ctor_def sim_os_def)
  obtain e s' where d: "drain_inbox sim_os recv_jobs ?s = (e, s')" by fastforce
  have "inbox s' = drop 2 (inbox ?s) \<and> length (tasks s') = length (tasks ?s) + length (take 2 (inbox ?s))"
    using drain_inbox_capacity [OF sim.uring_kernel_axioms safe _ sim_can_grow d [unfolded recv_jobs_def], of 2] p
    by (auto simp: recv_body_def)
  then show ?thesis using d p by simp
qed

text \<open>
  C16: \<open>drain\<close> processes the completions that were ready when it read the tail, each once and in
  the order the kernel posted them, moving the head past each one; unless a job throws, none is left.
\<close>

theorem drain_in_order:
  assumes "uring_kernel os infl" "jobs_ok infl invoke" "safe infl s"
    and "drain_cqes os invoke (cq_mask (ring s)) (cq_head (ring s)) (cq_tail (ring s)) s = (e, s')"
  shows "process_all os invoke (cq_ready (ring s)) s = (e, s') \<and> safe infl s' \<and> (e = None \<longrightarrow> cq_ready (ring s') = [])"
  using uring_kernel.drain_cqes_all [OF assms] by blast

theorem drain_in_order_witness:
  "let s = io_uring_enter sim_os 1 1 (snd (spawn_call sim_os recv_body (sched_on 1))) in
   log (snd (process_all sim_os recv_jobs (cq_ready (ring s)) s)) = [(''got'', 5)]"
proof -
  let ?u = "snd (spawn_call sim_os recv_body (sched_on 1))"
  let ?s = "io_uring_enter sim_os 1 1 ?u"
  have "safe sim_uds (sched_on 1)" using sim.ctor_safe [OF sched_on] ring_ok_fresh [of 1] by simp
  moreover have "fst (spawn_call sim_os recv_body (sched_on 1)) = None" by code_simp
  then have "reach sim_os recv_jobs (sched_on 1) True ?u" by (rule spawned_reach)
  ultimately have "safe sim_uds ?u" using sim.reach_safe [OF recv_jobs_ok] by blast
  then have safe: "safe sim_uds ?s" by (rule sim.enter_safe)
  let ?d = "drain_cqes sim_os recv_jobs (cq_mask (ring ?s)) (cq_head (ring ?s)) (cq_tail (ring ?s)) ?s"
  have "log (snd ?d) = [(''got'', 5)]" by code_simp
  then show ?thesis
    using drain_in_order [OF sim.uring_kernel_axioms recv_jobs_ok safe prod.collapse [symmetric]] by simp
qed

text \<open>
  C18: \<open>reap\<close> takes exactly the finished tasks out of \<open>tasks_\<close>, keeps the order of the others, and
  destroys the frames of the finished ones and no other.
\<close>

theorem reap_removes_finished:
  assumes "safe infl s"
  shows "reap s = s\<lparr>tasks := filter (\<lambda>t. \<not> Task_done s t) (tasks s),
      frames := map (\<lambda>i. if Some i \<in> set (tasks s) \<and> frame_done s i then (frames s ! i)\<lparr>fr_destroyed := True\<rparr> else frames s ! i)
        [0..<length (frames s)]\<rparr>"
  using reap_effect [OF assms [unfolded safe_def]] by (simp add: unfinished_def reaped_frames_def Task_done_def)

theorem reap_removes_finished_witness:
  "let s = snd (drain sim_os recv_jobs (snd (spawn_call sim_os recv_body (sched_on 1)))) in
   tasks s = [Some 0] \<and> tasks (reap s) = [] \<and> fr_destroyed (frames (reap s) ! 0)"
proof -
  let ?u = "snd (spawn_call sim_os recv_body (sched_on 1))"
  let ?s = "snd (drain sim_os recv_jobs ?u)"
  have "safe sim_uds (sched_on 1)" using sim.ctor_safe [OF sched_on] ring_ok_fresh [of 1] by simp
  moreover have "fst (spawn_call sim_os recv_body (sched_on 1)) = None" and c: "has_capacity (ring ?u) 1" by code_simp+
  then have "reach sim_os recv_jobs (sched_on 1) True ?s"
    using reach.drain [OF spawned_reach, of sim_os recv_body "sched_on 1" recv_jobs] c by simp
  ultimately have "safe sim_uds ?s" using sim.reach_safe [OF recv_jobs_ok] by blast
  moreover have "tasks ?s = [Some 0]" "frame_done ?s 0" "length (frames ?s) = 1" by code_simp+
  ultimately show ?thesis using reap_removes_finished [of sim_uds ?s] by (simp add: Let_def Task_done_def)
qed

end
