(* ===== verification/Scheduler_Limits.thy ===== *)
theory Scheduler_Limits
  imports Scheduler_Safety
begin

text \<open>
  Where the scheduler leaves its safe region. \<open>arm_eventfd_read\<close> takes a slot without asking for
  capacity: on a full ring it overwrites the oldest staged entry, that operation is never submitted
  and \<open>shutdown\<close> never returns. The check of the side channel after \<open>resume()\<close> can throw when user
  code has already run, so a retried job repeats its effects, and a frame can be destroyed while an
  operation of it is staged. The theorems here state these behaviours of the code.
\<close>

section \<open>Arming on a full ring\<close>

lemma sq_slot_wrap: "sq_ok r \<Longrightarrow> sq_slot r (unat (sq_entries r)) = sq_slot r 0"
  using slot_add [OF sq_okD(1), of r "sq_head r" "unat (sq_entries r)"] slot_add [OF sq_okD(1), of r "sq_head r" 0]
  by (simp add: sq_slot_def)

lemma stage_full:
  assumes ok: "sq_ok r" and full: "sq_len r = unat (sq_entries r)" and f: "\<And>e. f e = e'"
  shows "sq_pending (stage_with r f) = e' # tl (sq_pending r) @ [e']"
proof -
  let ?n = "unat (sq_entries r)" and ?r = "stage_with r f"
  have pos: "0 < ?n" using ring_size_pos [OF sq_okD(1) [OF ok]] .
  have len: "sq_len ?r = Suc ?n"
    using full ring_size_le [OF sq_okD(1) [OF ok]] by (simp add: sq_len_def dist_Suc)
  have lt: "sq_slot r i < ?n" for i using sq_slot_less [OF ok] .
  have tail: "sq_slot r (sq_len r) = sq_slot r 0" using full sq_slot_wrap [OF ok] by simp
  have at: "sq_sqes ?r ! unat (sq_array ?r ! sq_slot r i) = (if sq_slot r i = sq_slot r 0 then e' else sq_sqes r ! sq_slot r i)"
    if "i \<le> ?n" for i
  proof -
    have u: "unat (sq_tail r AND sq_mask r) = sq_slot r 0" using stage_with_slots [of r] tail by simp
    have "unat (sq_array r ! sq_slot r i) = sq_slot r i" if "sq_slot r i \<noteq> sq_slot r 0"
      using that \<open>i \<le> ?n\<close> sq_slot_wrap [OF ok] sq_okD(5) [OF ok, of i] full by (cases "i = ?n") auto
    then show ?thesis
      using lt sq_okD(2,3) [OF ok] u f by (auto simp: stage_with_array stage_with_sqes tail)
  qed
  have ne: "sq_slot r i \<noteq> sq_slot r 0" if "0 < i" "i < ?n" for i
    using sq_slot_inj [OF ok, of i 0] that pos by auto
  obtain m where m: "?n = Suc m" using pos by (cases ?n) auto
  have up': "[0..<Suc m] = 0 # map Suc [0..<m]" by (simp add: map_Suc_upt upt_conv_Cons del: upt_Suc)
  have up: "[0..<Suc ?n] = 0 # map Suc [0..<m] @ [?n]" using m by (simp add: map_Suc_upt upt_conv_Cons)
  have "sq_pending ?r = map (\<lambda>i. sq_sqes ?r ! unat (sq_array ?r ! sq_slot r i)) [0..<Suc ?n]"
    by (simp only: sq_pending_def len sq_slot_stage)
  also have "\<dots> = e' # map (\<lambda>i. sq_sqes r ! sq_slot r (Suc i)) [0..<m] @ [e']"
    unfolding up using at ne m sq_slot_wrap [OF ok] by simp
  also have "map (\<lambda>i. sq_sqes r ! sq_slot r (Suc i)) [0..<m] = tl (sq_pending r)"
    unfolding sq_pending_alt [OF ok] full m up' by simp
  finally show ?thesis .
qed

section \<open>An operation outstanding once\<close>

lemma distinct_leaves:
  assumes "owns s ch lf"
  shows "distinct (map (\<lambda>t. lf (the t)) (unfinished s))"
proof -
  have d: "distinct (unfinished s)" "None \<notin> set (unfinished s)" using assms by (auto simp: unfinished_def owns_def)
  have "lf h \<noteq> lf h'" if h: "Some h \<in> set (unfinished s)" "Some h' \<in> set (unfinished s)" "h \<noteq> h'" for h h'
  proof -
    have t: "Some h \<in> set (tasks s)" "Some h' \<in> set (tasks s)" "\<not> frame_done s h" "\<not> frame_done s h'"
      using h by (auto simp: unfinished_def Task_done_def)
    have r: "task_root s h (ch h) (lf h)" "task_root s h' (ch h') (lf h')" using owns_mem [OF assms] t by auto
    have l: "aw_handle (aws s ! lf h) = Some (last (ch h))" "aw_handle (aws s ! lf h') = Some (last (ch h'))"
      using r t by (simp_all add: task_root_def)
    have "ch h \<noteq> []" "ch h' \<noteq> []" using task_root_mem [OF r(1)] task_root_mem [OF r(2)] by auto
    moreover have "set (ch h) \<inter> set (ch h') = {}" using assms t h(3) unfolding owns_def by blast
    ultimately have "last (ch h) \<noteq> last (ch h')" by (metis disjoint_iff last_in_set)
    then show ?thesis using l by auto
  qed
  then have "inj_on (\<lambda>t. lf (the t)) (set (unfinished s))"
    using d(2) by (intro inj_onI) (metis option.exhaust_sel)
  then show ?thesis using d(1) by (simp add: distinct_map)
qed

lemma outstanding_once:
  assumes "sched_inv Q s" "AwPtr a \<in># sq_uds (ring s)"
  shows "count (sq_uds (ring s) + Q) (AwPtr a) = 1"
proof -
  obtain ch lf where o: "owns s ch lf" and out: "outstanding Q s lf" using assms(1) by (auto simp: sched_inv_def)
  let ?M = "mset (map (\<lambda>t. AwPtr (lf (the t))) (unfinished s))"
  have eq: "filter_mset is_aw (sq_uds (ring s) + Q) = ?M" using out by (simp only: outstanding_def)
  have "distinct (map AwPtr (map (\<lambda>t. lf (the t)) (unfinished s)))" using distinct_leaves [OF o] by (simp add: distinct_map inj_on_def)
  then have "count ?M (AwPtr a) \<le> 1" by (simp add: comp_def distinct_count_atmost_1)
  moreover have "count (filter_mset is_aw (sq_uds (ring s) + Q)) (AwPtr a) = count (sq_uds (ring s) + Q) (AwPtr a)"
    by (simp only: count_filter_mset is_aw.simps if_True)
  moreover have "0 < count (sq_uds (ring s) + Q) (AwPtr a)" using assms(2) by simp
  ultimately show ?thesis unfolding eq by linarith
qed

section \<open>A one-entry ring\<close>

text \<open>
  The states in which the only operation has been overwritten: one unfinished task, and nothing but
  eventfd reads in the queues and in the kernel.
\<close>

definition forgotten :: "('k \<Rightarrow> ptr multiset) \<Rightarrow> ('j, 'k) sched \<Rightarrow> bool" where
  "forgotten infl s \<longleftrightarrow> (\<exists>h. tasks s = [Some h] \<and> \<not> frame_done s h) \<and> inbox s = []
     \<and> sq_mask (ring s) = 0 \<and> sq_array (ring s) = [0] \<and> cq_ok (ring s)
     \<and> (\<exists>e. sq_sqes (ring s) = [e] \<and> (eventfd_armed s \<longrightarrow> sqe_user_data e = EventfdBuf))
     \<and> (\<forall>p \<in># live_q infl s. p = EventfdBuf)"

lemma forgotten_arm: "forgotten infl s \<Longrightarrow> forgotten infl (arm_eventfd_read s)"
  unfolding forgotten_def arm_stages
  by (auto simp: stage_with_def commit_one_def write_sqe_def eventfd_read_sqe_def cq_ok_def cq_len_def live_q_def
      cq_ready_def cq_slot_def frame_done_def)

context uring_kernel
begin

lemma forgotten_enter:
  assumes "forgotten infl s" "eventfd_armed s"
  shows "forgotten infl (io_uring_enter os n mc s)"
proof -
  let ?r = "ring s" and ?es = "take (unat n) (sq_pending (ring s))" and ?room = "unat (cq_entries (ring s)) - cq_len (ring s)"
  obtain resp k' where e: "os_enter os ?es mc ?room (kst s) = (resp, k')" by fastforce
  let ?r' = "fold post_cqe (er_cqes resp) (consume_sq (er_taken resp) ?r)"
  have s': "io_uring_enter os n mc s = s\<lparr>ring := ?r', kst := k'\<rparr>" by (simp add: io_uring_enter_def e)
  have ok: "cq_ok ?r" using assms(1) by (simp add: forgotten_def)
  have "cq_len ?r + length (er_cqes resp) \<le> unat (cq_entries ?r)"
    using enter_room [OF e] ok unfolding cq_ok_def by linarith
  then have cq: "cq_ready ?r' = cq_ready ?r @ er_cqes resp" "cq_ok ?r'"
    using cq_post_all [of "consume_sq (er_taken resp) ?r"] ok by auto
  have fields: "sq_mask (fold post_cqe cs r) = sq_mask r \<and> sq_array (fold post_cqe cs r) = sq_array r
      \<and> sq_sqes (fold post_cqe cs r) = sq_sqes r" for cs r
    by (induction cs arbitrary: r) (simp_all add: post_cqe_def)
  have "set (sq_pending ?r) \<subseteq> set (sq_sqes ?r)"
    using assms(1) by (auto simp: forgotten_def sq_pending_def sq_slot_def slot_def)
  then have "\<forall>p \<in># mset (map sqe_user_data (take (er_taken resp) ?es)). p = EventfdBuf"
    using assms by (fastforce simp: forgotten_def dest: in_set_takeD)
  then have "\<forall>p \<in># mset (map cqe_user_data (er_cqes resp)) + infl k'. p = EventfdBuf"
    unfolding enter_conserves [OF e] using assms(1) by (auto simp: forgotten_def live_q_def)
  then show ?thesis
    using assms(1) cq fields unfolding s' by (auto simp: forgotten_def live_q_def frame_done_def consume_sq_def)
qed

lemma forgotten_drain_cqes:
  "forgotten infl s \<Longrightarrow>
   \<exists>s'. drain_cqes os invoke (cq_mask (ring s)) (cq_head (ring s)) (cq_tail (ring s)) s = (None, s') \<and> forgotten infl s'"
proof (induction "cq_len (ring s)" arbitrary: s rule: less_induct)
  case less
  let ?r = "ring s"
  show ?case
  proof (cases "cq_head ?r = cq_tail ?r")
    case True
    then show ?thesis using less.prems by (simp add: drain_cqes.simps)
  next
    case False
    have ok: "cq_ok ?r" using less.prems by (simp add: forgotten_def)
    have ready: "cq_ready ?r = cq_front ?r # tl (cq_ready ?r)"
      using cq.nonempty_iff [OF ok] cq.front_hd [OF ok] False by simp
    then have "cqe_user_data (cq_front ?r) \<in># live_q infl s"
      unfolding live_q_def by (metis list.set_intros(1) list.simps(9) set_mset_mset union_iff)
    then have u: "cqe_user_data (cq_front ?r) = EventfdBuf" using less.prems by (simp add: forgotten_def)
    let ?s1 = "s\<lparr>eventfd_armed := False\<rparr>"
    have p: "process_cqe os invoke (cq_front ?r) s = (None, ?s1\<lparr>inbox := []\<rparr>)"
      using u less.prems by (simp add: process_cqe_def drain_inbox_def forgotten_def)
    let ?s2 = "?s1\<lparr>inbox := [], ring := cq_advance ?r\<rparr>"
    have tl: "cq_ready (cq_advance ?r) = tl (cq_ready ?r)" using cq_ready_advance [OF False] .
    have "set (tl (cq_ready ?r)) \<subseteq> set (cq_ready ?r)" by (cases "cq_ready ?r") auto
    then have "\<forall>p \<in># live_q infl ?s2. p = EventfdBuf"
      using less.prems tl by (auto simp: forgotten_def live_q_def)
    then have f2: "forgotten infl ?s2"
      using less.prems cq.good_advance [OF ok False]
      by (auto simp: forgotten_def frame_done_def cq_advance_def store_cq_head_def)
    have "length (cq_ready (ring ?s2)) < length (cq_ready ?r)" by (subst ready) (simp add: tl)
    moreover have "drain_cqes os invoke (cq_mask ?r) (cq_head ?r) (cq_tail ?r) s
        = drain_cqes os invoke (cq_mask (ring ?s2)) (cq_head (ring ?s2)) (cq_tail (ring ?s2)) ?s2"
      using p False by (subst drain_cqes.simps) (simp add: cq_front_def cq_advance_def store_cq_head_def)
    ultimately show ?thesis using less.hyps [OF _ f2] by simp
  qed
qed

lemma forgotten_round:
  assumes "forgotten infl s"
  obtains s' where "drain os invoke s = (None, s')" "forgotten infl (reap s')"
proof -
  let ?s0 = "if \<not> eventfd_armed s then arm_eventfd_read s else s"
  have f: "forgotten infl ?s0" "eventfd_armed ?s0" using assms forgotten_arm by (auto simp: arm_stages)
  obtain s' where d: "drain os invoke s = (None, s')" and f': "forgotten infl s'"
    using forgotten_drain_cqes [OF forgotten_enter [OF f]] by (force simp: drain_def Let_def)
  then obtain h where "tasks s' = [Some h]" "\<not> frame_done s' h" by (auto simp: forgotten_def)
  then have "reap s' = s'" by (simp add: reap_def Task_done_def)
  with d f' that show thesis by simp
qed

lemma forgotten_hangs:
  fixes invoke :: "('j, 'k) invoke"
  shows "forgotten infl s \<Longrightarrow> shutdown_loop os invoke s = None"
proof -
  have "os' = os \<longrightarrow> inv' = invoke \<longrightarrow> \<not> forgotten infl s"
    if "shutdown_loop os' inv' s = Some y" for os' inv' and s :: "('j, 'k) sched" and y
  proof (rule shutdown_loop.raw_induct [OF _ that, of "\<lambda>os' inv' s y. os' = os \<longrightarrow> inv' = invoke \<longrightarrow> \<not> forgotten infl s"],
      intro impI notI)
    fix loop os' inv' and s :: "('j, 'k) sched" and y
    assume IH: "\<And>os' inv' s y. loop os' inv' s = Some y \<Longrightarrow> os' = os \<longrightarrow> inv' = invoke \<longrightarrow> \<not> forgotten infl s"
      and b: "(if tasks s = [] then Some (None, s) else case drain os' inv' s of (e, s') \<Rightarrow>
        if e \<noteq> None then Some (e, s') else loop os' inv' (reap s')) = Some y"
      and eq: "os' = os" "inv' = invoke" and f: "forgotten infl s"
    obtain s' where d: "drain os invoke s = (None, s')" "forgotten infl (reap s')" using forgotten_round [OF f] .
    have "tasks s \<noteq> []" using f by (auto simp: forgotten_def)
    then have "loop os' inv' (reap s') = Some y" using b d(1) eq by simp
    then show False using IH d(2) eq by blast
  qed
  then show "forgotten infl s \<Longrightarrow> shutdown_loop os invoke s = None" by (cases "shutdown_loop os invoke s") auto
qed

end

lemma fresh0: "sq_mask (fresh_ring 0) = 0" "sq_array (fresh_ring 0) = [0]" "sq_sqes (fresh_ring 0) = [zero_sqe]"
  by (simp_all add: fresh_ring_def)

section \<open>Bodies that give up their slot\<close>

text \<open>An effect, then an operation with a deadline: two slots are needed and only one was checked.\<close>

definition act_then_timed :: "event \<Rightarrow> operation \<Rightarrow> int \<Rightarrow> (int \<Rightarrow> co) \<Rightarrow> co" where
  "act_then_timed ev op ms k = CoAct ev (CoAwait op (Some ms) k)"

lemma reserve_timed_full:
  assumes "sq_ok r" "Suc (sq_len r) = unat (sq_entries r)"
  shows "reserve n op (Some ms) r tls = (False, r, True)"
proof -
  have "needed_slots (mk_op op (Some ms)) = 2" by (simp add: needed_slots_def mk_op_def with_timeout_def)
  moreover have "\<not> has_capacity r 2" using has_capacity_2 [OF assms(1)] assms(2) by simp
  ultimately show ?thesis by (simp add: reserve_def await_suspend_def)
qed

text \<open>
  A \<open>spawn\<close> that passes its first check and finds the side channel set after the body ran throws, and
  the temporary \<open>Task\<close> is destroyed.
\<close>

lemma spawn_late:
  assumes inv: "sched_inv Q s" and cap: "has_capacity (ring s) 1"
    and tls: "tl_sq_full (resume_handle (length (frames s)) (s\<lparr>frames := frames s @ [new_frame TVoid c]\<rparr>))"
  shows "spawn_call os c s = (Some (IOExc SQFull), destroy (length (frames s))
    ((resume_handle (length (frames s)) (s\<lparr>frames := frames s @ [new_frame TVoid c]\<rparr>))\<lparr>tl_sq_full := False\<rparr>))"
proof -
  have "sq_ok (ring s)" using sched_inv_calm [OF inv] by (simp add: calm_def ring_ok_def)
  then show ?thesis
    using cap tls capacity_spawn [of "ring s"]
    by (simp add: spawn_call_def make_task_def Scheduler_spawn_def take_pending_sq_error_def Task_dtor_def Let_def)
qed

lemma destroy_fields:
  "log (destroy h x) = log x" "inbox (destroy h x) = inbox x" "tasks (destroy h x) = tasks x" "ring (destroy h x) = ring x"
  "tl_sq_full (destroy h x) = tl_sq_full x" "eventfd_armed (destroy h x) = eventfd_armed x" "aws (destroy h x) = aws x"
  for x :: "('j, 'k) sched"
  by (simp_all add: destroy_def set_ub_def Let_def split: prod.split)

lemma spawn_throws_late:
  assumes inv: "sched_inv Q s" and one: "Suc (sq_len (ring s)) = unat (sq_entries (ring s))" and k: "k 0 = CoReturn v"
  shows "\<exists>s'. spawn_call os (act_then_timed ev op ms k) s = (Some (IOExc SQFull), s') \<and> log s' = log s @ [ev]
    \<and> inbox s' = inbox s \<and> tasks s' = tasks s \<and> ring s' = ring s \<and> \<not> tl_sq_full s' \<and> eventfd_armed s' = eventfd_armed s"
proof -
  let ?c = "act_then_timed ev op ms k"
  have ok: "sq_ok (ring s)" "\<not> tl_sq_full s" using sched_inv_calm [OF inv] by (simp_all add: calm_def ring_ok_def)
  have cap: "has_capacity (ring s) 1" using has_capacity_1 [OF ok(1)] one by simp
  let ?h = "length (frames s)" and ?m = "s\<lparr>frames := frames s @ [new_frame TVoid ?c]\<rparr>"
  have e: "exec ?c (mst ?m) = (Done (Inr v), (ring s, Suc (length (aws s)), True, log s @ [ev]))"
    using reserve_timed_full [OF ok(1) one] k by (simp add: act_then_timed_def mst_def)
  have l: "lands {?h} ?h (?m\<lparr>current := Some ?h\<rparr>) (exec ?c (mst ?m)) (resume_handle ?h ?m)"
    by (rule resume_new [of ?h ?m TVoid ?c]) simp_all
  have more: "mach.more (resume_handle ?h ?m) = mach.more ?m"
    and m: "ring (resume_handle ?h ?m) = ring s" "tl_sq_full (resume_handle ?h ?m)" "log (resume_handle ?h ?m) = log s @ [ev]"
    using l unfolding e by (simp_all add: lands_def keeps_def mst_def)
  show ?thesis
    using spawn_late [OF inv cap m(2)] m more_fields [OF more] by (simp add: destroy_fields)
qed

text \<open>With two free slots the same body runs its effect and is done with for now, started or out of memory.\<close>

lemma spawn_timed_room:
  assumes "sq_ok (ring s)" "\<not> tl_sq_full s" "has_capacity (ring s) 2"
  shows "\<exists>e s'. spawn_call os (act_then_timed ev op ms k) s = (e, s') \<and> e \<in> {None, Some (IOExc BadAllocation)}
    \<and> log s' = log s @ [ev] \<and> inbox s' = inbox s"
proof -
  let ?c = "act_then_timed ev op ms k"
  have cap: "has_capacity (ring s) 1" using has_capacity_1 [OF assms(1)] has_capacity_2 [OF assms(1)] assms(3) by simp
  let ?h = "length (frames s)" and ?m = "s\<lparr>frames := frames s @ [new_frame TVoid ?c]\<rparr>"
  obtain susp r' tls' where rv: "reserve (length (aws s)) op (Some ms) (ring s) False = (susp, r', tls')" by (metis prod_cases3)
  have "needed_slots (mk_op op (Some ms)) = 2" by (simp add: needed_slots_def mk_op_def with_timeout_def)
  then have "susp \<and> \<not> tls'" using reserve_cases [OF assms(1) rv] assms(3) by auto
  then have e: "exec ?c (mst ?m) = (Susp (length (aws s)) k, (r', Suc (length (aws s)), False, log s @ [ev]))"
    using rv assms(2) by (simp add: act_then_timed_def mst_def)
  have l: "lands {?h} ?h (?m\<lparr>current := Some ?h\<rparr>) (exec ?c (mst ?m)) (resume_handle ?h ?m)"
    by (rule resume_new [of ?h ?m TVoid ?c]) simp_all
  have more: "mach.more (resume_handle ?h ?m) = mach.more ?m"
    and m: "\<not> tl_sq_full (resume_handle ?h ?m)" "log (resume_handle ?h ?m) = log s @ [ev]"
    using l unfolding e by (simp_all add: lands_def keeps_def mst_def)
  show ?thesis
    using cap capacity_spawn [OF assms(1)] m more_fields [OF more]
    by (simp add: spawn_call_def make_task_def Scheduler_spawn_def take_pending_sq_error_def Task_dtor_def Task_move_def
        destroy_fields Let_def)
qed

context uring_kernel
begin

lemma enter_sq_ok:
  assumes "sq_ok (ring s)"
  shows "sq_ok (ring (io_uring_enter os n mc s))"
proof -
  obtain resp q where e: "os_enter os (take (unat n) (sq_pending (ring s))) mc (unat (cq_entries (ring s)) - cq_len (ring s)) (kst s) = (resp, q)"
    by fastforce
  have "er_taken resp \<le> sq_len (ring s)" using enter_taken [OF e] by simp
  then show ?thesis using sq_ok_consume [OF assms] by (simp add: io_uring_enter_def e)
qed

lemma submit_fields:
  fixes s :: "('j, 'k) sched"
  assumes "sq_ok (ring s)" "has_capacity (ring s) 1"
  shows "sq_ok (ring (submit_staged os s))" "log (submit_staged os s) = log s" "inbox (submit_staged os s) = inbox s"
    "tl_sq_full (submit_staged os s) = tl_sq_full s"
proof -
  have "sq_ok (ring (if \<not> eventfd_armed s then arm_eventfd_read s else s))"
    using assms sq_ok_stage has_capacity_1 [OF assms(1)] by (simp add: arm_stages)
  then show "sq_ok (ring (submit_staged os s))" unfolding submit_staged_def Let_def by (rule enter_sq_ok)
  have f: "log (io_uring_enter os n mc x) = log x \<and> inbox (io_uring_enter os n mc x) = inbox x
      \<and> tl_sq_full (io_uring_enter os n mc x) = tl_sq_full x" for n mc and x :: "('j, 'k) sched"
    by (simp add: io_uring_enter_def Let_def split: prod.split)
  then show "log (submit_staged os s) = log s" "inbox (submit_staged os s) = inbox s" "tl_sq_full (submit_staged os s) = tl_sq_full s"
    by (simp_all add: submit_staged_def arm_stages Let_def)
qed

end

text \<open>Destroying the root of a chain destroys every frame of it.\<close>

lemma destroy_frames_chain:
  "chain fs (h # hs) a \<Longrightarrow> snd (destroy_frames h fs) \<and> fr_destroyed (fst (destroy_frames h fs) ! last (h # hs))"
proof (induction hs arbitrary: h fs)
  case Nil
  then show ?case by (subst (1 2) destroy_frames.simps) (auto simp: clean_def)
next
  case (Cons h1 hs)
  let ?fs = "fs[h := (fs ! h)\<lparr>fr_destroyed := True\<rparr>]"
  have c: "h < length fs" "\<not> fr_destroyed (fs ! h)" "\<exists>k. fr_status (fs ! h) = WaitTask h1 k" "h \<notin> set (h1 # hs)"
    "chain fs (h1 # hs) a"
    using Cons.prems by (auto simp: clean_def)
  have "\<forall>i \<in> set (h1 # hs). ?fs ! i = fs ! i" using c(4) by (metis nth_list_update_neq)
  then have "chain ?fs (h1 # hs) a" using chain_cong [OF c(5)] by simp
  moreover have "destroy_frames h fs = destroy_frames h1 ?fs"
    using c(1-3) by (subst destroy_frames.simps) (auto simp: Let_def)
  ultimately show ?case using Cons.IH by simp
qed

lemma spawn_late_staged:
  assumes inv: "sched_inv Q s" and one: "Suc (sq_len (ring s)) = unat (sq_entries (ring s))" and k: "takes_one (k 0)"
  shows "\<exists>s' a. spawn_call os (CoAwait op (Some ms) k) s = (Some (IOExc SQFull), s') \<and> ub_flag s' = None \<and> tasks s' = tasks s
    \<and> map sqe_user_data (sq_pending (ring s')) = map sqe_user_data (sq_pending (ring s)) @ [AwPtr a] \<and> \<not> aw_alive s' a"
proof -
  let ?c = "CoAwait op (Some ms) k"
  have ok: "sq_ok (ring s)" "ub_flag s = None" using sched_inv_calm [OF inv] by (simp_all add: calm_def ring_ok_def)
  have cap: "has_capacity (ring s) 1" using has_capacity_1 [OF ok(1)] one by simp
  let ?h = "length (frames s)" and ?m = "s\<lparr>frames := frames s @ [new_frame TVoid ?c]\<rparr>"
  obtain a f r' n' lg' where e: "exec ?c (mst ?m) = (Susp a f, (r', n', True, lg'))"
    and uds: "map sqe_user_data (sq_pending r') = map sqe_user_data (sq_pending (ring s)) @ [AwPtr a]"
    using exec_one [OF k ok(1) cap, of "Suc (length (aws s))" True "log s"] reserve_timed_full [OF ok(1) one]
    by (auto simp: mst_def)
  let ?m1 = "resume_handle ?h ?m"
  have l: "lands {?h} ?h (?m\<lparr>current := Some ?h\<rparr>) (exec ?c (mst ?m)) ?m1"
    by (rule resume_new [of ?h ?m TVoid ?c]) simp_all
  then obtain hs where m: "ring ?m1 = r'" "tl_sq_full ?m1" "ub_flag ?m1 = None" "mach.more ?m1 = mach.more ?m"
    and ch: "chain (frames ?m1) (?h # hs) a" "aw_handle (aws ?m1 ! a) = Some (last (?h # hs))"
    using ok(2) unfolding e by (auto simp: lands_def keeps_def mst_def)
  let ?s' = "destroy ?h (?m1\<lparr>tl_sq_full := False\<rparr>)"
  note d = destroy_frames_chain [OF ch(1)]
  have "frames ?s' = fst (destroy_frames ?h (frames ?m1))" by (simp add: frames_destroy)
  then have "\<not> aw_alive ?s' a" using ch(2) d by (simp add: aw_alive_def frame_live_def destroy_fields)
  moreover have "ub_flag ?s' = None" using d m(3) by (auto simp: destroy_def Let_def split: prod.split)
  ultimately show ?thesis
    using spawn_late [OF inv cap m(2)] uds m(1) more_fields [OF m(4)] by (auto simp: destroy_fields)
qed

lemma spawn_one_suspends:
  assumes inv: "sched_inv Q s" and one: "takes_one c" and cap: "has_capacity (ring s) 1" and sp: "spawn_call os c s = (None, s')"
  shows "sq_len (ring s') = Suc (sq_len (ring s))" "\<not> frame_done s' (length (frames s))"
proof -
  have ok: "sq_ok (ring s)" "\<not> tl_sq_full s" using sched_inv_calm [OF inv] by (simp_all add: calm_def ring_ok_def)
  let ?h = "length (frames s)" and ?m = "s\<lparr>frames := frames s @ [new_frame TVoid c]\<rparr>"
  obtain a f r' n' lg' where e: "exec c (mst ?m) = (Susp a f, (r', n', False, lg'))"
    and uds: "map sqe_user_data (sq_pending r') = map sqe_user_data (sq_pending (ring s)) @ [AwPtr a]"
    using exec_one [OF one ok(1) cap, of "length (aws s)" False "log s"] ok(2) by (auto simp: mst_def)
  have len: "sq_len r' = Suc (sq_len (ring s))" using arg_cong [OF uds, of length] by simp
  have l: "lands {?h} ?h (?m\<lparr>current := Some ?h\<rparr>) (exec c (mst ?m)) (resume_handle ?h ?m)"
    by (rule resume_new [of ?h ?m TVoid c]) simp_all
  then obtain hs where "ring (resume_handle ?h ?m) = r'" "chain (frames (resume_handle ?h ?m)) (?h # hs) a"
    unfolding e by (auto simp: lands_def mst_def)
  moreover from this have "\<not> frame_done (resume_handle ?h ?m) ?h" by (cases hs) (auto simp: frame_done_def)
  moreover have "ring s' = ring (resume_handle ?h ?m)" "frames s' = frames (resume_handle ?h ?m)"
    using sp by (auto simp: spawn_call_def make_task_def Scheduler_spawn_def Let_def Task_move_def Task_dtor_def
        split: if_splits option.splits prod.splits)
  ultimately show "sq_len (ring s') = Suc (sq_len (ring s))" "\<not> frame_done s' ?h" using len by (simp_all add: frame_done_def)
qed

text \<open>A full ring with one slot.\<close>

lemma one_slot_ring:
  assumes "sq_ok r" "sq_entries r = 1" "sq_len r = 1"
  shows "sq_mask r = 0" "sq_array r = [0]" "\<exists>e. sq_sqes r = [e]"
proof -
  obtain j where "j < 32" "sq_mask r = mask j" "unat (1 :: u32) = 2 ^ j" using ring_sizeE [OF sq_okD(1) [OF assms(1)]] assms(2) by metis
  then show m: "sq_mask r = 0" by (cases j) simp_all
  have l: "length (sq_array r) = 1" "length (sq_sqes r) = 1" using sq_okD(2,3) [OF assms(1)] assms(2) by simp_all
  have "unat (sq_array r ! sq_slot r 0) = sq_slot r 0" using sq_okD(5) [OF assms(1)] assms(3) by simp
  moreover have "sq_slot r 0 = 0" using m by (simp add: sq_slot_def slot_def)
  ultimately have "sq_array r ! 0 = 0" by (simp add: unat_eq_zero)
  then show "sq_array r = [0]" using l(1) by (cases "sq_array r") auto
  show "\<exists>e. sq_sqes r = [e]" using l(2) by (cases "sq_sqes r") auto
qed

context uring_kernel
begin

lemma one_entry_forgotten:
  assumes "Scheduler_ctor os (fresh_ring 0) k = Inr s0" "infl k = {#}" "takes_one c" "spawn_call os c s0 = (None, s)"
  shows "forgotten infl (s\<lparr>shutting_down := b\<rparr>)" "\<not> has_capacity (ring s) 1" "sq_ok (ring s)"
    "\<And>h. Some h \<in> set (tasks s) \<Longrightarrow> h < length (frames s)"
proof -
  have s0: "ring s0 = fresh_ring 0" "tasks s0 = []" "inbox s0 = []" "\<not> eventfd_armed s0"
    using assms(1) by (auto simp: Scheduler_ctor_def split: prod.splits if_splits)
  have safe: "safe infl s0" using ctor_safe [OF assms(1)] ring_ok_fresh [of 0] assms(2) by simp
  then have inv: "sched_inv (live_q infl s0) s0" by (simp add: safe_def)
  have lq: "live_q infl s0 = {#}"
    using assms(1,2) eventfd_keeps ring_ok_fresh(3) [of 0]
    by (auto simp: Scheduler_ctor_def live_q_def split: prod.splits if_splits)
  note k = spawn_keeps [OF inv assms(4)]
  have cq: "cq_same (fresh_ring 0) (ring s)" "sq_entries (ring s) = 1" using k(2) s0 by (simp_all add: same_loop_def)
  show ok: "sq_ok (ring s)" using sched_inv_calm [OF k(1)] by (simp add: calm_def ring_ok_def)
  have cok: "cq_ok (ring s)" using sched_inv_calm [OF k(1)] by (simp add: calm_def ring_ok_def)
  have "has_capacity (ring s0) 1" using has_capacity_1 [of "ring s0"] ring_ok_fresh(1) [of 0] s0(1) by (simp add: ring_ok_def)
  note one = spawn_one_suspends [OF inv assms(3) this assms(4)]
  have len: "sq_len (ring s) = 1" using one(1) s0(1) by simp
  then show "\<not> has_capacity (ring s) 1" using has_capacity_1 [OF ok] cq(2) by simp
  note r = one_slot_ring [OF ok cq(2) len]
  have "live_q infl s = {#}" using lq k(3) cq_same_abs [OF cq(1)] s0(1) by (simp add: live_q_def)
  then show "forgotten infl (s\<lparr>shutting_down := b\<rparr>)"
    using r one(2) k(4-6) cok s0 by (auto simp: forgotten_def live_q_def frame_done_def)
  show "h < length (frames s)" if "Some h \<in> set (tasks s)" for h
    using k(1) that task_root_mem owns_mem unfolding sched_inv_def by metis
qed

end

lemma forgotten_grow:
  assumes "forgotten infl s" "\<And>h. Some h \<in> set (tasks s) \<Longrightarrow> h < length (frames s)"
  shows "forgotten infl (s\<lparr>frames := frames s @ fs\<rparr>)"
  using assms by (auto simp: forgotten_def live_q_def frame_done_def nth_append)

text \<open>A body that awaits an operation with a deadline and then one without.\<close>

definition late_body :: co where
  "late_body = CoAwait (Recv 4 64 16 0) (Some 500) (\<lambda>r. CoAwait (Recv 4 64 16 0) None (\<lambda>r. CoReturn VVoid))"

section \<open>Properties\<close>

text \<open>
  \<open>arm_eventfd_read\<close> does not ask whether a slot is free. On a full submission queue it puts
  the eventfd read into the slot of the oldest staged entry: the queue then holds the read twice,
  first and last, and the oldest operation is no longer in it.
\<close>

theorem arm_overwrites_oldest:
  assumes "sq_ok (ring s)" "length (sq_pending (ring s)) = unat (sq_entries (ring s))"
  shows "sq_pending (ring (arm_eventfd_read s)) =
    eventfd_read_sqe (eventfd s) zero_sqe # tl (sq_pending (ring s)) @ [eventfd_read_sqe (eventfd s) zero_sqe]"
  using stage_full [OF assms(1), of "eventfd_read_sqe (eventfd s)"] assms(2)
  by (simp add: arm_stages eventfd_read_sqe_def)

theorem arm_overwrites_oldest_witness:
  "let s = snd (spawn_call sim_os recv_body (sched_on 0)) in
   map sqe_user_data (sq_pending (ring s)) = [AwPtr 0]
   \<and> map sqe_user_data (sq_pending (ring (arm_eventfd_read s))) = [EventfdBuf, EventfdBuf]"
proof -
  let ?s = "snd (spawn_call sim_os recv_body (sched_on 0))"
  have m: "map sqe_user_data (sq_pending (ring ?s)) = [AwPtr 0]" "unat (sq_entries (ring ?s)) = 1" by code_simp+
  then have l: "length (sq_pending (ring ?s)) = 1" by (metis length_map length_Cons list.size(3) One_nat_def)
  have "safe sim_uds (sched_on 0)" using sim.ctor_safe [OF sched_on] ring_ok_fresh [of 0] by simp
  moreover have "fst (spawn_call sim_os recv_body (sched_on 0)) = None" by code_simp
  then have "reach sim_os recv_jobs (sched_on 0) True ?s" by (rule spawned_reach)
  ultimately have "safe sim_uds ?s" using sim.reach_safe [OF recv_jobs_ok] by blast
  then have "sq_ok (ring ?s)" using sched_inv_calm by (fastforce simp: safe_def calm_def ring_ok_def)
  from arm_overwrites_oldest [OF this] l m
  have "sq_pending (ring (arm_eventfd_read ?s)) = eventfd_read_sqe (eventfd ?s) zero_sqe # tl (sq_pending (ring ?s))
      @ [eventfd_read_sqe (eventfd ?s) zero_sqe]" by simp
  moreover have "tl (sq_pending (ring ?s)) = []" using l by (cases "sq_pending (ring ?s)") auto
  ultimately show ?thesis using m(1) by (simp add: Let_def eventfd_read_sqe_def)
qed

text \<open>
  C30: A burst of posts loses an operation. When at least as many jobs are in the inbox as the ring has
  entries, and each starts a task that awaits an operation, \<open>drain_inbox\<close> starts as many as fit and
  reports nothing wrong. The next \<open>drain\<close> arms the eventfd read first: the operation of the first of
  them is then neither staged nor in flight nor completed, while its coroutine is suspended on it.
\<close>

theorem burst_loses_operation:
  assumes "uring_kernel os infl" "safe infl s" "\<And>j. takes_one (prog j)" "\<And>n k. os_can_grow os n k"
    and "sq_pending (ring s) = []" "unat (sq_entries (ring s)) \<le> length (inbox s)"
    and "drain_inbox os (\<lambda>j. spawn_call os (prog j)) s = (e, s')"
  shows "e = None \<and> length (tasks s') = length (tasks s) + unat (sq_entries (ring s))
    \<and> (let s'' = arm_eventfd_read s' in
       \<exists>a. sqe_user_data (hd (sq_pending (ring s'))) = AwPtr a \<and> aw_alive s'' a \<and> AwPtr a \<notin># sq_uds (ring s'') + live_q infl s'')"
proof -
  let ?n = "unat (sq_entries (ring s))"
  have inv: "sched_inv (live_q infl s) (s\<lparr>inbox := []\<rparr>)"
    using assms(2) keeps_safe_flags(1) [of infl s] by (auto simp: safe_def keeps_safe_def)
  have empty: "sq_len (ring s) = 0" using assms(5) length_sq_pending [of "ring s"] by simp
  have d: "drain_local os (\<lambda>j. spawn_call os (prog j)) (inbox s) (s\<lparr>inbox := []\<rparr>) = (e, s')"
    using assms(7) by (simp add: drain_inbox_def)
  have e: "e = None" "length (tasks s') = length (tasks s) + ?n" and inv': "sched_inv (live_q infl s) s'"
    and loop: "same_loop s s'" and k: "infl (kst s') = infl (kst s)"
    and as: "\<exists>as. map sqe_user_data (sq_pending (ring s')) = map AwPtr as \<and> length as = ?n"
    using uring_kernel.drain_local_capacity [OF assms(1) inv assms(3,4) d] assms(5,6) empty
    by (simp_all add: same_loop_def min.absorb2)
  have lq: "live_q infl s' = live_q infl s" using loop k cq_same_abs [of "ring s" "ring s'"] by (simp add: live_q_def same_loop_def)
  have ok: "sq_ok (ring s')" using sched_inv_calm [OF inv'] by (simp add: calm_def ring_ok_def)
  have n: "sq_entries (ring s') = sq_entries (ring s)" using loop by (simp add: same_loop_def)
  obtain as where as: "map sqe_user_data (sq_pending (ring s')) = map AwPtr as" "length as = ?n" using as by blast
  have full: "sq_len (ring s') = unat (sq_entries (ring s'))" using arg_cong [OF as(1), of length] as(2) n by simp
  have "0 < length as" using as(2) n ring_size_pos [OF sq_okD(1) [OF ok]] by simp
  then obtain a as' where a: "as = a # as'" by (cases as) auto
  then obtain x q where q: "sq_pending (ring s') = x # q" "sqe_user_data x = AwPtr a" using as(1) by (cases "sq_pending (ring s')") auto
  let ?s'' = "arm_eventfd_read s'" and ?e = "eventfd_read_sqe (eventfd s') zero_sqe"
  have "sq_pending (ring ?s'') = ?e # q @ [?e]"
    using stage_full [OF ok full, of "eventfd_read_sqe (eventfd s')" ?e] q(1) by (simp add: arm_stages eventfd_read_sqe_def)
  then have uds: "sq_uds (ring ?s'') = {#EventfdBuf, EventfdBuf#} + mset (map sqe_user_data q)"
    by (simp add: sq_uds_def eventfd_read_sqe_def)
  have lq'': "live_q infl ?s'' = live_q infl s"
    using lq by (simp add: arm_stages live_q_def cq_ready_def cq_len_def cq_slot_def)
  have mem: "AwPtr a \<in># sq_uds (ring s')" using q by (simp add: sq_uds_def)
  have "count (sq_uds (ring s') + live_q infl s) (AwPtr a) = 1" by (rule outstanding_once [OF inv' mem])
  then have "count (mset (map sqe_user_data q) + live_q infl s) (AwPtr a) = 0" using q by (simp add: sq_uds_def)
  then have gone: "AwPtr a \<notin># sq_uds (ring ?s'') + live_q infl ?s''" unfolding uds lq'' not_in_iff by simp
  have "safe infl s'" using inv' lq by (simp add: safe_def)
  from safe_alive [OF this, of a] mem have "aw_alive ?s'' a" by (simp add: arm_stages aw_alive_def frame_live_def cong: option.case_cong)
  then show ?thesis using e gone q by (simp add: Let_def)
qed

theorem burst_loses_operation_witness:
  "let s = (sched_on 1)\<lparr>inbox := [7, 8]\<rparr>; s' = snd (drain_inbox sim_os recv_jobs s); s'' = arm_eventfd_read s'
   in length (tasks s') = 2 \<and> (\<exists>a. aw_alive s'' a \<and> AwPtr a \<notin># sq_uds (ring s'') + live_q sim_uds s'')"
proof -
  let ?s = "(sched_on 1)\<lparr>inbox := [7, 8]\<rparr>"
  have "safe sim_uds (sched_on 1)" using sim.ctor_safe [OF sched_on] ring_ok_fresh [of 1] by simp
  then have safe: "safe sim_uds ?s" using sim.keeps_safe_safe [OF keeps_safe_flags(1)] by blast
  have p: "sq_pending (ring ?s) = []" "unat (sq_entries (ring ?s)) = 2" "tasks ?s = []"
    using ring_ok_fresh [of 1] by (simp_all add: sched_on_def Scheduler_ctor_def sim_os_def)
  obtain e s' where d: "drain_inbox sim_os recv_jobs ?s = (e, s')" by fastforce
  from burst_loses_operation [OF sim.uring_kernel_axioms safe _ sim_can_grow p(1) _ d [unfolded recv_jobs_def]] p
  show ?thesis using d by (auto simp: recv_body_def Let_def)
qed

text \<open>
  C29: A scheduler is created on a new ring of one entry, and the first thing done with it, before any
  \<open>drain\<close>, is to spawn a task that suspends on its first operation, one without a deadline. The slot is
  taken when the loop first arms the eventfd read: \<open>shutdown\<close> called then never returns, whatever the
  kernel does and whatever jobs exist. (After a \<open>drain\<close> the read is armed and the same spawn is served.)
\<close>

theorem one_entry_ring_shutdown_hangs:
  assumes "uring_kernel os infl" "Scheduler_ctor os (fresh_ring 0) k = Inr s0" "infl k = {#}"
    and "takes_one c" "spawn_call os c s0 = (None, s)"
  shows "shutdown os invoke s = None"
  using uring_kernel.one_entry_forgotten(1) [OF assms, of True] uring_kernel.forgotten_hangs [OF assms(1)]
  by (simp add: shutdown_def)

theorem one_entry_ring_shutdown_hangs_witness:
  "shutdown sim_os recv_jobs (snd (spawn_call sim_os recv_body (sched_on 0))) = None"
proof -
  have "fst (spawn_call sim_os recv_body (sched_on 0)) = None" by code_simp
  then have "spawn_call sim_os recv_body (sched_on 0) = (None, snd (spawn_call sim_os recv_body (sched_on 0)))"
    by (metis prod.collapse)
  from one_entry_ring_shutdown_hangs [OF sim.uring_kernel_axioms sched_on _ _ this] show ?thesis
    by (simp add: recv_body_def)
qed

text \<open>
  C31: The check of the side channel comes after the body has run, so a job can run its effects more
  than once. The job is the only one in the inbox, the ring has exactly one free slot, and the job's
  task has an effect \<open>ev\<close>, then awaits an operation with a deadline and returns when it is refused.
  Handling the completion of the eventfd read then runs the effect, and puts the job back as if nothing
  had run. When the submission at the head of the next \<open>drain\<close> leaves two slots free, handling the next
  completion of the eventfd read runs the effect a second time, and takes the job out of the inbox.
\<close>

theorem retried_job_repeats_effects:
  assumes "uring_kernel os infl" "safe infl s" "Suc (length (sq_pending (ring s))) = unat (sq_entries (ring s))" "inbox s = [j]"
    and "k 0 = CoReturn v" "invoke = (\<lambda>j. spawn_call os (act_then_timed ev op ms k))"
    and "cqe_user_data c = EventfdBuf" "process_cqe os invoke c s = (e, s1)"
    and "has_capacity (ring (submit_staged os s1)) 2"
    and "cqe_user_data c' = EventfdBuf" "process_cqe os invoke c' (submit_staged os s1) = (e', s2)"
  shows "inbox s1 = [j] \<and> tasks s1 = tasks s \<and> log s1 = log s @ [ev] \<and> inbox s2 = [] \<and> log s2 = log s @ [ev, ev]"
proof -
  let ?s = "s\<lparr>eventfd_armed := False, inbox := []\<rparr>"
  have "keeps_safe infl s (s\<lparr>eventfd_armed := False\<rparr>)" "keeps_safe infl (s\<lparr>eventfd_armed := False\<rparr>) ?s"
    using keeps_safe_flags [of infl] by simp_all
  then have inv: "sched_inv (live_q infl s) ?s" using assms(2) unfolding safe_def keeps_safe_def by blast
  have one: "Suc (sq_len (ring ?s)) = unat (sq_entries (ring ?s))" using assms(3) by simp
  obtain t where t: "spawn_call os (act_then_timed ev op ms k) ?s = (Some (IOExc SQFull), t)" "log t = log s @ [ev]" "inbox t = []"
    "tasks t = tasks s" "ring t = ring s" "\<not> tl_sq_full t"
    using spawn_throws_late [where s = ?s and k = k and ev = ev and os = os and op = op and ms = ms, OF inv one assms(5)] by auto
  have s1: "s1 = snd (poke_eventfd os (t\<lparr>inbox := [j]\<rparr>))"
    using assms(4,6,7,8) t by (simp add: process_cqe_def drain_inbox_def)
  then have f1: "inbox s1 = [j]" "tasks s1 = tasks s" "log s1 = log s @ [ev]" "ring s1 = ring s" "\<not> tl_sq_full s1"
    using t by (simp_all add: poke_eventfd_def split: prod.split)
  have ok: "sq_ok (ring s)" using sched_inv_calm [OF inv] by (simp add: calm_def ring_ok_def)
  have cap: "has_capacity (ring s) 1" using has_capacity_1 [OF ok] assms(3) by simp
  let ?t = "(submit_staged os s1)\<lparr>eventfd_armed := False, inbox := []\<rparr>"
  note sub = uring_kernel.submit_fields [OF assms(1), of s1, unfolded f1(4), OF ok cap]
  obtain e2 u where u: "spawn_call os (act_then_timed ev op ms k) ?t = (e2, u)" "e2 \<in> {None, Some (IOExc BadAllocation)}"
    "log u = log s @ [ev, ev]" "inbox u = []"
    using spawn_timed_room [of ?t os ev op ms k] sub f1 assms(9) by auto
  have "s2 = u"
    using assms(6,10,11) u sub(3) f1(1) by (auto simp: process_cqe_def drain_inbox_def)
  then show ?thesis using f1 u by simp
qed

text \<open>
  A two-entry ring in which one operation is staged: the completion of the read finds one free slot,
  the submission that follows takes both entries out.
\<close>

definition effect_body :: co where
  "effect_body = act_then_timed (''effect'', 1) (Recv 4 64 16 0) 500 (\<lambda>r. CoReturn VVoid)"

definition one_staged :: "(nat, sim) sched" where
  "one_staged = snd (post sim_os 7 (snd (spawn_call sim_os recv_body (sched_on 1))))"

lemma one_staged: "safe sim_uds one_staged" "length (sq_pending (ring one_staged)) = 1" "unat (sq_entries (ring one_staged)) = 2"
  "inbox one_staged = [7]" "log one_staged = []"
proof -
  have "safe sim_uds (sched_on 1)" using sim.ctor_safe [OF sched_on] ring_ok_fresh [of 1] by simp
  moreover have "fst (spawn_call sim_os recv_body (sched_on 1)) = None" by code_simp
  then have "reach sim_os recv_jobs (sched_on 1) True one_staged"
    unfolding one_staged_def by (intro reach.post spawned_reach)
  ultimately show "safe sim_uds one_staged" using sim.reach_safe [OF recv_jobs_ok] by blast
  show "length (sq_pending (ring one_staged)) = 1" "unat (sq_entries (ring one_staged)) = 2" "inbox one_staged = [7]" "log one_staged = []"
    by code_simp+
qed

theorem retried_job_repeats_effects_witness:
  "let invoke = (\<lambda>j. spawn_call sim_os effect_body); c = \<lparr>cqe_user_data = EventfdBuf, cqe_res = 8\<rparr>;
       s1 = snd (process_cqe sim_os invoke c one_staged); s2 = snd (process_cqe sim_os invoke c (submit_staged sim_os s1))
   in inbox s1 = [7] \<and> inbox s2 = [] \<and> log s2 = [(''effect'', 1), (''effect'', 1)]"
proof -
  let ?c = "\<lparr>cqe_user_data = EventfdBuf, cqe_res = 8\<rparr>" and ?i = "\<lambda>j. spawn_call sim_os effect_body"
  let ?s1 = "snd (process_cqe sim_os ?i ?c one_staged)"
  have r: "has_capacity (ring (submit_staged sim_os ?s1)) 2" by code_simp
  have u: "cqe_user_data ?c = EventfdBuf" by simp
  have l: "Suc (length (sq_pending (ring one_staged))) = unat (sq_entries (ring one_staged))"
    using one_staged(2,3) by (simp only:)
  from retried_job_repeats_effects [OF sim.uring_kernel_axioms one_staged(1) l one_staged(4) HOL.refl HOL.refl u
      prod.collapse [symmetric] r [unfolded effect_body_def] u prod.collapse [symmetric]] one_staged(5)
  show ?thesis by (simp add: Let_def effect_body_def)
qed

text \<open>
  C28: A task that \<open>spawn\<close> rejects after \<open>resume()\<close> can already have an operation staged. In any state
  with exactly one free slot, on any kernel, take a task that awaits any operation with a deadline and,
  when that is refused, goes on to suspend on an operation without one. \<open>spawn\<close> throws \<open>SQFull\<close>; the
  frames of the task are destroyed with the temporary \<open>Task\<close>, nothing undefined has happened yet, and
  the operation is staged with the address of an awaitable that is gone. Its completion, with whatever
  result, makes \<open>drain\<close> write into that awaitable and resume a destroyed coroutine.
\<close>

theorem late_sqfull_use_after_free:
  assumes "safe infl s" "Suc (length (sq_pending (ring s))) = unat (sq_entries (ring s))" "takes_one (k 0)"
  shows "\<exists>s' a. spawn_call os (CoAwait op (Some ms) k) s = (Some (IOExc SQFull), s') \<and> tasks s' = tasks s \<and> ub_flag s' = None
    \<and> map sqe_user_data (sq_pending (ring s')) = map sqe_user_data (sq_pending (ring s)) @ [AwPtr a] \<and> \<not> aw_alive s' a
    \<and> (\<forall>c. cqe_user_data c = AwPtr a \<longrightarrow> ub_flag (snd (process_cqe os invoke c s')) = Some UseAfterFree)"
proof -
  have "Suc (sq_len (ring s)) = unat (sq_entries (ring s))" using assms(2) by simp
  from spawn_late_staged [where k = k and os = os and op = op and ms = ms, OF assms(1) [unfolded safe_def] this assms(3)] show ?thesis
    by (fastforce simp: process_cqe_def deliver_def set_ub_def)
qed

theorem late_sqfull_use_after_free_witness:
  "\<exists>s'. spawn_call sim_os late_body one_staged = (Some (IOExc SQFull), s') \<and> ub_flag s' = None
    \<and> (\<exists>a. map sqe_user_data (sq_pending (ring s')) = [AwPtr 0, AwPtr a] \<and> \<not> aw_alive s' a
        \<and> ub_flag (snd (process_cqe sim_os recv_jobs \<lparr>cqe_user_data = AwPtr a, cqe_res = 5\<rparr> s')) = Some UseAfterFree)"
proof -
  have l: "Suc (length (sq_pending (ring one_staged))) = unat (sq_entries (ring one_staged))"
    using one_staged(2,3) by (simp only:)
  have m: "map sqe_user_data (sq_pending (ring one_staged)) = [AwPtr 0]" by code_simp
  have one: "takes_one (CoAwait (Recv 4 64 16 0) None (\<lambda>r. CoReturn VVoid))" by simp
  note u = late_sqfull_use_after_free [where k = "\<lambda>r. CoAwait (Recv 4 64 16 0) None (\<lambda>r. CoReturn VVoid)" and os = sim_os
      and op = "Recv 4 64 16 0" and ms = 500 and invoke = recv_jobs, OF one_staged(1) l one, unfolded m, folded late_body_def]
  then show ?thesis by fastforce
qed

end
