(* ===== verification/Shutdown.thy ===== *)
theory Shutdown
  imports Scheduler_Limits
begin

text \<open>
  \<open>Scheduler::run\<close> and \<open>Scheduler::shutdown\<close> with nothing posted. The kernel is one that makes
  progress: it takes everything that is staged, and as long as an operation is outstanding every call
  of \<open>io_uring_enter\<close> completes one or brings that moment closer. The ring has more than two slots per
  task, so that there is always one for the eventfd read. Every completion that is processed leaves
  less to do in the suspended bodies, so the loop of \<open>shutdown\<close> reaches the state with no task.
\<close>

section \<open>Work left\<close>

abbreviation less_work :: "(fstatus multiset \<times> fstatus multiset) set" where
  "less_work \<equiv> (mult1 {(s, t). point_less s t})\<^sup>+"

lemma wf_less_work: "wf less_work"
  by (intro wf_trancl wf_mult1 wf_point_less)

lemma co_step_work:
  assumes "current m = Some h"
  shows "(points (frames (co_step h m)), points (frames m)) \<in> less_work\<^sup>="
  using co_step_progress [OF assms] by (auto simp: progress_rel_def)

lemma run_work: "(points (frames (run m)), points (frames m)) \<in> less_work\<^sup>="
proof (induction m rule: run.induct)
  case (1 m)
  show ?case
  proof (cases "current m")
    case None
    then show ?thesis by simp
  next
    case (Some h)
    then have "(points (frames (run (co_step h m))), points (frames (co_step h m))) \<in> less_work\<^sup>=" by (rule 1)
    then show ?thesis
      using co_step_work [OF Some] Some by (subst run.simps) (auto intro: trancl_trans)
  qed
qed

lemma resume_work:
  assumes "frame_live m h" "fr_status (frames m ! h) = WaitOp a k"
  shows "(points (frames (resume_handle h m)), points (frames m)) \<in> less_work"
proof -
  let ?m = "m\<lparr>current := Some h\<rparr>" and ?st = "Ready (k (await_resume (aws m ! a)))"
  have h: "h < length (frames m)" using assms(1) by (simp add: frame_live_def)
  have step: "co_step h ?m = set_status h ?st ?m" using assms by (simp add: co_step_def frame_live_def)
  have "(points (frames (co_step h ?m)), points (frames m)) \<in> mult1 {(s, t). point_less s t}"
    unfolding step set_status_def upd_frame_def using h assms(2)
    by (simp add: points_status point_less.intros)
  moreover have "(points (frames (run (co_step h ?m))), points (frames (co_step h ?m))) \<in> less_work\<^sup>=" by (rule run_work)
  moreover have "resume_handle h m = run (co_step h ?m)"
    unfolding resume_handle_def by (rule run_step) simp
  ultimately show ?thesis by (auto intro: trancl_trans)
qed

lemma deliver_work:
  assumes "aw_alive s a"
  shows "(points (frames (deliver a res s)), points (frames s)) \<in> less_work"
proof -
  obtain h k where h: "a < length (aws s)" "aw_handle (aws s ! a) = Some h" "frame_live s h" "fr_status (frames s ! h) = WaitOp a k"
    using assms by (auto simp: aw_alive_def split: option.splits fstatus.splits)
  let ?s = "s\<lparr>aws := (aws s)[a := (aws s ! a)\<lparr>aw_result := res\<rparr>]\<rparr>"
  have "(points (frames (resume_handle h ?s)), points (frames ?s)) \<in> less_work"
    using h by (intro resume_work [of _ _ a k]) (simp_all add: frame_live_def)
  then show ?thesis using assms h by (simp add: deliver_def Let_def)
qed

lemma reap_work: "sched_inv Q s \<Longrightarrow> points (frames (reap s)) = points (frames s)"
proof -
  assume "sched_inv Q s"
  moreover have "map fr_status (reaped_frames s) = map fr_status (frames s)"
    by (rule nth_equalityI) (simp_all add: reaped_frames_def)
  ultimately show ?thesis by (simp add: reap_effect points_def)
qed

lemma reap_all_unfinished:
  assumes "sched_inv Q s"
  shows "\<forall>t \<in> set (tasks (reap s)). \<not> Task_done (reap s) t"
proof
  obtain ch lf where o: "owns s ch lf" using assms by (auto simp: sched_inv_def)
  note re = reap_effect [OF assms]
  fix t assume "t \<in> set (tasks (reap s))"
  then have t: "t \<in> set (unfinished s)" by (simp add: re)
  then have "t \<in> set (tasks s)" by (simp add: unfinished_def)
  then obtain h where h: "t = Some h" using o unfolding owns_def by (metis option.exhaust)
  then have "h \<in> set (ch h)" using owns_mem [OF o] task_root_mem \<open>t \<in> set (tasks s)\<close> by blast
  then have "frames (reap s) ! h = frames s ! h" using reap_frames_kept [OF o] t h by (simp add: re)
  then show "\<not> Task_done (reap s) t" using t h by (simp add: unfinished_def Task_done_def frame_done_def)
qed

section \<open>A batch of completions\<close>

definition no_jobs :: "('j, 'k) invoke" where
  "no_jobs = (\<lambda>j s. (None, s))"

lemma no_jobs_ok: "jobs_ok infl no_jobs"
  by (simp add: jobs_ok_def no_jobs_def)

lemma process_cqe_no_jobs: "inbox s = [] \<Longrightarrow> process_cqe os invoke c s = process_cqe os no_jobs c s"
  by (simp add: process_cqe_def drain_inbox_def)

text \<open>What is the same after a batch, and how many slots it has used.\<close>

definition batch :: "nat \<Rightarrow> ('j, 'k) sched \<Rightarrow> ('j, 'k) sched \<Rightarrow> bool" where
  "batch n s s' \<longleftrightarrow> kst s' = kst s \<and> tasks s' = tasks s \<and> eventfd s' = eventfd s \<and> inbox s' = []
     \<and> sq_entries (ring s') = sq_entries (ring s) \<and> sq_len (ring s') \<le> sq_len (ring s) + 2 * n
     \<and> (points (frames s'), points (frames s)) \<in> less_work\<^sup>=
     \<and> (0 < n \<longrightarrow> (points (frames s'), points (frames s)) \<in> less_work)"

definition ops_in :: "cqe list \<Rightarrow> nat" where
  "ops_in cs = length (filter (\<lambda>c. is_aw (cqe_user_data c)) cs)"

lemma batch_trans:
  assumes "batch n s s1" "batch m s1 s2"
  shows "batch (n + m) s s2"
proof -
  have "(points (frames s2), points (frames s)) \<in> less_work" if "0 < n + m"
    using that assms unfolding batch_def by (cases "0 < n") (auto intro: trancl_trans)
  moreover have "(points (frames s2), points (frames s)) \<in> less_work\<^sup>="
    using assms unfolding batch_def by (auto intro: trancl_trans)
  ultimately show ?thesis using assms by (simp add: batch_def)
qed

context uring_kernel
begin

lemma process_one:
  assumes safe: "safe infl s" and q: "cqe_user_data c \<in># live_q infl s" and ib: "inbox s = []"
  shows "\<exists>s1. process_cqe os invoke c s = (None, s1) \<and> batch (if is_aw (cqe_user_data c) then 1 else 0) s s1"
proof -
  have "\<forall>p \<in># live_q infl s. is_aw p \<or> p = NullPtr \<or> p = EventfdBuf"
    using safe by (auto simp: safe_def sched_inv_def outstanding_def)
  with q consider a where "cqe_user_data c = AwPtr a" | "cqe_user_data c = NullPtr" | "cqe_user_data c = EventfdBuf"
    by (cases "cqe_user_data c") auto
  then show ?thesis
  proof cases
    case 1
    have "sched_inv (add_mset (AwPtr a) (live_q infl s - {#AwPtr a#})) s" using safe q 1 by (simp add: safe_def)
    note f = deliver_frame [OF this, of "cqe_res c"]
    have "aw_alive s a" using safe_alive [OF safe] q 1 by simp
    then show ?thesis using 1 f ib deliver_work [of s a "cqe_res c"]
      by (auto simp: process_cqe_def batch_def same_loop_def intro: trancl_into_rtrancl)
  qed (simp_all add: process_cqe_def batch_def drain_inbox_def ib)
qed

lemma process_all_idle:
  assumes "safe infl s" "inbox s = []"
  shows "\<exists>s'. process_all os invoke (cq_ready (ring s)) s = (None, s') \<and> batch (ops_in (cq_ready (ring s))) s s'"
  using assms
proof (induction "cq_ready (ring s)" arbitrary: s)
  case Nil
  have "cq_ready (ring s) = []" using Nil.hyps by simp
  then show ?case using Nil.prems(2) by (simp add: batch_def ops_in_def)
next
  case (Cons c cs)
  let ?r = "ring s"
  have ne: "cq_head ?r \<noteq> cq_tail ?r" using Cons.hyps(2) by (auto simp: cq_ready_def cq_len_def)
  have inq: "cqe_user_data c \<in># live_q infl s" by (simp add: live_q_def flip: Cons.hyps(2))
  obtain s1 where p: "process_cqe os invoke c s = (None, s1)" "batch (if is_aw (cqe_user_data c) then 1 else 0) s s1"
    using process_one [OF Cons.prems(1) inq Cons.prems(2)] by blast
  have c: "c = cq_front ?r" "cs = tl (cq_ready ?r)"
    using cqe_step(5) [OF no_jobs_ok Cons.prems(1) ne prod.collapse [symmetric]] Cons.hyps(2)
    by (metis list.sel(1), metis list.sel(3))
  have "process_cqe os no_jobs (cq_front ?r) s = (None, s1)"
    using p(1) process_cqe_no_jobs [OF Cons.prems(2), of os invoke c] c(1) by (simp only:)
  note st = cqe_step [OF no_jobs_ok Cons.prems(1) ne this]
  let ?s2 = "s1\<lparr>ring := cq_advance (ring s1)\<rparr>"
  have b2: "batch 0 s1 ?s2" using p(2) by (simp add: batch_def cq_advance_def)
  have "cs = cq_ready (ring ?s2)" "inbox ?s2 = []" using st(4) c b2 by (simp_all add: batch_def)
  from Cons.hyps(1) [OF this(1) st(3) this(2)] this(1)
  obtain s' where s': "process_all os invoke cs ?s2 = (None, s')" "batch (ops_in cs) ?s2 s'" by auto
  have "batch ((if is_aw (cqe_user_data c) then 1 else 0) + (0 + ops_in cs)) s s'"
    by (rule batch_trans [OF p(2) batch_trans [OF b2 s'(2)]])
  then have "batch (ops_in (c # cs)) s s'" by (simp add: ops_in_def split: if_splits)
  then show ?case using p(1) s'(1) by (simp flip: Cons.hyps(2))
qed

text \<open>Two sets of callables that agree on every state the processing goes through.\<close>

lemma drain_cqes_agree:
  assumes jobs: "jobs_ok infl invoke'" and "safe infl s" "P s"
    and eq: "\<And>s c. safe infl s \<Longrightarrow> P s \<Longrightarrow> c \<in> set (cq_ready (ring s)) \<Longrightarrow> process_cqe os invoke c s = process_cqe os invoke' c s"
    and step: "\<And>s c s1. safe infl s \<Longrightarrow> P s \<Longrightarrow> c \<in> set (cq_ready (ring s)) \<Longrightarrow> process_cqe os invoke' c s = (None, s1) \<Longrightarrow>
      P (s1\<lparr>ring := cq_advance (ring s1)\<rparr>)"
  shows "drain_cqes os invoke (cq_mask (ring s)) (cq_head (ring s)) (cq_tail (ring s)) s
    = drain_cqes os invoke' (cq_mask (ring s)) (cq_head (ring s)) (cq_tail (ring s)) s"
  using assms(2,3)
proof (induction "cq_len (ring s)" arbitrary: s rule: less_induct)
  case less
  let ?r = "ring s"
  obtain e s1 where p: "process_cqe os invoke' (cq_front ?r) s = (e, s1)" by fastforce
  show ?case
  proof (cases "cq_head ?r = cq_tail ?r")
    case True
    then show ?thesis by (simp add: drain_cqes.simps)
  next
    case False
    note st = cqe_step [OF jobs less.prems(1) False p]
    have c: "cq_front ?r \<in> set (cq_ready ?r)" by (subst st(5)) simp
    have p': "process_cqe os invoke (cq_front ?r) s = (e, s1)" using eq [OF less.prems c] p by simp
    let ?s2 = "s1\<lparr>ring := cq_advance (ring s1)\<rparr>"
    have "length (cq_ready (ring ?s2)) < length (cq_ready ?r)" by (subst st(5)) (simp add: st(4))
    then have "cq_len (ring ?s2) < cq_len ?r" by simp
    note IH = less.hyps [OF this st(3)]
    have unfold: "drain_cqes os f (cq_mask ?r) (cq_head ?r) (cq_tail ?r) s
        = (if e = None then drain_cqes os f (cq_mask (ring ?s2)) (cq_head (ring ?s2)) (cq_tail (ring ?s2)) ?s2 else (e, s1))"
      if "process_cqe os f (cq_front ?r) s = (e, s1)" for f
      using that False st(1)
      by (subst drain_cqes.simps) (auto simp: cq_front_def cq_advance_def store_cq_head_def cq_same_def split: option.split)
    show ?thesis using unfold [OF p] unfold [OF p'] IH step [OF less.prems c] p by simp
  qed
qed

lemma drain_cqes_no_jobs:
  assumes "safe infl s" "inbox s = []"
  shows "drain_cqes os invoke (cq_mask (ring s)) (cq_head (ring s)) (cq_tail (ring s)) s
    = drain_cqes os no_jobs (cq_mask (ring s)) (cq_head (ring s)) (cq_tail (ring s)) s"
proof (rule drain_cqes_agree [OF no_jobs_ok, of s "\<lambda>s. inbox s = []", OF assms])
  fix s :: "('a, 'k) sched" and c s1
  assume s: "safe infl s" "inbox s = []" "c \<in> set (cq_ready (ring s))" "process_cqe os no_jobs c s = (None, s1)"
  then have "cqe_user_data c \<in># live_q infl s" by (auto simp: live_q_def)
  from process_one [OF s(1) this s(2), of no_jobs] s(4) show "inbox (s1\<lparr>ring := cq_advance (ring s1)\<rparr>) = []"
    by (auto simp: batch_def)
qed (rule process_cqe_no_jobs)

lemma drain_cqes_idle:
  assumes "safe infl s" "inbox s = []"
  shows "\<exists>s'. drain_cqes os invoke (cq_mask (ring s)) (cq_head (ring s)) (cq_tail (ring s)) s = (None, s')
    \<and> batch (ops_in (cq_ready (ring s))) s s' \<and> safe infl s' \<and> cq_ready (ring s') = []"
proof -
  note all = drain_cqes_all [OF no_jobs_ok assms(1) prod.collapse [symmetric]]
  obtain s' where s': "process_all os no_jobs (cq_ready (ring s)) s = (None, s')" "batch (ops_in (cq_ready (ring s))) s s'"
    using process_all_idle [OF assms] by blast
  then show ?thesis
    using all drain_cqes_no_jobs [OF assms, of invoke] by (intro exI [of _ s']) simp
qed

end

lemma outstanding_op:
  assumes "sched_inv Q s" "unfinished s \<noteq> []"
  shows "\<exists>p \<in># sq_uds (ring s) + Q. is_aw p"
proof -
  obtain ch lf where "outstanding Q s lf" using assms(1) by (auto simp: sched_inv_def)
  then have "filter_mset is_aw (sq_uds (ring s) + Q) = mset (map (\<lambda>t. AwPtr (lf (the t))) (unfinished s))"
    by (simp only: outstanding_def)
  moreover obtain t where "t \<in> set (unfinished s)" using assms(2) by (meson ex_in_conv set_empty)
  then have "AwPtr (lf (the t)) \<in># mset (map (\<lambda>t. AwPtr (lf (the t))) (unfinished s))" by (simp add: rev_image_eqI)
  ultimately have "AwPtr (lf (the t)) \<in># filter_mset is_aw (sq_uds (ring s) + Q)" by (simp only:)
  then show ?thesis by (intro bexI [of _ "AwPtr (lf (the t))"]) simp_all
qed

text \<open>At most one completion per task can be waiting.\<close>

lemma ops_le_tasks:
  assumes "safe infl s"
  shows "ops_in (cq_ready (ring s)) \<le> length (tasks s)"
proof -
  obtain ch lf where "outstanding (live_q infl s) s lf" using assms by (auto simp: safe_def sched_inv_def)
  then have e: "filter_mset is_aw (sq_uds (ring s) + live_q infl s) = mset (map (\<lambda>t. AwPtr (lf (the t))) (unfinished s))"
    by (simp only: outstanding_def)
  have "size (filter_mset is_aw (mset (map cqe_user_data (cq_ready (ring s))))) \<le> size (filter_mset is_aw (sq_uds (ring s) + live_q infl s))"
    by (intro size_mset_mono) (simp add: live_q_def)
  also have "\<dots> = length (unfinished s)" unfolding e by simp
  also have "\<dots> \<le> length (tasks s)" by (simp add: unfinished_def)
  finally have "size (filter_mset is_aw (mset (map cqe_user_data (cq_ready (ring s))))) \<le> length (tasks s)" .
  moreover have "size (filter_mset is_aw (mset (map cqe_user_data cs))) = ops_in cs" for cs
    by (induction cs) (simp_all add: ops_in_def)
  ultimately show ?thesis by simp
qed

lemma arm_pending:
  assumes "sq_ok (ring s)" "has_capacity (ring s) 1"
  shows "set (sq_pending (ring s)) \<subseteq> set (sq_pending (ring (arm_eventfd_read s)))"
  using assms has_capacity_1 by (auto simp: arm_stages sq_pending_stage)

lemma armed_safe:
  assumes safe: "safe infl s" and slot: "eventfd_armed s \<or> has_capacity (ring s) 1"
  shows "safe infl (if \<not> eventfd_armed s then arm_eventfd_read s else s)"
proof -
  have rok: "sq_ok (ring s)" using safe sched_inv_calm by (fastforce simp: safe_def calm_def ring_ok_def)
  have "eventfd_armed s \<or> sq_len (ring s) < unat (sq_entries (ring s))" using slot has_capacity_1 [OF rok] by auto
  moreover have "live_q infl (arm_eventfd_read s) = live_q infl s" by (simp add: arm_stages live_q_def)
  ultimately show ?thesis using safe arm_inv(1) by (auto simp: safe_def)
qed

text \<open>What a number of calls of \<open>io_uring_enter\<close> makes of the kernel's state.\<close>

inductive kreach :: "'k os \<Rightarrow> 'k \<Rightarrow> 'k \<Rightarrow> bool" for os :: "'k os" where
  refl [simp]: "kreach os k k"
| enter: "kreach os k k1 \<Longrightarrow> os_enter os es mc room k1 = (resp, k2) \<Longrightarrow> kreach os k k2"

lemma kreach_trans: "kreach os k1 k2 \<Longrightarrow> kreach os k k1 \<Longrightarrow> kreach os k k2"
  by (induction rule: kreach.induct) (auto intro: kreach.enter)

section \<open>A kernel that makes progress\<close>

text \<open>\<open>delay\<close>: how many more calls may pass before an operation completes.\<close>

locale progressing_kernel = uring_kernel os infl for os :: "'k os" and infl +
  fixes delay :: "'k \<Rightarrow> nat"
  assumes enter_all: "os_enter os es mc room k = (resp, k') \<Longrightarrow> er_taken resp = length es"
    and enter_progress: "os_enter os es mc room k = (resp, k') \<Longrightarrow> 0 < room \<Longrightarrow>
      \<exists>p \<in># infl k + mset (map sqe_user_data es). is_aw p \<Longrightarrow>
      (\<exists>c \<in> set (er_cqes resp). is_aw (cqe_user_data c)) \<or> delay k' < delay k"
begin

definition work :: "('j, 'k) sched \<Rightarrow> fstatus multiset \<times> nat" where
  "work s = (points (frames s), delay (kst s))"

text \<open>A safe scheduler with an empty inbox, a slot for the eventfd read and two for each task.\<close>

definition idle_ok :: "('j, 'k) sched \<Rightarrow> bool" where
  "idle_ok s \<longleftrightarrow> safe infl s \<and> inbox s = [] \<and> (eventfd_armed s \<or> has_capacity (ring s) 1)
     \<and> 2 * length (tasks s) < unat (sq_entries (ring s))"

lemma enter_effect:
  assumes ok: "sq_ok (ring s)" "cq_ok (ring s)"
  obtains resp k' where "os_enter os (sq_pending (ring s)) mc (unat (cq_entries (ring s)) - cq_len (ring s)) (kst s) = (resp, k')"
    "io_uring_enter os (sq_tail (ring s) - sq_head (ring s)) mc s
      = s\<lparr>ring := ring (io_uring_enter os (sq_tail (ring s) - sq_head (ring s)) mc s), kst := k'\<rparr>"
    "cq_ready (ring (io_uring_enter os (sq_tail (ring s) - sq_head (ring s)) mc s)) = cq_ready (ring s) @ er_cqes resp"
    "sq_len (ring (io_uring_enter os (sq_tail (ring s) - sq_head (ring s)) mc s)) = 0"
    "sq_entries (ring (io_uring_enter os (sq_tail (ring s) - sq_head (ring s)) mc s)) = sq_entries (ring s)"
proof -
  have es: "take (unat (sq_tail (ring s) - sq_head (ring s))) (sq_pending (ring s)) = sq_pending (ring s)"
    by (simp add: sq_len_def dist_def)
  obtain resp k' where e: "os_enter os (sq_pending (ring s)) mc (unat (cq_entries (ring s)) - cq_len (ring s)) (kst s) = (resp, k')"
    by fastforce
  have "cq_len (ring s) + length (er_cqes resp) \<le> unat (cq_entries (ring s))"
    using enter_room [OF e] ok(2) unfolding cq_ok_def by linarith
  then have "cq_ready (fold post_cqe (er_cqes resp) (consume_sq (er_taken resp) (ring s))) = cq_ready (ring s) @ er_cqes resp"
    using cq_post_all [of "consume_sq (er_taken resp) (ring s)"] ok by auto
  moreover have "sq_len (fold post_cqe (er_cqes resp) (consume_sq (er_taken resp) (ring s))) = 0"
    using enter_all [OF e] by (simp add: sq_len_consume)
  moreover have "sq_entries (consume_sq n r) = sq_entries r" for n r by (simp add: consume_sq_def)
  ultimately show thesis using that e by (simp add: io_uring_enter_def es)
qed

text \<open>
  \<open>drain\<close> in three steps: \<open>s0\<close> has the eventfd read armed, \<open>s1\<close> is what \<open>io_uring_enter\<close> makes of it, and
  the completions of \<open>s1\<close> are processed.
\<close>

lemma drain_parts:
  assumes safe: "safe infl s" and slot: "eventfd_armed s \<or> has_capacity (ring s) 1"
  obtains s0 s1 mc resp k' where "s0 = (if \<not> eventfd_armed s then arm_eventfd_read s else s)" "safe infl s0"
    "os_enter os (sq_pending (ring s0)) mc (unat (cq_entries (ring s)) - cq_len (ring s)) (kst s) = (resp, k')"
    "s1 = s0\<lparr>ring := ring s1, kst := k'\<rparr>" "cq_ready (ring s1) = cq_ready (ring s) @ er_cqes resp" "sq_len (ring s1) = 0"
    "sq_entries (ring s1) = sq_entries (ring s)" "safe infl s1" "inbox s1 = inbox s"
    "drain os invoke s = drain_cqes os invoke (cq_mask (ring s1)) (cq_head (ring s1)) (cq_tail (ring s1)) s1"
    "s1 = submit_staged os s"
proof -
  have rok: "sq_ok (ring s)" using safe sched_inv_calm by (fastforce simp: safe_def calm_def ring_ok_def)
  define s0 where "s0 = (if \<not> eventfd_armed s then arm_eventfd_read s else s)"
  have safe0: "safe infl s0" unfolding s0_def by (rule armed_safe [OF safe slot])
  have s0f: "cq_ready (ring s0) = cq_ready (ring s)" "kst s0 = kst s" "cq_entries (ring s0) = cq_entries (ring s)"
    "cq_len (ring s0) = cq_len (ring s)" "inbox s0 = inbox s" "sq_entries (ring s0) = sq_entries (ring s)"
    by (simp_all add: s0_def arm_stages)
  have ok0: "sq_ok (ring s0)" "cq_ok (ring s0)" using safe0 sched_inv_calm by (fastforce simp: safe_def calm_def ring_ok_def)+
  let ?mc = "if shutting_down s0 then 0 else 1 :: u32"
  define s1 where "s1 = io_uring_enter os (sq_tail (ring s0) - sq_head (ring s0)) ?mc s0"
  obtain resp k' where e: "os_enter os (sq_pending (ring s0)) ?mc (unat (cq_entries (ring s0)) - cq_len (ring s0)) (kst s0) = (resp, k')"
    and s1: "s1 = s0\<lparr>ring := ring s1, kst := k'\<rparr>" "cq_ready (ring s1) = cq_ready (ring s0) @ er_cqes resp" "sq_len (ring s1) = 0"
      "sq_entries (ring s1) = sq_entries (ring s0)"
    using enter_effect [OF ok0, of ?mc] unfolding s1_def by metis
  have "safe infl s1" unfolding s1_def using safe0 by (rule enter_safe)
  moreover have "inbox s1 = inbox s" using s0f(5) by (subst s1(1)) simp
  moreover have "drain os invoke s = drain_cqes os invoke (cq_mask (ring s1)) (cq_head (ring s1)) (cq_tail (ring s1)) s1"
    by (simp add: drain_def Let_def s1_def s0_def)
  moreover have "s1 = submit_staged os s" by (simp add: submit_staged_def Let_def s1_def s0_def)
  ultimately show thesis using that [OF s0_def safe0 _ s1(1)] e s1 s0f by metis
qed

text \<open>One round of the loop, \<open>drain\<close> then \<open>reap\<close>.\<close>

lemma round:
  assumes ok: "idle_ok s"
  obtains s' where "drain os invoke s = (None, s')" "idle_ok (reap s')" "cq_ready (ring (reap s')) = []" "eventfd (reap s') = eventfd s"
    "\<forall>t \<in> set (tasks (reap s')). \<not> Task_done (reap s') t"
    "unfinished s \<noteq> [] \<Longrightarrow> cq_ready (ring s) = [] \<Longrightarrow> (work (reap s'), work s) \<in> less_work <*lex*> less_than"
    "kreach os (kst s) (kst (reap s'))"
proof -
  have inv: "sched_inv (live_q infl s) s" using ok by (simp add: idle_ok_def safe_def)
  have rok: "cq_ok (ring s)" "sq_ok (ring s)" using sched_inv_calm [OF inv] by (simp_all add: calm_def ring_ok_def)
  obtain s0 s1 mc resp k' where s0: "s0 = (if \<not> eventfd_armed s then arm_eventfd_read s else s)"
    and e: "os_enter os (sq_pending (ring s0)) mc (unat (cq_entries (ring s)) - cq_len (ring s)) (kst s) = (resp, k')"
    and s1: "s1 = s0\<lparr>ring := ring s1, kst := k'\<rparr>" "cq_ready (ring s1) = cq_ready (ring s) @ er_cqes resp" "sq_len (ring s1) = 0"
      "sq_entries (ring s1) = sq_entries (ring s)" "safe infl s1" "inbox s1 = []"
    and dr: "drain os invoke s = drain_cqes os invoke (cq_mask (ring s1)) (cq_head (ring s1)) (cq_tail (ring s1)) s1"
    using drain_parts [of s invoke] ok unfolding idle_ok_def by metis
  have s1f: "tasks s1 = tasks s" "frames s1 = frames s" "eventfd s1 = eventfd s" "kst s1 = k'"
    by (subst s1(1), simp add: s0 arm_stages)+
  obtain s' where d: "drain os invoke s = (None, s')" and b: "batch (ops_in (cq_ready (ring s1))) s1 s'"
    and safe': "safe infl s'" and em': "cq_ready (ring s') = []"
    using drain_cqes_idle [OF s1(5,6)] unfolding dr by blast
  have inv': "sched_inv (live_q infl s') s'" using safe' by (simp add: safe_def)
  note re = reap_effect [OF inv']
  have tasks': "length (tasks (reap s')) \<le> length (tasks s)" using b s1f(1) by (simp add: re unfinished_def batch_def)
  have "sq_len (ring s') < unat (sq_entries (ring s'))"
    using b s1(3,4) ops_le_tasks [OF s1(5)] s1f(1) ok by (auto simp: batch_def idle_ok_def)
  then have "has_capacity (ring s') 1"
    using has_capacity_1 [of "ring s'"] sched_inv_calm [OF inv'] by (simp add: calm_def ring_ok_def)
  then have "idle_ok (reap s')"
    using reap_inv [OF inv'] b tasks' ok s1(4) by (auto simp: idle_ok_def safe_def re live_q_def batch_def)
  moreover have "(work (reap s'), work s) \<in> less_work <*lex*> less_than" if un: "unfinished s \<noteq> []" and em: "cq_ready (ring s) = []"
  proof -
    have "\<exists>p \<in># infl (kst s) + mset (map sqe_user_data (sq_pending (ring s0))). is_aw p"
      using outstanding_op [OF inv un] arm_pending [OF rok(2)] ok em
      by (fastforce simp: s0 idle_ok_def live_q_def sq_uds_def)
    moreover have "0 < unat (cq_entries (ring s)) - cq_len (ring s)"
      using rok(1) em ring_size_pos by (auto simp: cq_ok_def simp flip: length_cq_ready)
    ultimately have "(\<exists>c \<in> set (er_cqes resp). is_aw (cqe_user_data c)) \<or> delay k' < delay (kst s)"
      using enter_progress [OF e] by simp
    moreover have "(points (frames s'), points (frames s1)) \<in> less_work \<or> points (frames s') = points (frames s1)"
      using b unfolding batch_def by (metis UnE pair_in_Id_conv)
    moreover have "(\<exists>c \<in> set (er_cqes resp). is_aw (cqe_user_data c)) \<longrightarrow> 0 < ops_in (cq_ready (ring s1))"
      by (auto simp: ops_in_def s1(2) filter_empty_conv)
    ultimately show ?thesis
      using b s1f reap_work [OF inv'] by (auto simp: work_def re batch_def)
  qed
  moreover have "eventfd (reap s') = eventfd s" using b s1f by (simp add: re batch_def)
  moreover have "kreach os (kst s) (kst (reap s'))"
    using kreach.enter [OF kreach.refl e] b s1f by (simp add: re batch_def)
  ultimately show thesis using that [OF d] reap_all_unfinished [OF inv'] em' by (simp add: re)
qed

text \<open>The loop ends, with whatever the rounds preserve.\<close>

lemma loop_ends:
  assumes step: "\<And>s s'. idle_ok s \<Longrightarrow> P s \<Longrightarrow> drain os invoke s = (None, s') \<Longrightarrow> P (reap s')"
  shows "idle_ok s \<Longrightarrow> P s \<Longrightarrow> cq_ready (ring s) = [] \<Longrightarrow> \<forall>t \<in> set (tasks s). \<not> Task_done s t \<Longrightarrow>
    \<exists>s'. shutdown_loop os invoke s = Some (None, s') \<and> tasks s' = [] \<and> idle_ok s' \<and> eventfd s' = eventfd s
      \<and> kreach os (kst s) (kst s') \<and> P s'"
proof (induction s rule: wf_induct_rule [OF wf_inv_image [OF wf_lex_prod [OF wf_less_work wf_less_than], of work]])
  case (1 s)
  show ?case
  proof (cases "tasks s = []")
    case True
    then show ?thesis using "1.prems"(1,2) by (subst shutdown_loop.simps) simp
  next
    case False
    then have "unfinished s \<noteq> []" using "1.prems"(4) by (auto simp: unfinished_def filter_empty_conv)
    then obtain s' where d: "drain os invoke s = (None, s')" "idle_ok (reap s')" "cq_ready (ring (reap s')) = []"
      "\<forall>t \<in> set (tasks (reap s')). \<not> Task_done (reap s') t" "(work (reap s'), work s) \<in> less_work <*lex*> less_than"
      "eventfd (reap s') = eventfd s" "kreach os (kst s) (kst (reap s'))"
      using round [OF "1.prems"(1)] "1.prems"(3) by metis
    have "P (reap s')" using step "1.prems"(1,2) d(1) by blast
    with d obtain t where "shutdown_loop os invoke (reap s') = Some (None, t)" "tasks t = []" "idle_ok t"
        "eventfd t = eventfd s" "kreach os (kst (reap s')) (kst t)" "P t"
      using "1.IH" [OF _ d(2) _ d(3,4)] by (auto simp: in_inv_image)
    then show ?thesis
      using d(1,7) False kreach_trans by (subst shutdown_loop.simps) auto
  qed
qed

lemma shutdown_ends_with:
  assumes ok: "idle_ok s" and P: "P (s\<lparr>shutting_down := True\<rparr>)"
    and step: "\<And>s s'. idle_ok s \<Longrightarrow> P s \<Longrightarrow> drain os invoke s = (None, s') \<Longrightarrow> P (reap s')"
  shows "\<exists>s'. shutdown os invoke s = Some (None, s') \<and> tasks s' = [] \<and> idle_ok s' \<and> eventfd s' = eventfd s
      \<and> kreach os (kst s) (kst s') \<and> P s'"
proof -
  let ?s = "s\<lparr>shutting_down := True\<rparr>"
  have ok': "idle_ok ?s" using ok safe_cong [of ?s s] by (simp add: idle_ok_def)
  obtain s' where d: "drain os invoke ?s = (None, s')" "idle_ok (reap s')" "cq_ready (ring (reap s')) = []"
      "\<forall>t \<in> set (tasks (reap s')). \<not> Task_done (reap s') t" "eventfd (reap s') = eventfd ?s"
      "kreach os (kst ?s) (kst (reap s'))"
    using round [OF ok'] by metis
  show ?thesis
  proof (cases "tasks ?s = []")
    case True
    then show ?thesis using ok' P by (simp add: shutdown_def shutdown_loop.simps [of os invoke ?s])
  next
    case False
    then have "shutdown os invoke s = shutdown_loop os invoke (reap s')"
      using d(1) by (simp add: shutdown_def shutdown_loop.simps [of os invoke ?s])
    moreover have "P (reap s')" using step [OF ok' P d(1)] .
    ultimately show ?thesis using loop_ends [where P = P and invoke = invoke, OF step d(2) _ d(3,4)] d(5,6) kreach_trans by fastforce
  qed
qed

lemma shutdown_ends:
  assumes "idle_ok s"
  shows "\<exists>s'. shutdown os invoke s = Some (None, s') \<and> tasks s' = [] \<and> idle_ok s' \<and> eventfd s' = eventfd s
      \<and> kreach os (kst s) (kst s')"
  using shutdown_ends_with [OF assms, of "\<lambda>s. True"] by blast

text \<open>\<open>run\<close> with \<open>n\<close> more rounds before the stop request is seen.\<close>

lemma run_ends:
  "idle_ok s \<Longrightarrow> \<exists>s'. Scheduler_run os invoke (replicate n False @ [True]) s = Some (None, s') \<and> idle_ok s' \<and> eventfd s' = eventfd s
     \<and> kreach os (kst s) (kst s')"
proof (induction n arbitrary: s)
  case (Suc n)
  obtain s' where d: "drain os invoke s = (None, s')" "idle_ok (reap s')" "eventfd (reap s') = eventfd s"
      "kreach os (kst s) (kst (reap s'))"
    using round [OF Suc.prems] by metis
  from Suc.IH [OF d(2)] d kreach_trans show ?case by fastforce
qed simp

end

section \<open>The simulated kernel makes progress\<close>

text \<open>Every operation is answered: an entry \<open>e\<close> with \<open>g e\<close>.\<close>

definition reply_os :: "(sqe \<Rightarrow> int) \<Rightarrow> sim os" where
  "reply_os g = sim_os\<lparr>os_enter := (\<lambda>es mc room k. ks_enter es mc room (k\<lparr>ks_answer := (\<lambda>e. Some (g e))\<rparr>))\<rparr>"

abbreviation prompt_os :: "sim os" where
  "prompt_os \<equiv> reply_os (\<lambda>e. 5)"

lemma aw_ks: "y \<in> set es \<Longrightarrow> is_aw (sqe_user_data y) \<Longrightarrow> \<exists>c \<in> set (map (ks_cqe k) es). is_aw (cqe_user_data c)"
  by (force simp: ks_cqe_def)

lemma ks_ready_split:
  obtains ws xs ys where "ks_ready k all = ws @ xs @ ys" "set ws = {e \<in> set all. ks_outcome k e \<noteq> None \<and> sqe_user_data e = EventfdBuf}"
    "set xs = {e \<in> set all. ks_outcome k e \<noteq> None \<and> is_aw (sqe_user_data e)}"
  by (rule that) (auto simp: ks_ready_def Let_def)

text \<open>A call completes an operation, or the read of a signalled eventfd comes first.\<close>

lemma ks_enter_op:
  assumes "ks_enter es mc room k = (resp, k')" "\<And>e. ks_answer k e \<noteq> None" "0 < room"
    and p: "\<exists>p \<in># sim_uds k + mset (map sqe_user_data es). is_aw p"
  shows "(\<exists>c \<in> set (er_cqes resp). is_aw (cqe_user_data c)) \<or> ks_count k' = 0 \<and> 0 < ks_count k"
proof -
  let ?all = "ks_infl k @ es"
  note e = ks_enterE [OF assms(1)]
  obtain ws xs ys where r: "ks_ready k ?all = ws @ xs @ ys"
    and ws: "set ws = {e \<in> set ?all. ks_outcome k e \<noteq> None \<and> sqe_user_data e = EventfdBuf}"
    and xs: "set xs = {e \<in> set ?all. ks_outcome k e \<noteq> None \<and> is_aw (sqe_user_data e)}"
    by (rule ks_ready_split)
  show ?thesis
  proof (cases ws)
    case Nil
    obtain x where x: "x \<in> set ?all" "is_aw (sqe_user_data x)" using p by (auto simp: sim_uds_def)
    then have "ks_outcome k x \<noteq> None" using assms(2) by (auto simp: ks_outcome_def)
    then have "x \<in> set xs" using x unfolding xs by blast
    then obtain y zs where y: "xs = y # zs" by (cases xs) auto
    then have "y \<in> set xs" by simp
    then have "is_aw (sqe_user_data y)" unfolding xs by blast
    moreover have "y \<in> set (take room (ks_ready k ?all))" using r Nil y assms(3) by (cases room) simp_all
    ultimately show ?thesis unfolding e(2) using aw_ks by blast
  next
    case (Cons w zs)
    then have w: "sqe_user_data w = EventfdBuf" "ks_outcome k w \<noteq> None" using ws by auto
    have "w \<in> set (take room (ks_ready k ?all))" using r Cons assms(3) by (cases room) simp_all
    then have "EventfdBuf \<in> set (map cqe_user_data (er_cqes resp))"
      unfolding e(2) cqe_uds_ks using w(1) by (metis imageI list.set_map)
    then show ?thesis using e(4) w by (auto simp: ks_outcome_def split: if_splits)
  qed
qed

interpretation reply: progressing_kernel "reply_os g" sim_uds ks_count for g
proof unfold_locales
  fix es mc room k resp k' assume e: "os_enter (reply_os g) es mc room k = (resp, k')"
  let ?k = "k\<lparr>ks_answer := (\<lambda>e. Some (g e))\<rparr>"
  have e': "os_enter sim_os es mc room ?k = (resp, k')" using e by (simp add: reply_os_def sim_os_def)
  show "er_taken resp \<le> length es" "length (er_cqes resp) \<le> room"
    using sim.enter_taken [OF e'] sim.enter_room [OF e'] by simp_all
  show "mset (map cqe_user_data (er_cqes resp)) + sim_uds k' = sim_uds k + mset (map sqe_user_data (take (er_taken resp) es))"
    using sim.enter_conserves [OF e'] by (simp add: sim_uds_def)
  show "er_taken resp = length es" using e ks_enterE(1) by (simp add: reply_os_def)
  show "(\<exists>c \<in> set (er_cqes resp). is_aw (cqe_user_data c)) \<or> ks_count k' < ks_count k"
    if "0 < room" "\<exists>p \<in># sim_uds k + mset (map sqe_user_data es). is_aw p"
    using ks_enter_op [of es mc room ?k resp k'] e that by (auto simp: reply_os_def sim_uds_def)
qed (auto simp: reply_os_def sim_os_def sim_uds_def)

section \<open>A scheduler on it\<close>

definition prompt_on :: "nat \<Rightarrow> (nat, sim) sched" where
  "prompt_on n = projr (Scheduler_ctor prompt_os (fresh_ring n) sim0)"

lemma prompt_on: "Scheduler_ctor prompt_os (fresh_ring n) sim0 = Inr (prompt_on n)"
  by (simp add: prompt_on_def Scheduler_ctor_def reply_os_def sim_os_def)

lemma prompt_safe: "n < 31 \<Longrightarrow> safe sim_uds (prompt_on n)"
  using reply.ctor_safe [OF prompt_on] ring_ok_fresh [of n] by simp

definition prompt_busy :: "(nat, sim) sched" where
  "prompt_busy = snd (spawn_call prompt_os recv_body (prompt_on 2))"

lemma prompt_busy_idle_ok: "safe sim_uds prompt_busy \<and> inbox prompt_busy = []
    \<and> (eventfd_armed prompt_busy \<or> has_capacity (ring prompt_busy) 1) \<and> eventfd prompt_busy = 5
    \<and> 2 * length (tasks prompt_busy) < unat (sq_entries (ring prompt_busy)) \<and> tasks prompt_busy = [Some 0]"
proof -
  have f: "fst (spawn_call prompt_os recv_body (prompt_on 2)) = None" by code_simp
  have "reach prompt_os no_jobs (prompt_on 2) True prompt_busy" unfolding prompt_busy_def using f by (rule spawned_reach)
  then have safe: "safe sim_uds prompt_busy" using reply.reach_safe [OF no_jobs_ok] prompt_safe [of 2] by simp
  have "inbox prompt_busy = []" "has_capacity (ring prompt_busy) 1" "eventfd prompt_busy = 5"
    "2 * length (tasks prompt_busy) < unat (sq_entries (ring prompt_busy))" "tasks prompt_busy = [Some 0]" by code_simp+
  with safe show ?thesis by blast
qed

section \<open>Properties\<close>

text \<open>
  C24: \<open>shutdown\<close> returns. From any safe state with an empty inbox, a slot for the eventfd read and
  more than two slots per task, with a kernel that takes what is staged and keeps completing
  operations, in any order and with any results, the loop ends: every task has run to its end and been
  reaped, and nothing undefined has happened on the way. Wake-ups through the eventfd may come at
  any time.
\<close>

theorem shutdown_completes:
  assumes "progressing_kernel os infl delay" "safe infl s" "inbox s = []"
    and "eventfd_armed s \<or> has_capacity (ring s) 1" "2 * length (tasks s) < unat (sq_entries (ring s))"
  shows "\<exists>s'. shutdown os invoke s = Some (None, s') \<and> tasks s' = [] \<and> ub_flag s' = None"
proof -
  have ok: "progressing_kernel.idle_ok infl s"
    using assms by (simp add: progressing_kernel.idle_ok_def [OF assms(1)])
  obtain s' where s': "shutdown os invoke s = Some (None, s')" "tasks s' = []" "progressing_kernel.idle_ok infl s'"
    using progressing_kernel.shutdown_ends [OF assms(1) ok] by blast
  then have "safe infl s'" by (simp add: progressing_kernel.idle_ok_def [OF assms(1)])
  then show ?thesis using s' sched_inv_calm by (fastforce simp: safe_def calm_def)
qed

theorem shutdown_completes_witness:
  "tasks prompt_busy = [Some 0] \<and> (\<exists>s'. shutdown prompt_os no_jobs prompt_busy = Some (None, s') \<and> tasks s' = [])"
  using shutdown_completes [OF reply.progressing_kernel_axioms, of prompt_busy] prompt_busy_idle_ok by blast

text \<open>
  C32: The destructor, in the same situation: a safe scheduler with an empty inbox and an open eventfd,
  whose ring has room for the read and for two entries per task, on a kernel that keeps completing
  operations. It returns without an exception, and the state it leaves is stated in full: the one
  \<open>shutdown\<close> leaves, or the one before when there was no task, with the eventfd closed once. No task is
  left whose frame outlives the scheduler, and nothing undefined has happened.
\<close>

theorem dtor_drains_then_closes:
  assumes "progressing_kernel os infl delay" "safe infl s" "inbox s = []" "0 \<le> eventfd s"
    and "eventfd_armed s \<or> has_capacity (ring s) 1" "2 * length (tasks s) < unat (sq_entries (ring s))"
  shows "\<exists>s'. (if tasks s = [] then s' = s else shutdown os invoke s = Some (None, s'))
    \<and> Scheduler_dtor os invoke s = Some (None, s'\<lparr>kst := os_close os (eventfd s) (kst s')\<rparr>)
    \<and> tasks s' = [] \<and> ub_flag s' = None"
proof -
  have ok: "progressing_kernel.idle_ok infl s"
    using assms by (simp add: progressing_kernel.idle_ok_def [OF assms(1)])
  have calm: "ub_flag s' = None" if "progressing_kernel.idle_ok infl s'" for s' :: "('b, 'a) sched"
    using that sched_inv_calm by (fastforce simp: progressing_kernel.idle_ok_def [OF assms(1)] safe_def calm_def)
  show ?thesis
  proof (cases "tasks s = []")
    case True
    then show ?thesis using calm [OF ok] assms(4) by (auto simp: Scheduler_dtor_def intro: exI [of _ s])
  next
    case False
    obtain s' where "shutdown os invoke s = Some (None, s')" "tasks s' = []" "progressing_kernel.idle_ok infl s'" "eventfd s' = eventfd s"
      using progressing_kernel.shutdown_ends [OF assms(1) ok] by blast
    then show ?thesis using False calm assms(4) by (auto simp: Scheduler_dtor_def intro: exI [of _ s'])
  qed
qed

theorem dtor_drains_then_closes_witness:
  "\<exists>s'. Scheduler_dtor prompt_os no_jobs prompt_busy = Some (None, s') \<and> \<not> ks_open (kst s') \<and> tasks s' = []"
proof -
  obtain s' where "Scheduler_dtor prompt_os no_jobs prompt_busy = Some (None, s'\<lparr>kst := os_close prompt_os (eventfd prompt_busy) (kst s')\<rparr>)"
      "tasks s' = []"
    using dtor_drains_then_closes [OF reply.progressing_kernel_axioms, of prompt_busy "\<lambda>e. 5" no_jobs] prompt_busy_idle_ok by auto
  then show ?thesis by (simp add: reply_os_def sim_os_def)
qed

end
