(* ===== verification/Blocking.thy ===== *)
theory Blocking
  imports Shutdown "HOL-Library.Sublist"
begin

text \<open>
  What a program made of coroutines computes. The specification runs every body as ordinary
  blocking code: an awaited operation returns a result at once, an awaited task is a call. The
  kernel promises only that the result of an operation is one of those allowed for it. The
  theorem is about the whole machine: the tasks handed to \<open>spawn\<close>, driven to their end by \<open>shutdown\<close>
  over suspended frames, submission and completion rings and completions in any order, have together
  the effects of an interleaving of their blocking runs.
\<close>

section \<open>Blocking runs\<close>

text \<open>\<open>allowed op tmo r\<close>: the operation \<open>op\<close> with deadline \<open>tmo\<close> may return \<open>r\<close>.\<close>

type_synonym answers = "operation \<Rightarrow> int option \<Rightarrow> int \<Rightarrow> bool"

inductive blocks :: "answers \<Rightarrow> co \<Rightarrow> event list \<Rightarrow> outcome \<Rightarrow> bool" for allowed :: answers where
  ret: "blocks allowed (CoReturn v) [] (Inr v)"
| throw: "blocks allowed (CoThrow e) [] (Inl e)"
| act: "blocks allowed c l out \<Longrightarrow> blocks allowed (CoAct ev c) (ev # l) out"
| await: "allowed op tmo r \<Longrightarrow> blocks allowed (k r) l out \<Longrightarrow> blocks allowed (CoAwait op tmo k) l out"
| task: "blocks allowed c l out \<Longrightarrow> blocks allowed (k (coerce ty out)) l' out' \<Longrightarrow>
    blocks allowed (CoAwaitTask ty c k) (l @ l') out'"

inductive_simps blocks_simps:
  "blocks allowed (CoReturn v) l out"
  "blocks allowed (CoThrow e) l out"
  "blocks allowed (CoAct ev c) l out"
  "blocks allowed (CoAwait op tmo k) l out"
  "blocks allowed (CoAwaitTask ty c k) l out"

text \<open>A body up to the first operation it awaits, or to its end.\<close>

primrec first_stop :: "co \<Rightarrow> event list \<times> (outcome + operation \<times> int option \<times> (int \<Rightarrow> co))" where
  "first_stop (CoReturn v) = ([], Inl (Inr v))"
| "first_stop (CoThrow e) = ([], Inl (Inl e))"
| "first_stop (CoAct ev c) = (case first_stop c of (l, x) \<Rightarrow> (ev # l, x))"
| "first_stop (CoAwait op tmo k) = ([], Inr (op, tmo, k))"
| "first_stop (CoAwaitTask ty c k) =
     (case first_stop c of
        (l, Inl out) \<Rightarrow> (case first_stop (k (coerce ty out)) of (l', x) \<Rightarrow> (l @ l', x))
      | (l, Inr (op, tmo, f)) \<Rightarrow> (l, Inr (op, tmo, \<lambda>r. CoAwaitTask ty (f r) k)))"

lemma blocks_done: "first_stop c = (l, Inl out) \<Longrightarrow> blocks allowed c l out"
  
  by (induction c arbitrary: l out) (auto intro: blocks.intros split: prod.splits sum.splits)

lemma blocks_resume:
  "first_stop c = (l, Inr (op, tmo, f)) \<Longrightarrow> allowed op tmo r \<Longrightarrow> blocks allowed (f r) l' out \<Longrightarrow> blocks allowed c (l @ l') out"
proof (induction c arbitrary: l l' op tmo f out)
  case (CoAwaitTask ty c k)
  obtain l1 x where x: "first_stop c = (l1, x)" by fastforce
  show ?case
  proof (cases x)
    case (Inl o1)
    obtain l2 y where y: "first_stop (k (coerce ty o1)) = (l2, y)" by fastforce
    have "l = l1 @ l2" "first_stop (k (coerce ty o1)) = (l2, Inr (op, tmo, f))"
      using CoAwaitTask.prems(1) x y Inl by auto
    moreover from this CoAwaitTask.IH(2) [of "k (coerce ty o1)"] CoAwaitTask.prems(2,3)
    have "blocks allowed (k (coerce ty o1)) (l2 @ l') out" by blast
    moreover have "blocks allowed c l1 o1" using x Inl blocks_done by simp
    ultimately show ?thesis using blocks.task [of allowed c l1 o1 k ty "l2 @ l'" out] by simp
  next
    case (Inr t)
    then obtain g where g: "first_stop c = (l, Inr (op, tmo, g))" "f = (\<lambda>r. CoAwaitTask ty (g r) k)"
      using CoAwaitTask.prems(1) x by (auto split: prod.splits)
    then obtain l1 l2 o1 where "blocks allowed (g r) l1 o1" "blocks allowed (k (coerce ty o1)) l2 out" "l' = l1 @ l2"
      using CoAwaitTask.prems(3) by (auto simp: blocks_simps)
    then show ?thesis
      using blocks.task [OF CoAwaitTask.IH(1) [OF g(1) CoAwaitTask.prems(2)], of l1 o1 k ty l2 out] by simp
  qed
qed (auto simp: blocks_simps split: prod.splits)

text \<open>With two free slots the first operation awaited suspends the body.\<close>

lemma exec_first_stop:
  assumes "sq_ok r" "has_capacity r 2"
  shows "exec c (r, n, tls, lg) = (case first_stop c of
     (l, Inl out) \<Rightarrow> (Done out, (r, n, tls, lg @ l))
   | (l, Inr (op, tmo, f)) \<Rightarrow> (Susp n f, (foldl stage r (entries_of n (mk_op op tmo)), Suc n, tls, lg @ l)))"
proof (induction c arbitrary: lg)
  case (CoAwait op tmo k)
  have "has_capacity r (needed_slots (mk_op op tmo))"
    using assms has_capacity_1 [OF assms(1)] has_capacity_2 [OF assms(1)] by (auto simp: needed_slots_def)
  then show ?case using await_suspend_stages [OF assms(1), of "mk_op op tmo" n 0 tls] by (simp add: reserve_def)
qed (auto split: prod.splits sum.splits)

section \<open>Interleavings\<close>

inductive interleaves :: "'a list list \<Rightarrow> 'a list \<Rightarrow> bool" where
  none: "interleaves (replicate n []) []"
| one: "interleaves ps l \<Longrightarrow> i < length ps \<Longrightarrow> interleaves (ps[i := ps ! i @ [x]]) (l @ [x])"

lemma interleaves_append: "interleaves ps l \<Longrightarrow> i < length ps \<Longrightarrow> interleaves (ps[i := ps ! i @ xs]) (l @ xs)"
proof (induction xs rule: rev_induct)
  case (snoc x xs)
  from interleaves.one [OF snoc.IH [OF snoc.prems], of i x] snoc.prems(2) show ?case by simp
qed simp

lemma interleaves_new: "interleaves ps l \<Longrightarrow> interleaves (ps @ [[]]) l"
proof (induction rule: interleaves.induct)
  case (none n)
  have "interleaves (replicate (Suc n) []) []" by (rule interleaves.none)
  then show ?case by (simp flip: replicate_append_same)
next
  case (one ps l i x)
  from interleaves.one [OF one.IH, of i x] one.hyps(2) show ?case by (simp add: nth_append list_update_append)
qed

lemma interleaves_filter: "interleaves ps l \<Longrightarrow> interleaves (map (filter P) ps) (filter P l)"
proof (induction rule: interleaves.induct)
  case (none n)
  have "interleaves (replicate n []) []" by (rule interleaves.none)
  then show ?case by (simp add: map_replicate_const)
next
  case (one ps l i x)
  have "(map (filter P) ps)[i := filter P (ps ! i)] = map (filter P) ps"
    using one.hyps(2) by (metis list_update_id nth_map)
  with interleaves.one [OF one.IH, of i x] one show ?case by (simp add: map_update)
qed

text \<open>When only one sequence has elements, the interleaving is that sequence.\<close>

lemma interleaves_only:
  "interleaves ps l \<Longrightarrow> i < length ps \<Longrightarrow> \<forall>j < length ps. j \<noteq> i \<longrightarrow> ps ! j = [] \<Longrightarrow> l = ps ! i"
proof (induction rule: interleaves.induct)
  case (one ps l j x)
  have "j = i" using one.prems(2) one.hyps(2) by (metis length_list_update nth_list_update_eq snoc_eq_iff_butlast)
  moreover from this one.prems have "\<forall>j' < length ps. j' \<noteq> i \<longrightarrow> ps ! j' = []" by (metis length_list_update nth_list_update_neq)
  ultimately show ?case using one.IH one.hyps(2) by simp
qed simp

lemma interleaves_single: "interleaves [p] l \<Longrightarrow> l = p"
  using interleaves_only [of "[p]" l 0] by simp

lemma interleaves_subseq: "interleaves ps l \<Longrightarrow> i < length ps \<Longrightarrow> subseq (ps ! i) l"
proof (induction rule: interleaves.induct)
  case (one ps l j x)
  then show ?case by (cases "i = j") (auto intro: list_emb_append_mono)
qed simp

section \<open>Threads\<close>

text \<open>
  A task with the body it was spawned with and the effects it has had. A waiting task is suspended
  on one operation; its blocking run is completed by any allowed result and a blocking run of what
  is left.
\<close>

record thread =
  th_handle :: nat
  th_body :: co
  th_log :: "event list"

definition known :: "('k \<Rightarrow> sqe set) \<Rightarrow> ('j, 'k) sched \<Rightarrow> sqe set" where
  "known sent s = set (sq_pending (ring s)) \<union> sent (kst s)"

definition awaits :: "frame list \<Rightarrow> nat \<Rightarrow> nat \<Rightarrow> (int \<Rightarrow> co) \<Rightarrow> bool" where
  "awaits fs h a f \<longleftrightarrow> (\<exists>hs. hd hs = h \<and> chain fs hs a \<and> rest_of fs hs = f)"

definition answered :: "answers \<Rightarrow> ('k \<Rightarrow> sqe set) \<Rightarrow> ('j, 'k) sched \<Rightarrow> nat \<Rightarrow> operation \<Rightarrow> int option \<Rightarrow> bool" where
  "answered allowed sent s a op tmo \<longleftrightarrow>
     (\<forall>e \<in> known sent s. sqe_user_data e = AwPtr a \<longrightarrow> e = hd (entries_of a (mk_op op tmo)))
   \<and> (\<forall>c \<in> set (cq_ready (ring s)). cqe_user_data c = AwPtr a \<longrightarrow> allowed op tmo (cqe_res c))"

definition waiting :: "('j, 'k) sched \<Rightarrow> nat \<Rightarrow> bool" where
  "waiting s h \<longleftrightarrow> Some h \<in> set (tasks s) \<and> \<not> frame_done s h"

definition thread_ok :: "answers \<Rightarrow> ('k \<Rightarrow> sqe set) \<Rightarrow> ('j, 'k) sched \<Rightarrow> thread \<Rightarrow> bool" where
  "thread_ok allowed sent s t \<longleftrightarrow>
     (if waiting s (th_handle t)
      then \<exists>a op tmo f. awaits (frames s) (th_handle t) a f \<and> answered allowed sent s a op tmo
        \<and> (\<forall>r l out. allowed op tmo r \<longrightarrow> blocks allowed (f r) l out \<longrightarrow> blocks allowed (th_body t) (th_log t @ l) out)
      else \<exists>out. blocks allowed (th_body t) (th_log t) out)"

definition conf :: "answers \<Rightarrow> ('k \<Rightarrow> sqe set) \<Rightarrow> ('j, 'k) sched \<Rightarrow> thread list \<Rightarrow> bool" where
  "conf allowed sent s ts \<longleftrightarrow> interleaves (map th_log ts) (log s) \<and> distinct (map th_handle ts)
     \<and> (\<forall>h. Some h \<in> set (tasks s) \<longrightarrow> h \<in> th_handle ` set ts)
     \<and> (\<forall>t \<in> set ts. th_handle t < length (frames s) \<and> thread_ok allowed sent s t)"

lemma conf_done:
  assumes "conf allowed sent s ts" "tasks s = []"
  shows "interleaves (map th_log ts) (log s)" "list_all2 (\<lambda>c p. \<exists>out. blocks allowed c p out) (map th_body ts) (map th_log ts)"
  using assms by (auto simp: conf_def thread_ok_def waiting_def list_all2_conv_all_nth)

lemma chain_unique: "chain fs (h # hs) a \<Longrightarrow> chain fs (h # hs') a' \<Longrightarrow> hs' = hs \<and> a' = a"
proof (induction hs arbitrary: h hs')
  case Nil
  then show ?case by (cases hs') auto
next
  case (Cons h1 hs)
  then show ?case by (cases hs') auto
qed

lemma chain_hd_unique: "chain fs hs a \<Longrightarrow> chain fs hs' a' \<Longrightarrow> hd hs' = hd hs \<Longrightarrow> hs' = hs \<and> a' = a"
  using chain_unique [of fs "hd hs" "tl hs" a "tl hs'" a'] by (cases hs; cases hs'; simp)

lemma rest_of_cong: "\<forall>i \<in> set hs. fs' ! i = fs ! i \<Longrightarrow> rest_of fs' hs = rest_of fs hs"
  by (induction fs hs rule: rest_of.induct) (auto split: fstatus.split)

section \<open>Steps that leave a thread alone\<close>

text \<open>The completion \<open>c\<close> answers an entry the kernel had.\<close>

definition answers_one :: "answers \<Rightarrow> sqe set \<Rightarrow> cqe \<Rightarrow> bool" where
  "answers_one allowed E c \<longleftrightarrow> (\<exists>e \<in> E. sqe_user_data e = cqe_user_data c
     \<and> (\<forall>a op tmo. e = hd (entries_of a (mk_op op tmo)) \<longrightarrow> allowed op tmo (cqe_res c)))"

definition undisturbed :: "answers \<Rightarrow> ('k \<Rightarrow> sqe set) \<Rightarrow> ('j, 'k) sched \<Rightarrow> ('j, 'k) sched \<Rightarrow> nat \<Rightarrow> bool" where
  "undisturbed allowed sent s s' h \<longleftrightarrow> waiting s' h = waiting s h \<and> length (frames s) \<le> length (frames s')
     \<and> (waiting s h \<longrightarrow> (\<forall>hs a. hd hs = h \<longrightarrow> chain (frames s) hs a \<longrightarrow>
          (\<forall>i \<in> set hs. frames s' ! i = frames s ! i)
        \<and> (\<forall>e \<in> known sent s'. sqe_user_data e = AwPtr a \<longrightarrow> e \<in> known sent s)
        \<and> (\<forall>c \<in> set (cq_ready (ring s')). cqe_user_data c = AwPtr a \<longrightarrow>
             c \<in> set (cq_ready (ring s)) \<or> answers_one allowed (known sent s) c)))"

lemma thread_keep:
  assumes t: "thread_ok allowed sent s t" and u: "undisturbed allowed sent s s' (th_handle t)"
  shows "thread_ok allowed sent s' t"
proof (cases "waiting s (th_handle t)")
  case True
  then obtain a op tmo f hs where a: "hd hs = th_handle t" "chain (frames s) hs a" "rest_of (frames s) hs = f"
      "answered allowed sent s a op tmo"
      "\<forall>r l out. allowed op tmo r \<longrightarrow> blocks allowed (f r) l out \<longrightarrow> blocks allowed (th_body t) (th_log t @ l) out"
    using t by (auto simp: thread_ok_def awaits_def)
  note v = u [unfolded undisturbed_def, THEN conjunct2, THEN conjunct2, rule_format, OF True a(1,2)]
  have "awaits (frames s') (th_handle t) a f"
    using chain_cong [OF a(2)] rest_of_cong [of hs "frames s'" "frames s"] v a(1,3) u
    by (auto simp: awaits_def undisturbed_def)
  moreover have "answered allowed sent s' a op tmo"
    using a(4) v unfolding answered_def answers_one_def by metis
  ultimately show ?thesis using True u a(5) unfolding thread_ok_def undisturbed_def by auto
next
  case False
  then show ?thesis using t u by (simp add: thread_ok_def undisturbed_def)
qed

lemma conf_keep:
  assumes c: "conf allowed sent s ts" and l: "log s' = log s" and t: "set (tasks s') \<subseteq> set (tasks s)"
    and f: "length (frames s) \<le> length (frames s')" and u: "\<And>h. undisturbed allowed sent s s' h"
  shows "conf allowed sent s' ts"
  using assms thread_keep [OF _ u] unfolding conf_def by (metis (no_types, lifting) order.strict_trans2 subsetD)

lemma undisturbed_flow:
  assumes "frames s' = frames s" "tasks s' = tasks s"
    and "\<And>e. e \<in> known sent s' \<Longrightarrow> is_aw (sqe_user_data e) \<Longrightarrow> e \<in> known sent s"
    and "\<And>c. c \<in> set (cq_ready (ring s')) \<Longrightarrow> is_aw (cqe_user_data c) \<Longrightarrow>
      c \<in> set (cq_ready (ring s)) \<or> answers_one allowed (known sent s) c"
  shows "undisturbed allowed sent s s' h"
  using assms by (auto simp: undisturbed_def waiting_def frame_done_def)

section \<open>A thread runs\<close>

lemma user_data_hd: "sqe_user_data (hd (entries_of a aw)) = AwPtr a"
  by (simp add: entries_of_def primary_entry_def prepare_primary_def set_link_def del: prepare_primary_entry)

lemma entries_aw: "e \<in> set (entries_of a aw) \<Longrightarrow> is_aw (sqe_user_data e) \<Longrightarrow> e = hd (entries_of a aw)"
  by (auto simp: entries_of_def timeout_entry_def zero_sqe_def split: if_splits)

lemma entries_user_data: "e \<in> set (entries_of a aw) \<Longrightarrow> is_aw (sqe_user_data e) \<Longrightarrow> sqe_user_data e = AwPtr a"
  using entries_aw user_data_hd by metis

lemma lands_first_stop:
  assumes l: "lands H h m (exec c (mst m)) m'" and ok: "sq_ok (ring m)" "has_capacity (ring m) 2" and fs: "first_stop c = (l, x)"
  shows "log m' = log m @ l" "tl_sq_full m' = tl_sq_full m"
    "case x of
       Inl out \<Rightarrow> frame_done m' h \<and> ring m' = ring m
     | Inr (op, tmo, f) \<Rightarrow> \<not> frame_done m' h \<and> awaits (frames m') h (length (aws m)) f
         \<and> sq_pending (ring m') = sq_pending (ring m) @ entries_of (length (aws m)) (mk_op op tmo) \<and> cq_ready (ring m') = cq_ready (ring m)"
proof -
  note e = exec_first_stop [OF ok, of c "length (aws m)" "tl_sq_full m" "log m", unfolded fs]
  show "log m' = log m @ l" "tl_sq_full m' = tl_sq_full m"
    using l e by (auto simp: lands_def mst_def split: sum.splits prod.splits)
  show "case x of
       Inl out \<Rightarrow> frame_done m' h \<and> ring m' = ring m
     | Inr (op, tmo, f) \<Rightarrow> \<not> frame_done m' h \<and> awaits (frames m') h (length (aws m)) f
         \<and> sq_pending (ring m') = sq_pending (ring m) @ entries_of (length (aws m)) (mk_op op tmo) \<and> cq_ready (ring m') = cq_ready (ring m)"
  proof (cases x)
    case (Inl out)
    then show ?thesis using l e by (auto simp: lands_def mst_def frame_done_def)
  next
    case (Inr y)
    then obtain op tmo f where y: "x = Inr (op, tmo, f)" by (cases y) auto
    let ?es = "entries_of (length (aws m)) (mk_op op tmo)"
    have r: "ring m' = foldl stage (ring m) ?es" using l e y by (auto simp: lands_def mst_def)
    obtain hs where hs: "chain (frames m') (h # hs) (length (aws m))" "rest_of (frames m') (h # hs) = f"
      using l e y by (auto simp: lands_def mst_def)
    have "\<not> frame_done m' h" using hs(1) by (cases hs) (auto simp: frame_done_def)
    moreover have "length ?es \<le> 2" by (simp add: entries_of_def)
    then have "length (sq_pending (ring m)) + length ?es \<le> unat (sq_entries (ring m))" using ok has_capacity_2 by fastforce
    then have "sq_pending (ring m') = sq_pending (ring m) @ ?es" using sq.put_all [OF ok(1)] r by simp
    moreover have "cq_ready (ring m') = cq_ready (ring m)"
      using foldl_stage_fields [of "ring m" ?es] cq_same_abs by (simp add: r)
    ultimately show ?thesis using y hs by (auto simp: awaits_def intro!: exI [of _ "h # hs"])
  qed
qed

text \<open>The thread that has run, in the state after it.\<close>

lemma thread_run:
  assumes l: "lands H h m (exec c (mst m)) m'" and ok: "sq_ok (ring m)" "has_capacity (ring m) 2"
    and fs: "first_stop c = (l, x)" and run: "\<And>l' out. blocks allowed c l' out \<Longrightarrow> blocks allowed body (p @ l') out"
    and s': "frames s' = frames m'" "ring s' = ring m'" "Some h \<in> set (tasks s')" "sent (kst s') \<subseteq> S"
    and new: "\<forall>e \<in> set (sq_pending (ring m)) \<union> S. sqe_user_data e \<noteq> AwPtr (length (aws m))"
      "\<forall>q \<in> set (cq_ready (ring m)). cqe_user_data q \<noteq> AwPtr (length (aws m))"
  shows "thread_ok allowed sent s' \<lparr>th_handle = h, th_body = body, th_log = p @ l\<rparr>"
proof -
  have d: "frame_done s' h = frame_done m' h" by (simp add: frame_done_def s'(1))
  note f = lands_first_stop(3) [OF l ok fs]
  show ?thesis
  proof (cases x)
    case (Inl out)
    then have "blocks allowed body (p @ l) out" using run blocks_done fs by simp
    then show ?thesis using f Inl d by (auto simp: thread_ok_def waiting_def)
  next
    case (Inr y)
    then obtain op tmo g where y: "x = Inr (op, tmo, g)" by (cases y) auto
    let ?a = "length (aws m)"
    have a: "\<not> frame_done s' h" "awaits (frames s') h ?a g" using f y d s'(1) by simp_all
    have k: "known sent s' \<subseteq> (set (sq_pending (ring m)) \<union> S) \<union> set (entries_of ?a (mk_op op tmo))"
      using f y s'(2,4) by (auto simp: known_def)
    have "e = hd (entries_of ?a (mk_op op tmo))" if "e \<in> known sent s'" "sqe_user_data e = AwPtr ?a" for e
      using subsetD [OF k that(1)] new(1) that(2) entries_aw by auto
    then have "answered allowed sent s' ?a op tmo"
      using f y new(2) s'(2) by (auto simp: answered_def)
    moreover have "blocks allowed body ((p @ l) @ l') out" if "allowed op tmo r" "blocks allowed (g r) l' out" for r l' out
      using run [OF blocks_resume [OF fs [unfolded y] that]] by simp
    ultimately show ?thesis using a s'(3) by (simp add: thread_ok_def waiting_def) blast
  qed
qed

lemma run_undisturbed:
  assumes own: "owns s ch lf" and t: "Some h \<in> set (tasks s') \<longleftrightarrow> Some h \<in> set (tasks s)"
    and f: "Some h \<in> set (tasks s) \<Longrightarrow> \<forall>i \<in> set (ch h). frames s' ! i = frames s ! i" "length (frames s) \<le> length (frames s')"
    and k: "\<And>e. e \<in> known sent s' \<Longrightarrow> is_aw (sqe_user_data e) \<Longrightarrow> e \<in> known sent s \<or> sqe_user_data e = AwPtr (length (aws s))"
    and q: "cq_ready (ring s') = cq_ready (ring s)"
  shows "undisturbed allowed sent s s' h"
proof (cases "Some h \<in> set (tasks s)")
  case True
  note root = owns_mem [OF own True]
  have "h \<in> set (ch h)" using task_root_mem [OF root] by blast
  then have w: "waiting s' h = waiting s h" using f(1) [OF True] t by (simp add: waiting_def frame_done_def)
  have "hs = ch h \<and> a < length (aws s)" if "waiting s h" "hd hs = h" "chain (frames s) hs a" for hs a
    using root that chain_hd_unique [of "frames s" "ch h" "lf h" hs a] by (auto simp: task_root_def waiting_def)
  then show ?thesis using w f(1) [OF True] f(2) k q by (fastforce simp: undisturbed_def)
next
  case False
  then show ?thesis using t f(2) by (simp add: undisturbed_def waiting_def)
qed

lemma map_update_same: "f y = f (xs ! i) \<Longrightarrow> map f (xs[i := y]) = map f xs"
  by (metis list_update_id map_update)

lemma conf_update:
  assumes c: "conf allowed sent s ts" and i: "i < length ts" and l: "log s' = log s @ l" and t: "tasks s' = tasks s"
    and f: "length (frames s) \<le> length (frames s')" and ok: "thread_ok allowed sent s' ((ts ! i)\<lparr>th_log := th_log (ts ! i) @ l\<rparr>)"
    and u: "\<And>h. h \<noteq> th_handle (ts ! i) \<Longrightarrow> undisturbed allowed sent s s' h"
  shows "conf allowed sent s' (ts[i := (ts ! i)\<lparr>th_log := th_log (ts ! i) @ l\<rparr>])"
proof -
  let ?t = "(ts ! i)\<lparr>th_log := th_log (ts ! i) @ l\<rparr>"
  have h: "map th_handle (ts[i := ?t]) = map th_handle ts"
    by (rule map_update_same) simp
  have "interleaves (map th_log (ts[i := ?t])) (log s')"
    using interleaves_append [of "map th_log ts" "log s" i l] c i l by (simp add: conf_def map_update)
  moreover have "th_handle x < length (frames s') \<and> thread_ok allowed sent s' x" if x: "x \<in> set (ts[i := ?t])" for x
  proof -
    obtain j where j: "j < length ts" "x = (if j = i then ?t else ts ! j)"
      using x by (auto simp: in_set_conv_nth nth_list_update)
    then have m: "ts ! j \<in> set ts" by simp
    have "th_handle (ts ! j) \<noteq> th_handle (ts ! i)" if "j \<noteq> i"
      using c i j(1) that nth_eq_iff_index_eq [of "map th_handle ts" j i] by (simp add: conf_def)
    then show ?thesis using j m c f ok thread_keep [OF _ u] unfolding conf_def by (fastforce split: if_splits)
  qed
  ultimately show ?thesis
    using c t h unfolding conf_def by (metis list.set_map)
qed

section \<open>The kernel answers\<close>

text \<open>
  \<open>sent k\<close>: the entries taken and not yet completed. Every completion of an operation belongs to an
  entry the kernel has been given, with a result allowed for it.
\<close>

locale answering_kernel = progressing_kernel os infl delay for os :: "'k os" and infl and delay +
  fixes sent :: "'k \<Rightarrow> sqe set" and allowed :: answers
  assumes sent_infl: "e \<in> sent k \<Longrightarrow> sqe_user_data e \<in># infl k"
    and sent_enter: "os_enter os es mc room k = (resp, k') \<Longrightarrow> sent k' \<subseteq> sent k \<union> set es"
    and enter_answers: "os_enter os es mc room k = (resp, k') \<Longrightarrow> c \<in> set (er_cqes resp) \<Longrightarrow> is_aw (cqe_user_data c) \<Longrightarrow>
      answers_one allowed (sent k \<union> set es) c"
begin

lemma known_old: "safe infl s \<Longrightarrow> e \<in> known sent s \<Longrightarrow> sqe_user_data e = AwPtr a \<Longrightarrow> a < length (aws s)"
  using safe_alive [of infl s a] sent_infl [of e "kst s"]
  by (auto simp: known_def aw_alive_def sq_uds_def live_q_def rev_image_eqI)

lemma ready_old: "safe infl s \<Longrightarrow> c \<in> set (cq_ready (ring s)) \<Longrightarrow> cqe_user_data c = AwPtr a \<Longrightarrow> a < length (aws s)"
  using safe_alive [of infl s a] by (auto simp: aw_alive_def live_q_def rev_image_eqI)

lemma deliver_conf:
  assumes safe: "safe infl s" and c: "c \<in> set (cq_ready (ring s))" "cqe_user_data c = AwPtr a" and conf: "conf allowed sent s ts"
    and cap: "has_capacity (ring s) 2"
  shows "\<exists>ts'. conf allowed sent (deliver a (cqe_res c) s) ts' \<and> map th_body ts' = map th_body ts"
proof -
  have "AwPtr a \<in># live_q infl s" using c by (auto simp: live_q_def rev_image_eqI)
  then have q: "sched_inv (add_mset (AwPtr a) (live_q infl s - {#AwPtr a#})) s" using safe by (simp add: safe_def)
  then obtain ch lf where i: "calm s" "owns s ch lf" "outstanding (add_mset (AwPtr a) (live_q infl s - {#AwPtr a#})) s lf"
    by (auto simp: sched_inv_def)
  obtain h s1 s2 where h: "Some h \<in> set (tasks s)" "\<not> frame_done s h" "lf h = a" "hd (ch h) = h" "chain (frames s) (ch h) a"
    and s1: "s1 = s\<lparr>aws := (aws s)[a := (aws s ! a)\<lparr>aw_result := cqe_res c\<rparr>], current := Some (last (ch h))\<rparr>"
    and l: "lands (set (ch h)) h s1 (exec (rest_of (frames s) (ch h) (cqe_res c)) (mst s1)) s2"
    and d: "deliver a (cqe_res c) s = s2\<lparr>tl_sq_full := False\<rparr>"
    by (rule deliver_lands [OF i(2,3)])
  let ?s' = "s2\<lparr>tl_sq_full := False\<rparr>" and ?c = "rest_of (frames s) (ch h) (cqe_res c)"
  obtain x lg where fs: "first_stop ?c = (lg, x)" by fastforce
  have ok: "sq_ok (ring s1)" "has_capacity (ring s1) 2" using i(1) cap by (simp_all add: calm_def ring_ok_def s1)
  note st = lands_first_stop [OF l ok fs]
  have k: "keeps (set (ch h)) h s1 s2" using l by (simp add: lands_def)
  have "mach.more s2 = mach.more s1" using k by (simp add: keeps_def)
  note more = more_fields [OF this]
  have s': "tasks ?s' = tasks s" "kst ?s' = kst s" using more by (simp_all add: s1)
  obtain j where j: "j < length ts" "th_handle (ts ! j) = h"
    using conf h(1) unfolding conf_def by (metis image_iff in_set_conv_nth)
  then have "thread_ok allowed sent s (ts ! j)" "waiting s (th_handle (ts ! j))"
    using conf h by (simp_all add: conf_def waiting_def)
  then obtain b op tmo f where t: "awaits (frames s) h b f" "answered allowed sent s b op tmo"
    "\<forall>r l out. allowed op tmo r \<longrightarrow> blocks allowed (f r) l out \<longrightarrow> blocks allowed (th_body (ts ! j)) (th_log (ts ! j) @ l) out"
    using j(2) by (auto simp: thread_ok_def)
  have b: "b = a" "f = rest_of (frames s) (ch h)"
    using t(1) chain_hd_unique [OF h(5)] h(4) by (auto simp: awaits_def)
  have run: "blocks allowed (th_body (ts ! j)) (th_log (ts ! j) @ l') out" if "blocks allowed ?c l' out" for l' out
    using t(2,3) c b that by (auto simp: answered_def)
  have "thread_ok allowed sent ?s' \<lparr>th_handle = h, th_body = th_body (ts ! j), th_log = th_log (ts ! j) @ lg\<rparr>"
    by (rule thread_run [OF l ok fs run, of _ _ "sent (kst s)"])
       (use h(1) s' known_old [OF safe] ready_old [OF safe] in \<open>auto simp: s1 known_def\<close>)
  then have th: "thread_ok allowed sent ?s' ((ts ! j)\<lparr>th_log := th_log (ts ! j) @ lg\<rparr>)" using j(2) by (cases "ts ! j") simp
  have fr: "length (frames s) \<le> length (frames ?s')" "\<forall>i < length (frames s). i \<notin> set (ch h) \<longrightarrow> frames ?s' ! i = frames s ! i"
    using k by (simp_all add: keeps_def s1)
  have kn: "e \<in> known sent s \<or> sqe_user_data e = AwPtr (length (aws s))" if "e \<in> known sent ?s'" "is_aw (sqe_user_data e)" for e
    using that st(3) s'(2) by (cases x) (auto simp: known_def s1 dest: entries_user_data)
  have rd: "cq_ready (ring ?s') = cq_ready (ring s)" using st(3) by (cases x) (auto simp: s1)
  have u: "undisturbed allowed sent s ?s' h'" if "h' \<noteq> h" for h'
  proof (rule run_undisturbed [OF i(2) _ _ fr(1) kn rd])
    show "\<forall>i \<in> set (ch h'). frames ?s' ! i = frames s ! i" if "Some h' \<in> set (tasks s)"
      using task_root_mem [OF owns_mem [OF i(2) that]] fr(2) i(2) h(1) \<open>h' \<noteq> h\<close> that unfolding owns_def by blast
  qed (simp_all add: s')
  have "log ?s' = log s @ lg" using st(1) by (simp add: s1)
  from conf_update [OF conf j(1) this s'(1) fr(1) th] u j
  have "conf allowed sent ?s' (ts[j := (ts ! j)\<lparr>th_log := th_log (ts ! j) @ lg\<rparr>])" by blast
  moreover have "map th_body (ts[j := (ts ! j)\<lparr>th_log := th_log (ts ! j) @ lg\<rparr>]) = map th_body ts"
    by (rule map_update_same) simp
  ultimately show ?thesis unfolding d by blast
qed

lemma process_conf:
  assumes safe: "safe infl s" and ib: "inbox s = []" and c: "c \<in> set (cq_ready (ring s))" and conf: "conf allowed sent s ts"
    and cap: "is_aw (cqe_user_data c) \<Longrightarrow> has_capacity (ring s) 2" and p: "process_cqe os invoke c s = (e, s')"
  shows "\<exists>ts'. conf allowed sent s' ts' \<and> map th_body ts' = map th_body ts"
proof (cases "\<exists>a. cqe_user_data c = AwPtr a")
  case True
  then obtain a where a: "cqe_user_data c = AwPtr a" by blast
  then have "s' = deliver a (cqe_res c) s" using p by (simp add: process_cqe_def)
  then show ?thesis using deliver_conf [OF safe c a conf] cap a by simp
next
  case False
  have "cqe_user_data c \<in># live_q infl s" using c by (auto simp: live_q_def)
  then have "is_aw (cqe_user_data c) \<or> cqe_user_data c = NullPtr \<or> cqe_user_data c = EventfdBuf"
    using safe by (auto simp: safe_def sched_inv_def outstanding_def)
  then have "cqe_user_data c = NullPtr \<or> cqe_user_data c = EventfdBuf" using False by (cases "cqe_user_data c") auto
  then have "s' = s \<or> s' = s\<lparr>eventfd_armed := False, inbox := []\<rparr>" using p ib by (auto simp: process_cqe_def drain_inbox_def)
  then have "frames s' = frames s" "tasks s' = tasks s" "log s' = log s" "ring s' = ring s" "kst s' = kst s" by auto
  then have "conf allowed sent s' ts" by (intro conf_keep [OF conf]) (auto intro: undisturbed_flow simp: known_def)
  then show ?thesis by blast
qed

lemma advance_conf:
  assumes "conf allowed sent s ts" "cq_head (ring s) \<noteq> cq_tail (ring s)"
  shows "conf allowed sent (s\<lparr>ring := cq_advance (ring s)\<rparr>) ts"
proof (rule conf_keep [OF assms(1)])
  have "set (cq_ready (cq_advance (ring s))) \<subseteq> set (cq_ready (ring s))"
    using cq_ready_advance [OF assms(2)] by (cases "cq_ready (ring s)") auto
  then show "undisturbed allowed sent s (s\<lparr>ring := cq_advance (ring s)\<rparr>) h" for h
    by (intro undisturbed_flow) (auto simp: known_def cq_advance_def)
qed simp_all

lemma process_all_conf:
  assumes "safe infl s" "inbox s = []" "conf allowed sent s ts"
    and "sq_len (ring s) + 2 * ops_in (cq_ready (ring s)) \<le> unat (sq_entries (ring s))"
    and "process_all os invoke (cq_ready (ring s)) s = (None, s')"
  shows "\<exists>ts'. conf allowed sent s' ts' \<and> map th_body ts' = map th_body ts"
  using assms
proof (induction "cq_ready (ring s)" arbitrary: s ts)
  case Nil
  have "cq_ready (ring s) = []" using Nil.hyps by simp
  then show ?case using Nil.prems by auto
next
  case (Cons c cs)
  let ?r = "ring s"
  have ne: "cq_head ?r \<noteq> cq_tail ?r" using Cons.hyps(2) by (auto simp: cq_ready_def cq_len_def)
  have c: "c \<in> set (cq_ready ?r)" by (simp flip: Cons.hyps(2))
  then have inq: "cqe_user_data c \<in># live_q infl s" by (auto simp: live_q_def)
  obtain s1 where p: "process_cqe os invoke c s = (None, s1)" and b: "batch (if is_aw (cqe_user_data c) then 1 else 0) s s1"
    using process_one [OF Cons.prems(1) inq Cons.prems(2)] by blast
  have front: "c = cq_front ?r" "cs = tl (cq_ready ?r)"
    using cqe_step(5) [OF no_jobs_ok Cons.prems(1) ne prod.collapse [symmetric]] Cons.hyps(2)
    by (metis list.sel(1), metis list.sel(3))
  have "process_cqe os no_jobs (cq_front ?r) s = (None, s1)"
    using p process_cqe_no_jobs [OF Cons.prems(2), of os invoke c] front(1) by (simp only:)
  note st = cqe_step [OF no_jobs_ok Cons.prems(1) ne this]
  let ?s2 = "s1\<lparr>ring := cq_advance (ring s1)\<rparr>"
  have "sq_ok ?r" using Cons.prems(1) sched_inv_calm by (fastforce simp: safe_def calm_def ring_ok_def)
  then have cap: "has_capacity ?r 2" if "is_aw (cqe_user_data c)"
    using that Cons.prems(4) has_capacity_2 by (simp add: ops_in_def flip: Cons.hyps(2))
  obtain ts1 where ts1: "conf allowed sent s1 ts1" "map th_body ts1 = map th_body ts"
    using process_conf [OF Cons.prems(1,2) c Cons.prems(3) cap p] by blast
  have "cq_head (ring s1) \<noteq> cq_tail (ring s1)" using ne st(1) by (simp add: cq_same_def)
  note c2 = advance_conf [OF ts1(1) this]
  have r2: "cs = cq_ready (ring ?s2)" "inbox ?s2 = []" using st(4) front b by (simp_all add: batch_def)
  moreover have "sq_len (ring ?s2) + 2 * ops_in (cq_ready (ring ?s2)) \<le> unat (sq_entries (ring ?s2))"
    using Cons.prems(4) b r2(1) by (auto simp: batch_def cq_advance_def ops_in_def simp flip: Cons.hyps(2) split: if_splits)
  moreover have "process_all os invoke (cq_ready (ring ?s2)) ?s2 = (None, s')"
    using Cons.prems(5) p r2(1) by (simp flip: Cons.hyps(2))
  ultimately show ?case using Cons.hyps(1) [OF r2(1) st(3) _ c2] ts1(2) by metis
qed

lemma reap_conf:
  assumes inv: "sched_inv Q s" and conf: "conf allowed sent s ts"
  shows "conf allowed sent (reap s) ts"
proof -
  obtain ch lf where o: "owns s ch lf" using inv by (auto simp: sched_inv_def)
  note re = reap_effect [OF inv]
  have w: "waiting (reap s) h = waiting s h" for h
  proof -
    have "Some h \<in> set (unfinished s) \<longleftrightarrow> waiting s h" by (auto simp: unfinished_def waiting_def Task_done_def)
    moreover have "frame_done (reap s) h = frame_done s h" if "Some h \<in> set (unfinished s)"
    proof -
      have "Some h \<in> set (tasks s)" using that by (simp add: unfinished_def)
      then have "h \<in> set (ch h)" using task_root_mem [OF owns_mem [OF o]] by blast
      then show ?thesis using reap_frames_kept [OF o that] by (simp add: re frame_done_def)
    qed
    ultimately show ?thesis by (auto simp: waiting_def re)
  qed
  have "frames (reap s) ! i = frames s ! i" if "waiting s h" "hd hs = h" "chain (frames s) hs a" "i \<in> set hs" for h hs a i
  proof -
    have "task_root s h (ch h) (lf h)" "\<not> frame_done s h" using o that(1) by (simp_all add: owns_def waiting_def)
    then have "hs = ch h" using chain_hd_unique that(2,3) by (metis task_root_def)
    then show ?thesis using reap_frames_kept [OF o, of h i] that(1,4)
      by (auto simp: re unfinished_def waiting_def Task_done_def)
  qed
  then have "undisturbed allowed sent s (reap s) h" for h
    using w by (auto simp: undisturbed_def) (simp_all add: re known_def reaped_frames_def)
  then show ?thesis by (intro conf_keep [OF conf]) (auto simp: re unfinished_def reaped_frames_def)
qed

text \<open>The first two steps of \<open>drain\<close>, up to the loop over the completions.\<close>

lemma drain_parts_conf:
  assumes safe: "safe infl s" and slot: "eventfd_armed s \<or> has_capacity (ring s) 1" and conf: "conf allowed sent s ts"
  obtains s1 es mc resp k' where
    "os_enter os es mc (unat (cq_entries (ring s)) - cq_len (ring s)) (kst s) = (resp, k')" "kst s1 = k'"
    "set_mset (sq_uds (ring s)) \<subseteq> sqe_user_data ` set es" "\<not> eventfd_armed s \<longrightarrow> EventfdBuf \<in> sqe_user_data ` set es"
    "cq_ready (ring s1) = cq_ready (ring s) @ er_cqes resp" "sq_len (ring s1) = 0" "sq_entries (ring s1) = sq_entries (ring s)"
    "safe infl s1" "conf allowed sent s1 ts" "inbox s1 = inbox s" "tasks s1 = tasks s" "eventfd_armed s1" "frames s1 = frames s"
    "drain os invoke s = drain_cqes os invoke (cq_mask (ring s1)) (cq_head (ring s1)) (cq_tail (ring s1)) s1" "s1 = submit_staged os s"
proof -
  obtain s0 s1 mc resp k' where s0: "s0 = (if \<not> eventfd_armed s then arm_eventfd_read s else s)"
    and e: "os_enter os (sq_pending (ring s0)) mc (unat (cq_entries (ring s)) - cq_len (ring s)) (kst s) = (resp, k')"
    and s1: "s1 = s0\<lparr>ring := ring s1, kst := k'\<rparr>" "cq_ready (ring s1) = cq_ready (ring s) @ er_cqes resp" "sq_len (ring s1) = 0"
      "sq_entries (ring s1) = sq_entries (ring s)" "safe infl s1" "inbox s1 = inbox s"
    and dr: "drain os invoke s = drain_cqes os invoke (cq_mask (ring s1)) (cq_head (ring s1)) (cq_tail (ring s1)) s1" "s1 = submit_staged os s"
    by (rule drain_parts [OF safe slot])
  have rok: "sq_ok (ring s)" using safe sched_inv_calm by (fastforce simp: safe_def calm_def ring_ok_def)
  have p0: "sq_pending (ring s0) = sq_pending (ring s) @ (if eventfd_armed s then [] else [eventfd_read_sqe (eventfd s) zero_sqe])"
    using slot sq_pending_stage [OF rok, of "eventfd_read_sqe (eventfd s)"] has_capacity_1 [OF rok]
    by (auto simp: s0 arm_stages eventfd_read_sqe_def)
  have pend: "e \<in> set (sq_pending (ring s0)) \<Longrightarrow> is_aw (sqe_user_data e) \<Longrightarrow> e \<in> set (sq_pending (ring s))" for e
    by (auto simp: p0 eventfd_read_sqe_def split: if_splits)
  have s1f: "frames s1 = frames s" "tasks s1 = tasks s" "log s1 = log s" "kst s1 = k'" "eventfd_armed s1"
    by (subst s1(1), simp add: s0 arm_stages)+
  have kn: "e \<in> known sent s" if "e \<in> known sent s1" "is_aw (sqe_user_data e)" for e
    using that sent_enter [OF e] pend s1(3) by (auto simp: known_def s1f sq_pending_def)
  have "answers_one allowed (known sent s) c" if "c \<in> set (er_cqes resp)" "is_aw (cqe_user_data c)" for c
  proof -
    have "sent (kst s) \<union> {e \<in> set (sq_pending (ring s0)). is_aw (sqe_user_data e)} \<subseteq> known sent s" using pend by (auto simp: known_def)
    then show ?thesis using enter_answers [OF e that] that(2) unfolding answers_one_def by (metis (mono_tags, lifting) UnCI UnE mem_Collect_eq subsetD)
  qed
  then have "conf allowed sent s1 ts"
    using kn by (intro conf_keep [OF conf] undisturbed_flow) (auto simp: s1f s1(2))
  moreover have "set_mset (sq_uds (ring s)) \<subseteq> sqe_user_data ` set (sq_pending (ring s0))"
    "\<not> eventfd_armed s \<longrightarrow> EventfdBuf \<in> sqe_user_data ` set (sq_pending (ring s0))"
    by (auto simp: sq_uds_def p0 eventfd_read_sqe_def)
  ultimately show thesis using that [OF e s1f(4) _ _ s1(2-5) _ s1(6) s1f(2,5,1) dr] by blast
qed

lemma round_conf:
  assumes ok: "idle_ok s" and conf: "conf allowed sent s ts" and d: "drain os invoke s = (None, s')"
  shows "\<exists>ts'. conf allowed sent (reap s') ts' \<and> map th_body ts' = map th_body ts"
proof -
  have safe: "safe infl s" and slot: "eventfd_armed s \<or> has_capacity (ring s) 1" using ok by (simp_all add: idle_ok_def)
  obtain s1 where s1: "sq_len (ring s1) = 0" "sq_entries (ring s1) = sq_entries (ring s)" "safe infl s1"
    "conf allowed sent s1 ts" "inbox s1 = inbox s" "tasks s1 = tasks s"
    and dr: "drain os invoke s = drain_cqes os invoke (cq_mask (ring s1)) (cq_head (ring s1)) (cq_tail (ring s1)) s1"
    by (rule drain_parts_conf [OF safe slot conf])
  have ib: "inbox s1 = []" using s1(5) ok by (simp add: idle_ok_def)
  have "drain_cqes os no_jobs (cq_mask (ring s1)) (cq_head (ring s1)) (cq_tail (ring s1)) s1 = (None, s')"
    using d dr drain_cqes_no_jobs [OF s1(3) ib, of invoke] by simp
  note all = drain_cqes_all [OF no_jobs_ok s1(3) this]
  have "2 * ops_in (cq_ready (ring s1)) \<le> unat (sq_entries (ring s1))"
    using ops_le_tasks [OF s1(3)] s1(2,6) ok by (simp add: idle_ok_def)
  then obtain ts' where "conf allowed sent s' ts'" "map th_body ts' = map th_body ts"
    using process_all_conf [OF s1(3) ib s1(4) _ all(2)] s1(1) by auto
  then show ?thesis using reap_conf all(1) unfolding safe_def by blast
qed

lemma spawn_conf:
  assumes safe: "safe infl s" and cap: "has_capacity (ring s) 2" and conf: "conf allowed sent s ts" and mem: "\<And>n k. os_can_grow os n k"
  obtains s' h l where "spawn_call os c s = (None, s')" "conf allowed sent s' (ts @ [\<lparr>th_handle = h, th_body = c, th_log = l\<rparr>])"
    "sq_len (ring s') \<le> sq_len (ring s) + 2"
proof -
  have inv: "sched_inv (live_q infl s) s" using safe by (simp add: safe_def)
  obtain ch lf where i: "calm s" "owns s ch lf" using inv by (auto simp: sched_inv_def)
  let ?h = "length (frames s)" and ?s0 = "s\<lparr>frames := frames s @ [new_frame TVoid c], current := Some (length (frames s))\<rparr>"
  let ?s1 = "resume_handle ?h (s\<lparr>frames := frames s @ [new_frame TVoid c]\<rparr>)"
  let ?s' = "?s1\<lparr>tl_sq_full := False, tasks := tasks ?s1 @ [Some ?h]\<rparr>"
  have l: "lands {?h} ?h ?s0 (exec c (mst ?s0)) ?s1"
    using resume_new [of ?h "s\<lparr>frames := frames s @ [new_frame TVoid c]\<rparr>" TVoid c] by (simp add: mst_def)
  have ok: "sq_ok (ring ?s0)" "has_capacity (ring ?s0) 2" "\<not> tl_sq_full s" using i(1) cap by (simp_all add: calm_def ring_ok_def)
  obtain lg x where fs: "first_stop c = (lg, x)" by fastforce
  note st = lands_first_stop [OF l ok(1,2) fs]
  have k: "keeps {?h} ?h ?s0 ?s1" using l by (simp add: lands_def)
  have "mach.more ?s1 = mach.more ?s0" using k by (simp add: keeps_def)
  note more = more_fields [OF this]
  have "has_capacity (ring s) 1" using ok has_capacity_1 has_capacity_2 by fastforce
  then have sp: "spawn_call os c s = (None, ?s')"
    using st(2) ok capacity_spawn [of "ring s"] mem
    by (simp add: spawn_call_def make_task_def Scheduler_spawn_def take_pending_sq_error_def Let_def Task_move_def Task_dtor_def)
  have fr: "length (frames s) \<le> length (frames ?s')" "\<forall>i < length (frames s). frames ?s' ! i = frames s ! i" "?h < length (frames ?s')"
    using k by (auto simp: keeps_def nth_append)
  have kn: "e \<in> known sent s \<or> sqe_user_data e = AwPtr (length (aws s))" if "e \<in> known sent ?s'" "is_aw (sqe_user_data e)" for e
    using that st(3) more(6) by (cases x) (auto simp: known_def dest: entries_user_data)
  have rd: "cq_ready (ring ?s') = cq_ready (ring s)" using st(3) by (cases x) auto
  have len: "sq_len (ring ?s') \<le> sq_len (ring s) + 2"
    using st(3) by (cases x) (auto simp: entries_of_def simp flip: length_sq_pending)
  have u: "undisturbed allowed sent s ?s' h" if "h \<noteq> ?h" for h
    by (rule run_undisturbed [OF i(2) _ _ fr(1) kn rd])
       (use that more(4) task_root_mem [OF owns_mem [OF i(2)]] fr(2) in auto)
  have "thread_ok allowed sent ?s' \<lparr>th_handle = ?h, th_body = c, th_log = [] @ lg\<rparr>"
    by (rule thread_run [OF l ok(1,2) fs, of _ _ _ _ _ "sent (kst s)"])
       (use more known_old [OF safe] ready_old [OF safe] in \<open>auto simp: known_def\<close>)
  moreover have "interleaves (map th_log ts @ [lg]) (log ?s')"
    using interleaves_append [OF interleaves_new, of "map th_log ts" "log s" "length ts" lg] conf st(1)
    by (simp add: conf_def nth_append list_update_append)
  moreover have "thread_ok allowed sent ?s' t \<and> th_handle t < length (frames ?s') \<and> th_handle t \<noteq> ?h" if "t \<in> set ts" for t
    using conf that thread_keep [OF _ u] fr(1) by (fastforce simp: conf_def)
  ultimately have "conf allowed sent ?s' (ts @ [\<lparr>th_handle = ?h, th_body = c, th_log = lg\<rparr>])"
    using conf fr(3) more(4) by (auto simp: conf_def)
  then show thesis using that [OF sp _ len] by blast
qed

lemma shutdown_conf:
  assumes ok: "idle_ok s" and conf: "conf allowed sent s ts"
  shows "\<exists>s' ts'. shutdown os invoke s = Some (None, s') \<and> tasks s' = [] \<and> safe infl s' \<and> conf allowed sent s' ts'
    \<and> map th_body ts' = map th_body ts \<and> inbox s' = []"
proof -
  let ?P = "\<lambda>s. \<exists>ts'. conf allowed sent s ts' \<and> map th_body ts' = map th_body ts"
  have "conf allowed sent (s\<lparr>shutting_down := True\<rparr>) ts"
    by (rule conf_keep [OF conf]) (auto intro!: undisturbed_flow simp: known_def)
  moreover have "?P (reap s2)" if "idle_ok s1" "?P s1" "drain os invoke s1 = (None, s2)" for s1 s2
    using round_conf [OF that(1) _ that(3)] that(2) by metis
  ultimately show ?thesis using shutdown_ends_with [OF ok, of ?P invoke] by (auto simp: idle_ok_def)
qed

end

section \<open>Programs\<close>

text \<open>Spawn a number of tasks, then shut down. \<open>None\<close>: does not return. \<open>Inl\<close>: leaves by an exception.\<close>

definition spawn_and_shutdown :: "'k os \<Rightarrow> ring \<Rightarrow> 'k \<Rightarrow> co list \<Rightarrow> (exn + (unit, 'k) sched) option" where
  "spawn_and_shutdown os r k cs =
     (case Scheduler_ctor os r k of
        Inl e \<Rightarrow> Some (Inl (IOExc e))
      | Inr s \<Rightarrow>
          (case spawn_all os cs s of
             (Some e, s') \<Rightarrow> Some (Inl e)
           | (None, s') \<Rightarrow>
               (case shutdown os no_jobs s' of
                  None \<Rightarrow> None
                | Some (Some e, s2) \<Rightarrow> Some (Inl e)
                | Some (None, s2) \<Rightarrow> Some (Inr s2))))"

text \<open>A new ring of at least the default size, on a kernel that answers, with memory to spare.\<close>

locale test_bed = answering_kernel os infl delay sent allowed
  for os :: "'k os" and infl and delay and sent and allowed +
  fixes r :: ring and k0 :: 'k
  assumes fresh: "ring_ok r" "sq_pending r = []" "cq_ready r = []" "infl k0 = {#}"
    and default_size: "256 \<le> unat (sq_entries r)"
    and eventfd_ok: "0 \<le> fst (os_eventfd os k0)"
    and memory: "os_can_grow os n k"

context answering_kernel
begin

lemma spawn_all_conf:
  assumes "\<And>n k. os_can_grow os n k" "safe infl s" "conf allowed sent s ts" "inbox s = []"
    and "sq_len (ring s) + 2 * length cs \<le> unat (sq_entries (ring s))"
  shows "\<exists>s' ts'. spawn_all os cs s = (None, s') \<and> safe infl s' \<and> conf allowed sent s' ts' \<and> map th_body ts' = map th_body ts @ cs
    \<and> inbox s' = [] \<and> length (tasks s') = length (tasks s) + length cs \<and> sq_entries (ring s') = sq_entries (ring s)
    \<and> sq_len (ring s') \<le> sq_len (ring s) + 2 * length cs"
  using assms(2-)
proof (induction cs arbitrary: s ts)
  case (Cons c cs)
  have inv: "sched_inv (live_q infl s) s" using Cons.prems(1) by (simp add: safe_def)
  then have "has_capacity (ring s) 2"
    using sched_inv_calm Cons.prems(4) has_capacity_2 [of "ring s"] by (fastforce simp: calm_def ring_ok_def)
  then obtain s1 h l where sp: "spawn_call os c s = (None, s1)" "conf allowed sent s1 (ts @ [\<lparr>th_handle = h, th_body = c, th_log = l\<rparr>])"
    "sq_len (ring s1) \<le> sq_len (ring s) + 2"
    using spawn_conf [OF Cons.prems(1) _ Cons.prems(2) assms(1)] by blast
  note k = spawn_keeps [OF inv sp(1)]
  have s1: "safe infl s1" using k cq_same_abs [of "ring s" "ring s1"] by (simp add: safe_def live_q_def same_loop_def)
  have e: "sq_entries (ring s1) = sq_entries (ring s)" using k(2) by (simp add: same_loop_def)
  have "sq_len (ring s1) + 2 * length cs \<le> unat (sq_entries (ring s1))" using Cons.prems(4) sp(3) e by simp
  from Cons.IH [OF s1 sp(2) _ this] k(4,6) Cons.prems(3) sp(1,3) e show ?case by fastforce
qed auto

end

context test_bed
begin

lemma program:
  assumes n: "length cs < 128"
  obtains s' ps where "spawn_and_shutdown os r k0 cs = Some (Inr s')" "tasks s' = []" "ub_flag s' = None"
    "interleaves ps (log s')" "list_all2 (\<lambda>c p. \<exists>out. blocks allowed c p out) cs ps"
proof -
  obtain s0 :: "(unit, 'k) sched" where c: "Scheduler_ctor os r k0 = Inr s0"
    using eventfd_ok by (cases "os_eventfd os k0") (simp add: Scheduler_ctor_def)
  have s0: "ring s0 = r" "tasks s0 = []" "log s0 = []" "inbox s0 = []"
    using c by (auto simp: Scheduler_ctor_def split: prod.splits if_splits)
  have safe: "safe infl s0" using ctor_safe [OF c fresh] .
  have conf: "conf allowed sent s0 []" using interleaves.none [of 0] by (simp add: conf_def s0)
  have len: "sq_len (ring s0) + 2 * length cs \<le> unat (sq_entries (ring s0))" "sq_len r = 0"
    using default_size n fresh(2) by (simp_all add: s0 flip: length_sq_pending)
  obtain s1 ts where s1: "spawn_all os cs s0 = (None, s1)" "safe infl s1" "conf allowed sent s1 ts" "map th_body ts = cs"
    "inbox s1 = []" "length (tasks s1) = length cs" "sq_entries (ring s1) = sq_entries r" "sq_len (ring s1) \<le> 2 * length cs"
    using spawn_all_conf [OF memory safe conf s0(4) len(1)] len(2) by (auto simp: s0)
  have "has_capacity (ring s1) 1"
    using has_capacity_1 [of "ring s1"] s1 n default_size sched_inv_calm by (fastforce simp: safe_def calm_def ring_ok_def)
  then have ok: "idle_ok s1" using s1 n default_size by (simp add: idle_ok_def)
  obtain s' ts' where s': "shutdown os no_jobs s1 = Some (None, s')" "tasks s' = []" "safe infl s'" "conf allowed sent s' ts'"
    "map th_body ts' = cs"
    using shutdown_conf [OF ok s1(3), of no_jobs] s1(4) by auto
  have "list_all2 (\<lambda>c p. \<exists>out. blocks allowed c p out) cs (map th_log ts')" "interleaves (map th_log ts') (log s')"
    using conf_done [OF s'(4,2)] s'(5) by simp_all
  moreover have "spawn_and_shutdown os r k0 cs = Some (Inr s')" using c s1(1) s'(1) by (simp add: spawn_and_shutdown_def)
  moreover have "ub_flag s' = None" using s'(3) sched_inv_calm by (fastforce simp: safe_def calm_def)
  ultimately show thesis using that s'(2) by blast
qed

end

section \<open>The simulated kernel answers\<close>

definition reply_allowed :: "(sqe \<Rightarrow> int) \<Rightarrow> answers" where
  "reply_allowed g op tmo res \<longleftrightarrow> (\<exists>a. res = g (hd (entries_of a (mk_op op tmo))))"

lemma ks_enter_sets:
  assumes "ks_enter es mc room k = (resp, k')"
  shows "set (ks_infl k') \<subseteq> set (ks_infl k) \<union> set es" "set (er_cqes resp) \<subseteq> ks_cqe k ` (set (ks_infl k) \<union> set es)"
proof -
  let ?ready = "ks_ready k (ks_infl k @ es)"
  note e = ks_enterE [OF assms]
  have "set ?ready \<subseteq> set (ks_infl k) \<union> set es" by (auto simp: set_ks_ready)
  then show "set (ks_infl k') \<subseteq> set (ks_infl k) \<union> set es" "set (er_cqes resp) \<subseteq> ks_cqe k ` (set (ks_infl k) \<union> set es)"
    unfolding e using set_drop_subset [of room ?ready] set_take_subset [of room ?ready] by auto
qed

interpretation reply: test_bed "reply_os g" sim_uds ks_count "\<lambda>k. set (ks_infl k)" "reply_allowed g" "fresh_ring 8" sim0 for g
proof unfold_locales
  fix es mc room k resp k' assume e: "os_enter (reply_os g) es mc room k = (resp, k')"
  let ?k = "k\<lparr>ks_answer := (\<lambda>e. Some (g e))\<rparr>"
  have e': "ks_enter es mc room ?k = (resp, k')" using e by (simp add: reply_os_def)
  from ks_enter_sets(1) [OF this] show "set (ks_infl k') \<subseteq> set (ks_infl k) \<union> set es" by simp
  fix c assume c: "c \<in> set (er_cqes resp)" "is_aw (cqe_user_data c)"
  then obtain x where x: "x \<in> set (ks_infl k @ es)" "c = ks_cqe ?k x"
    using ks_enter_sets(2) [OF e'] by auto
  then have "cqe_res c = g x" "sqe_user_data x = cqe_user_data c" using c(2) by (auto simp: ks_cqe_def ks_outcome_def split: if_splits)
  then show "answers_one (reply_allowed g) (set (ks_infl k) \<union> set es) c"
    using x(1) by (auto simp: answers_one_def reply_allowed_def)
qed (auto simp: sim_uds_def ring_ok_fresh sim0_def reply_os_def sim_os_def)

section \<open>A deterministic kernel\<close>

text \<open>When every operation has one result, a blocking run is a function of the body.\<close>

primrec block_eval :: "(operation \<Rightarrow> int option \<Rightarrow> int) \<Rightarrow> co \<Rightarrow> event list \<times> outcome" where
  "block_eval ans (CoReturn v) = ([], Inr v)"
| "block_eval ans (CoThrow e) = ([], Inl e)"
| "block_eval ans (CoAct ev c) = (case block_eval ans c of (l, out) \<Rightarrow> (ev # l, out))"
| "block_eval ans (CoAwait op tmo k) = block_eval ans (k (ans op tmo))"
| "block_eval ans (CoAwaitTask ty c k) =
     (case block_eval ans c of (l, out) \<Rightarrow>
        case block_eval ans (k (coerce ty out)) of (l', out') \<Rightarrow> (l @ l', out'))"

lemma blocks_eval: "blocks (\<lambda>op tmo res. res = ans op tmo) c l out \<longleftrightarrow> block_eval ans c = (l, out)"
  by (induction c arbitrary: l out) (auto simp: blocks_simps split: prod.splits)

lemma reply_allowed_const: "reply_allowed (\<lambda>e. v) = (\<lambda>op tmo res. res = v)"
  by (simp add: reply_allowed_def fun_eq_iff)

definition echo_body :: co where
  "echo_body = CoAwaitTask (TDefault (VInt 0)) (CoAwait (Recv 4 64 16 0) None (\<lambda>n. CoReturn (VInt n)))
     (\<lambda>out. case out of Inr (VInt n) \<Rightarrow> CoAwait (Send 4 64 (word_of_int n) 0) (Some 500) (\<lambda>m. CoAct (''sent'', m) (CoReturn VVoid))
        | _ \<Rightarrow> CoReturn VVoid)"

section \<open>Properties\<close>

text \<open>
  C3: Concurrent tasks are blocking code. A program that creates a scheduler on a new ring, spawns
  fewer than 128 tasks and shuts down always returns normally, with every task run to its end and
  nothing undefined on the way. What it has done is an interleaving of one blocking run of each
  task's body, in which every operation has a result the kernel may give for it: whatever the order
  of completions, however deeply tasks await each other, with deadlines or without.
\<close>

theorem program_is_blocking:
  assumes "test_bed os infl delay sent allowed r k0" "length cs < 128"
  shows "\<exists>s' ps. spawn_and_shutdown os r k0 cs = Some (Inr s') \<and> tasks s' = [] \<and> ub_flag s' = None
    \<and> interleaves ps (log s') \<and> list_all2 (\<lambda>c p. \<exists>out. blocks allowed c p out) cs ps"
  using test_bed.program [OF assms] by metis

theorem program_is_blocking_witness:
  "\<exists>s' ps. spawn_and_shutdown prompt_os (fresh_ring 8) sim0 [recv_body, echo_body] = Some (Inr s')
    \<and> ps = [[(''got'', 5)], [(''sent'', 5)]] \<and> interleaves ps (log s')"
proof -
  obtain s' ps where s': "spawn_and_shutdown prompt_os (fresh_ring 8) sim0 [recv_body, echo_body] = Some (Inr s')"
    "interleaves ps (log s')" "list_all2 (\<lambda>c p. \<exists>out. blocks (reply_allowed (\<lambda>e. 5)) c p out) [recv_body, echo_body] ps"
    using program_is_blocking [OF reply.test_bed_axioms [of "\<lambda>e. 5"], of "[recv_body, echo_body]"] by auto
  then have "ps = [[(''got'', 5)], [(''sent'', 5)]]"
    by (auto simp: list_all2_Cons1 reply_allowed_const blocks_simps recv_body_def echo_body_def)
  then show ?thesis using s' by blast
qed

text \<open>
  C4: Suspension is invisible. On a kernel that gives every operation one result, running a single
  task through the scheduler, with all the suspensions, ring traffic and resumptions that takes, is
  the same as evaluating its body as a function: the effects are those of \<open>block_eval\<close>, in order.
\<close>

theorem single_task_is_evaluation:
  assumes "test_bed os infl delay sent (\<lambda>op tmo res. res = ans op tmo) r k0"
  shows "\<exists>s'. spawn_and_shutdown os r k0 [c] = Some (Inr s') \<and> log s' = fst (block_eval ans c)"
proof -
  obtain s' ps where s': "spawn_and_shutdown os r k0 [c] = Some (Inr s')" "interleaves ps (log s')"
    "list_all2 (\<lambda>c p. \<exists>out. blocks (\<lambda>op tmo res. res = ans op tmo) c p out) [c] ps"
    by (rule test_bed.program [OF assms, of "[c]"]) auto
  then obtain p out where "ps = [p]" "block_eval ans c = (p, out)" by (auto simp: list_all2_Cons1 blocks_eval)
  then show ?thesis using s'(1,2) interleaves_single by auto
qed

theorem single_task_is_evaluation_witness:
  "\<exists>s'. spawn_and_shutdown prompt_os (fresh_ring 8) sim0 [echo_body] = Some (Inr s') \<and> log s' = [(''sent'', 5)]"
proof -
  have "test_bed prompt_os sim_uds ks_count (\<lambda>k. set (ks_infl k)) (\<lambda>op tmo res. res = 5) (fresh_ring 8) sim0"
    using reply.test_bed_axioms [of "\<lambda>e. 5"] by (simp add: reply_allowed_const)
  from single_task_is_evaluation [OF this, of echo_body] show ?thesis by (simp add: echo_body_def)
qed

end
