(* ===== verification/Runtime.thy ===== *)
theory Runtime
  imports Shutdown
begin

text \<open>
  \<^verbatim>\<open>include/slim/common/io/runtime.h.in\<close> and \<^verbatim>\<open>src/runtime.cpp\<close>: a dispatcher scheduler that hands
  posted jobs to worker schedulers in turn, and the life cycle of their threads. The dispatcher's
  callables act on the workers, which are therefore part of the world its operating system state
  stands for. A thread is running or not; what it still does before it sees a stop request is an
  argument (a number of rounds), so every schedule of the rounds is covered.
\<close>

section \<open>State\<close>

datatype rt_state = Idle | Running | Stopped

text \<open>A job is given the index of the worker it runs on.\<close>

type_synonym 'j wjob = "'j \<times> nat"

record ('j, 'k) world =
  wd_kernel :: 'k
  next_worker :: u64
  workers :: "('j wjob, 'k) sched list"

record ('j, 'k) runtime =
  dispatcher :: "('j, ('j, 'k) world) sched"
  dispatcher_runner :: bool
  worker_runners :: "bool list"
  rt_st :: rt_state

text \<open>The operating system as the dispatcher sees it.\<close>

definition disp_os :: "'k os \<Rightarrow> ('j, 'k) world os" where
  "disp_os os =
     \<lparr>os_eventfd = (\<lambda>w. case os_eventfd os (wd_kernel w) of (fd, k) \<Rightarrow> (fd, w\<lparr>wd_kernel := k\<rparr>)),
      os_write = (\<lambda>fd w. case os_write os fd (wd_kernel w) of (ok, k) \<Rightarrow> (ok, w\<lparr>wd_kernel := k\<rparr>)),
      os_close = (\<lambda>fd w. w\<lparr>wd_kernel := os_close os fd (wd_kernel w)\<rparr>),
      os_enter = (\<lambda>es mc room w. case os_enter os es mc room (wd_kernel w) of (resp, k) \<Rightarrow> (resp, w\<lparr>wd_kernel := k\<rparr>)),
      os_can_grow = (\<lambda>n w. os_can_grow os n (wd_kernel w))\<rparr>"

lemma disp_enter:
  assumes "os_enter (disp_os os) es mc room w = (resp, w')"
  obtains k' where "os_enter os es mc room (wd_kernel w) = (resp, k')" "w' = w\<lparr>wd_kernel := k'\<rparr>"
  using assms by (auto simp: disp_os_def split: prod.splits)

lemma disp_kernel:
  assumes "uring_kernel os infl"
  shows "uring_kernel (disp_os os) (\<lambda>w. infl (wd_kernel w))"
proof
  fix es mc room resp and w w' :: "('b, 'a) world" assume e: "os_enter (disp_os os) es mc room w = (resp, w')"
  obtain k' where k: "os_enter os es mc room (wd_kernel w) = (resp, k')" "w' = w\<lparr>wd_kernel := k'\<rparr>" using disp_enter [OF e] .
  show "er_taken resp \<le> length es" "length (er_cqes resp) \<le> room"
    "mset (map cqe_user_data (er_cqes resp)) + infl (wd_kernel w')
      = infl (wd_kernel w) + mset (map sqe_user_data (take (er_taken resp) es))"
    using uring_kernel.enter_taken [OF assms k(1)] uring_kernel.enter_room [OF assms k(1)]
      uring_kernel.enter_conserves [OF assms k(1)] k(2) by simp_all
qed (use uring_kernel.write_keeps [OF assms] uring_kernel.eventfd_keeps [OF assms] in \<open>auto simp: disp_os_def split: prod.splits\<close>)

lemma disp_progressing:
  assumes "progressing_kernel os infl delay"
  shows "progressing_kernel (disp_os os) (\<lambda>w. infl (wd_kernel w)) (\<lambda>w. delay (wd_kernel w))"
proof (intro progressing_kernel.intro disp_kernel progressing_kernel_axioms.intro)
  show "uring_kernel os infl" using assms by (rule progressing_kernel.axioms(1))
next
  fix es mc room resp and w w' :: "('b, 'a) world" assume e: "os_enter (disp_os os) es mc room w = (resp, w')"
  obtain k' where k: "os_enter os es mc room (wd_kernel w) = (resp, k')" "w' = w\<lparr>wd_kernel := k'\<rparr>" using disp_enter [OF e] .
  show "er_taken resp = length es" using progressing_kernel.enter_all [OF assms k(1)] .
  show "(\<exists>c \<in> set (er_cqes resp). is_aw (cqe_user_data c)) \<or> delay (wd_kernel w') < delay (wd_kernel w)"
    if "0 < room" "\<exists>p \<in># infl (wd_kernel w) + mset (map sqe_user_data es). is_aw p"
    using progressing_kernel.enter_progress [OF assms k(1)] that k(2) by simp
qed

section \<open>Construction\<close>

text \<open>Each worker has a ring and a scheduler of its own.\<close>

fun make_workers :: "'k os \<Rightarrow> (ring \<times> 'k) list \<Rightarrow> error_status + ('j wjob, 'k) sched list" where
  "make_workers os [] = Inr []"
| "make_workers os ((r, k) # rest) =
     (case Scheduler_ctor os r k of
        Inl e \<Rightarrow> Inl e
      | Inr s \<Rightarrow> (case make_workers os rest of Inl e \<Rightarrow> Inl e | Inr ws \<Rightarrow> Inr (s # ws)))"

definition Runtime_ctor :: "'k os \<Rightarrow> ring \<Rightarrow> 'k \<Rightarrow> (ring \<times> 'k) list \<Rightarrow> error_status + ('j, 'k) runtime" where
  "Runtime_ctor os r k rings =
     (case Scheduler_ctor (disp_os os) r \<lparr>wd_kernel = k, next_worker = 0, workers = []\<rparr> of
        Inl e \<Rightarrow> Inl e
      | Inr d \<Rightarrow> (case make_workers os rings of
          Inl e \<Rightarrow> Inl e
        | Inr ws \<Rightarrow> Inr \<lparr>dispatcher = d\<lparr>kst := (kst d)\<lparr>workers := ws\<rparr>\<rparr>, dispatcher_runner = False,
            worker_runners = replicate (length ws) False, rt_st = Idle\<rparr>))"

section \<open>Posting\<close>

text \<open>The callable \<open>Runtime::post\<close> gives to the dispatcher, run on the dispatcher's thread.\<close>

definition dispatch :: "'k os \<Rightarrow> ('j, ('j, 'k) world) invoke" where
  "dispatch os job s =
     (let w = kst s; n = length (workers w)
      in if n = 0 then (None, set_ub DivByZero s)
         else let idx = unat (next_worker w) mod n;
                  (e, worker) = post os (job, idx) (workers w ! idx)
              in (e, s\<lparr>kst := w\<lparr>next_worker := next_worker w + 1, workers := (workers w)[idx := worker]\<rparr>\<rparr>))"

definition Runtime_post :: "'k os \<Rightarrow> 'j \<Rightarrow> ('j, 'k) runtime \<Rightarrow> exn option \<times> ('j, 'k) runtime" where
  "Runtime_post os job rt = (case post (disp_os os) job (dispatcher rt) of (e, d) \<Rightarrow> (e, rt\<lparr>dispatcher := d\<rparr>))"

section \<open>Life cycle\<close>

definition Runtime_start :: "('j, 'k) runtime \<Rightarrow> exn option \<times> ('j, 'k) runtime" where
  "Runtime_start rt =
     (if rt_st rt \<noteq> Idle \<and> rt_st rt \<noteq> Stopped then (Some (IOExc RuntimeNotIdle), rt)
      else (None, rt\<lparr>worker_runners := map (\<lambda>_. True) (worker_runners rt), dispatcher_runner := True, rt_st := Running\<rparr>))"

text \<open>
  \<open>request_stop\<close> on a running thread calls the stop callback of \<open>Scheduler::run\<close>, which writes to the
  eventfd; \<open>join\<close> waits for \<open>run\<close> to return.
\<close>

definition request_stop :: "'k os \<Rightarrow> bool \<Rightarrow> ('j, 'k) sched \<Rightarrow> ('j, 'k) sched" where
  "request_stop os running s = (if running then snd (poke_eventfd os s) else s)"

definition join :: "'k os \<Rightarrow> ('j, 'k) invoke \<Rightarrow> nat \<Rightarrow> bool \<Rightarrow> ('j, 'k) sched \<Rightarrow> (exn option \<times> ('j, 'k) sched) option" where
  "join os invoke rounds running s =
     (if running then Scheduler_run os invoke (replicate rounds False @ [True]) s else Some (None, s))"

text \<open>\<open>WorkerNode::stop_and_join\<close>; an exception that leaves \<open>run\<close> ends the program.\<close>

definition stop_and_join :: "'k os \<Rightarrow> ('j, 'k) invoke \<Rightarrow> nat \<Rightarrow> bool \<Rightarrow> ('j, 'k) sched \<Rightarrow> (exn option \<times> ('j, 'k) sched) option" where
  "stop_and_join os invoke rounds running s =
     (case join os invoke rounds running (request_stop os running s) of
        None \<Rightarrow> None
      | Some (Some e, s') \<Rightarrow> Some (Some e, s')
      | Some (None, s') \<Rightarrow> shutdown os invoke s')"

fun stop_workers :: "'k os \<Rightarrow> ('j, 'k) invoke \<Rightarrow> nat list \<Rightarrow> bool list \<Rightarrow> ('j, 'k) sched list
    \<Rightarrow> (exn option \<times> ('j, 'k) sched list) option" where
  "stop_workers os invoke (n # ns) (b # bs) (w # ws) =
     (case stop_and_join os invoke n b w of
        None \<Rightarrow> None
      | Some (Some e, w') \<Rightarrow> Some (Some e, w' # ws)
      | Some (None, w') \<Rightarrow>
          (case stop_workers os invoke ns bs ws of None \<Rightarrow> None | Some (e, ws') \<Rightarrow> Some (e, w' # ws')))"
| "stop_workers os invoke _ _ ws = Some (None, ws)"

definition Runtime_stop :: "'k os \<Rightarrow> ('j wjob, 'k) invoke \<Rightarrow> nat \<Rightarrow> nat list \<Rightarrow> ('j, 'k) runtime
    \<Rightarrow> (exn option \<times> ('j, 'k) runtime) option" where
  "Runtime_stop os invoke rounds wrounds rt =
     (if rt_st rt \<noteq> Running then Some (None, rt)
      else case join (disp_os os) (dispatch os) rounds (dispatcher_runner rt)
             (request_stop (disp_os os) (dispatcher_runner rt) (dispatcher rt)) of
        None \<Rightarrow> None
      | Some (Some e, d) \<Rightarrow> Some (Some e, rt\<lparr>dispatcher := d\<rparr>)
      | Some (None, d) \<Rightarrow>
          (case shutdown (disp_os os) (dispatch os) d of
             None \<Rightarrow> None
           | Some (Some e, d') \<Rightarrow> Some (Some e, rt\<lparr>dispatcher := d'\<rparr>)
           | Some (None, d') \<Rightarrow>
               (case stop_workers os invoke wrounds (worker_runners rt) (workers (kst d')) of
                  None \<Rightarrow> None
                | Some (e, ws) \<Rightarrow>
                    let rt' = rt\<lparr>dispatcher := d'\<lparr>kst := (kst d')\<lparr>workers := ws\<rparr>\<rparr>, dispatcher_runner := False\<rparr>
                    in (case e of
                          Some x \<Rightarrow> Some (Some x, rt')
                        | None \<Rightarrow> Some (None, rt'\<lparr>worker_runners := map (\<lambda>_. False) (worker_runners rt), rt_st := Stopped\<rparr>)))))"

definition Runtime_dtor :: "'k os \<Rightarrow> ('j wjob, 'k) invoke \<Rightarrow> nat \<Rightarrow> nat list \<Rightarrow> ('j, 'k) runtime
    \<Rightarrow> (exn option \<times> ('j, 'k) runtime) option" where
  "Runtime_dtor os invoke rounds wrounds rt =
     (if rt_st rt = Running then Runtime_stop os invoke rounds wrounds rt else Some (None, rt))"

text \<open>One round of a running thread.\<close>

definition thread_round :: "'k os \<Rightarrow> ('j, 'k) invoke \<Rightarrow> ('j, 'k) sched \<Rightarrow> exn option \<times> ('j, 'k) sched" where
  "thread_round os invoke s = (case drain os invoke s of (Some e, s') \<Rightarrow> (Some e, s') | (None, s') \<Rightarrow> (None, reap s'))"

section \<open>Round robin\<close>

text \<open>The jobs of \<open>js\<close> that go to worker \<open>i\<close> of \<open>n\<close> when the counter stands at \<open>c\<close>.\<close>

fun share :: "u64 \<Rightarrow> nat \<Rightarrow> nat \<Rightarrow> 'j list \<Rightarrow> 'j wjob list" where
  "share c n i [] = []"
| "share c n i (j # js) = (if unat c mod n = i then [(j, i)] else []) @ share (c + 1) n i js"

lemma inbox_post: "inbox (snd (post os j s)) = inbox s @ [j]"
  by (auto simp: post_def poke_eventfd_def split: prod.split)

lemma post_no_user_exn: "fst (post os j s) = None \<or> fst (post os j s) = Some (IOExc EventFdWriteFailed)"
  by (simp add: post_def split: prod.split)

lemma dispatch_effect:
  assumes "0 < length (workers (kst s))" "dispatch os j s = (e, s')"
  shows "e = None \<or> e = Some (IOExc EventFdWriteFailed)" "inbox s' = inbox s" "ub_flag s' = ub_flag s"
    "next_worker (kst s') = next_worker (kst s) + 1" "length (workers (kst s')) = length (workers (kst s))"
    "\<And>i. i < length (workers (kst s)) \<Longrightarrow> inbox (workers (kst s') ! i) =
      inbox (workers (kst s) ! i) @ share (next_worker (kst s)) (length (workers (kst s))) i [j]"
proof -
  let ?w = "kst s" and ?n = "length (workers (kst s))" and ?i = "unat (next_worker (kst s)) mod length (workers (kst s))"
  have lt: "?i < ?n" using assms(1) by simp
  have e: "e = fst (post os (j, ?i) (workers ?w ! ?i))"
    and s': "s' = s\<lparr>kst := ?w\<lparr>next_worker := next_worker ?w + 1, workers := (workers ?w)[?i := snd (post os (j, ?i) (workers ?w ! ?i))]\<rparr>\<rparr>"
    using assms by (auto simp: dispatch_def Let_def split: prod.splits)
  show "e = None \<or> e = Some (IOExc EventFdWriteFailed)" unfolding e by (rule post_no_user_exn)
  show "inbox s' = inbox s" "ub_flag s' = ub_flag s" "next_worker (kst s') = next_worker (kst s) + 1"
    "length (workers (kst s')) = ?n" by (simp_all add: s')
  show "inbox (workers (kst s') ! i) = inbox (workers ?w ! i) @ share (next_worker ?w) ?n i [j]" if "i < ?n" for i
    using lt that by (simp add: s' nth_list_update inbox_post)
qed

lemma share_Cons: "share c n i (j # js) = share c n i [j] @ share (c + 1) n i js"
  by simp

lemma drain_local_dispatch:
  assumes "0 < length (workers (kst s))" "drain_local (disp_os os) (dispatch os) js s = (e, s')"
  shows "e = None \<and> inbox s' = inbox s \<and> ub_flag s' = ub_flag s
    \<and> next_worker (kst s') = next_worker (kst s) + word_of_nat (length js)
    \<and> length (workers (kst s')) = length (workers (kst s))
    \<and> (\<forall>i < length (workers (kst s)). inbox (workers (kst s') ! i) =
        inbox (workers (kst s) ! i) @ share (next_worker (kst s)) (length (workers (kst s))) i js)"
  using assms
proof (induction js arbitrary: s)
  case (Cons j js)
  obtain e1 s1 where d: "dispatch os j s = (e1, s1)" by fastforce
  note f = dispatch_effect [OF Cons.prems(1) d]
  have "drain_local (disp_os os) (dispatch os) js s1 = (e, s')" using Cons.prems(2) d f(1) by auto
  moreover have "0 < length (workers (kst s1))" using f(5) Cons.prems(1) by simp
  ultimately show ?case using Cons.IH [of s1] f by (auto simp: share_Cons [of _ _ _ j js] algebra_simps simp del: share.simps(2))
qed simp

text \<open>How many jobs a share has, as long as the counter does not wrap.\<close>

lemma div_Suc_mod: "0 < n \<Longrightarrow> Suc x div n = x div n + (if Suc x mod n = 0 then 1 else 0)" for n x :: nat
  by (simp add: div_Suc)

lemma shifted_mod:
  assumes "i < n"
  shows "Suc (c + (n - 1 - i)) mod n = 0 \<longleftrightarrow> c mod n = i"
proof -
  have e: "Suc (c + (n - 1 - i)) = c + (n - i)" using assms by simp
  have "(c + (n - i)) mod n = (c mod n + (n - i)) mod n" by (simp add: mod_add_left_eq)
  moreover have "(c mod n + (n - i)) mod n = 0 \<longleftrightarrow> c mod n = i"
  proof -
    have "c mod n < n" using assms by simp
    then consider "c mod n < i" | "c mod n = i" | "i < c mod n" by linarith
    then show ?thesis
    proof cases
      case 1
      then have "c mod n + (n - i) < n" "0 < c mod n + (n - i)" using assms by auto
      then show ?thesis using 1 assms by simp
    next
      case 2
      then show ?thesis using assms by simp
    next
      case 3
      have "c mod n < n" using assms by simp
      then have e: "c mod n + (n - i) = n + (c mod n - i)" and d: "0 < c mod n - i" "c mod n - i < n" using 3 by auto
      have "(c mod n + (n - i)) mod n = c mod n - i" unfolding e using d(2) by (simp only: mod_add_self1 mod_less)
      then show ?thesis using 3 d(1) by simp
    qed
  qed
  ultimately show ?thesis unfolding e by simp
qed

lemma length_share:
  assumes i: "i < n" and nowrap: "unat c + length js \<le> 2 ^ 64 - 1"
  shows "length (share c n i js) + (unat c + (n - 1 - i)) div n = (unat c + length js + (n - 1 - i)) div n"
  using nowrap
proof (induction js arbitrary: c)
  case (Cons j js)
  have u: "unat (c + 1) = Suc (unat c)"
    using Cons.prems by (simp add: unat_word_ariths)
  have n: "0 < n" using i by simp
  have IH: "length (share (c + 1) n i js) + Suc (unat c + (n - 1 - i)) div n = (unat c + length (j # js) + (n - 1 - i)) div n"
    using Cons.IH [of "c + 1"] Cons.prems u by simp
  have "Suc (unat c + (n - 1 - i)) div n = (unat c + (n - 1 - i)) div n + (if unat c mod n = i then 1 else 0)"
    using div_Suc_mod [OF n] shifted_mod [OF i] by simp
  then show ?case using IH by (simp split: if_splits)
qed simp

lemma div_add_between: "0 < n \<Longrightarrow> (a + l) div n = a div n + l div n \<or> (a + l) div n = a div n + l div n + 1" for n a l :: nat
proof -
  assume n: "0 < n"
  have e: "(a + l) div n = a div n + l div n + (a mod n + l mod n) div n" by (rule div_add1_eq)
  have "a mod n < n" "l mod n < n" using n by simp_all
  then have "a mod n + l mod n < 2 * n" by linarith
  then have "(a mod n + l mod n) div n < 2" using n by (simp add: div_less_iff_less_mult mult.commute)
  then show ?thesis using e by linarith
qed

section \<open>Stopping\<close>

context progressing_kernel
begin

lemma idle_ok_poke: "idle_ok s \<Longrightarrow> idle_ok (snd (poke_eventfd os s))"
  using keeps_safe_safe [OF poke_keeps, of s]
  by (auto simp: idle_ok_def) (auto simp: poke_eventfd_def split: prod.splits)

lemma stop_and_join_ends:
  assumes "idle_ok s"
  shows "\<exists>s'. stop_and_join os invoke n running s = Some (None, s') \<and> tasks s' = [] \<and> idle_ok s'"
proof -
  let ?s = "request_stop os running s"
  have "idle_ok ?s" using assms idle_ok_poke [OF assms] by (simp add: request_stop_def)
  then obtain s1 where "join os invoke n running ?s = Some (None, s1)" "idle_ok s1"
    using run_ends [of ?s invoke n] by (cases running) (auto simp: join_def)
  then show ?thesis using shutdown_ends [of s1 invoke] by (auto simp: stop_and_join_def)
qed

lemma stop_workers_ends:
  assumes "length ns = length ws" "length bs = length ws" "\<forall>w \<in> set ws. idle_ok w"
  shows "\<exists>ws'. stop_workers os invoke ns bs ws = Some (None, ws') \<and> length ws' = length ws
    \<and> (\<forall>w \<in> set ws'. tasks w = [] \<and> idle_ok w)"
  using assms
proof (induction ws arbitrary: ns bs)
  case (Cons w ws)
  then obtain n ns' b bs' where l: "ns = n # ns'" "bs = b # bs'" "length ns' = length ws" "length bs' = length ws"
    by (metis length_Suc_conv)
  obtain w' where w': "stop_and_join os invoke n b w = Some (None, w')" "tasks w' = []" "idle_ok w'"
    using stop_and_join_ends [of w invoke n b] Cons.prems(3) by auto
  obtain ws' where "stop_workers os invoke ns' bs' ws = Some (None, ws')" "length ws' = length ws"
    "\<forall>w \<in> set ws'. tasks w = [] \<and> idle_ok w" using Cons.IH [OF l(3,4)] Cons.prems(3) by auto
  then show ?case using w' l by simp
qed simp

end

lemma kreach_disp: "kreach (disp_os os) w w' \<Longrightarrow> workers w' = workers w \<and> next_worker w' = next_worker w"
proof (induction rule: kreach.induct)
  case (enter w w1 es mc room resp w2)
  obtain k where "w2 = w1\<lparr>wd_kernel := k\<rparr>" using disp_enter [OF enter(2)] by metis
  then show ?case using enter(3) by simp
qed simp

section \<open>A runtime to run\<close>

text \<open>One worker, with a task suspended on a \<open>Recv\<close>.\<close>

definition prompt_worker :: "(nat wjob, sim) sched" where
  "prompt_worker = snd (spawn_call prompt_os recv_body (projr (Scheduler_ctor prompt_os (fresh_ring 2) sim0)))"

definition prompt_dispatcher :: "(nat wjob, sim) sched list \<Rightarrow> (nat, (nat, sim) world) sched" where
  "prompt_dispatcher ws = projr (Scheduler_ctor (disp_os prompt_os) (fresh_ring 2) \<lparr>wd_kernel = sim0, next_worker = 0, workers = ws\<rparr>)"

definition prompt_runtime :: "(nat, sim) runtime" where
  "prompt_runtime = \<lparr>dispatcher = prompt_dispatcher [prompt_worker], dispatcher_runner = True, worker_runners = [True],
     rt_st = Running\<rparr>"

lemma prompt_worker_ok: "safe sim_uds prompt_worker \<and> inbox prompt_worker = []
    \<and> (eventfd_armed prompt_worker \<or> has_capacity (ring prompt_worker) 1)
    \<and> 2 * length (tasks prompt_worker) < unat (sq_entries (ring prompt_worker))"
proof -
  let ?s = "projr (Scheduler_ctor prompt_os (fresh_ring 2) sim0) :: (nat wjob, sim) sched"
  have c: "Scheduler_ctor prompt_os (fresh_ring 2) sim0 = Inr ?s"
    by (simp add: Scheduler_ctor_def reply_os_def sim_os_def)
  have safe: "safe sim_uds ?s" using reply.ctor_safe [OF c] ring_ok_fresh [of 2] by simp
  have "fst (spawn_call prompt_os recv_body ?s) = None" by code_simp
  then have "reach prompt_os no_jobs ?s True prompt_worker" unfolding prompt_worker_def by (rule spawned_reach)
  then have "safe sim_uds prompt_worker" using reply.reach_safe [OF no_jobs_ok] safe by blast
  moreover have "inbox prompt_worker = []" "has_capacity (ring prompt_worker) 1"
    "2 * length (tasks prompt_worker) < unat (sq_entries (ring prompt_worker))" by code_simp+
  ultimately show ?thesis by blast
qed

lemma prompt_dispatcher_fields [simp]:
  "inbox (prompt_dispatcher ws) = []" "tasks (prompt_dispatcher ws) = []" "ring (prompt_dispatcher ws) = fresh_ring 2"
  "workers (kst (prompt_dispatcher ws)) = ws" "next_worker (kst (prompt_dispatcher ws)) = 0" "ub_flag (prompt_dispatcher ws) = None"
  by (simp_all add: prompt_dispatcher_def Scheduler_ctor_def disp_os_def reply_os_def sim_os_def)

lemma prompt_dispatcher_safe: "safe (\<lambda>w. sim_uds (wd_kernel w)) (prompt_dispatcher ws)"
proof -
  have c: "Scheduler_ctor (disp_os prompt_os) (fresh_ring 2) \<lparr>wd_kernel = sim0, next_worker = 0, workers = ws\<rparr> = Inr (prompt_dispatcher ws)"
    by (simp add: prompt_dispatcher_def Scheduler_ctor_def disp_os_def reply_os_def sim_os_def)
  show ?thesis
    using uring_kernel.ctor_safe [OF disp_kernel [OF reply.uring_kernel_axioms] c] ring_ok_fresh [of 2] by simp
qed

lemma all_less_two: "(\<forall>i < Suc (Suc 0). P i) \<longleftrightarrow> P 0 \<and> P 1"
  by (auto simp: less_Suc_eq)

section \<open>Properties\<close>

text \<open>
  C27: Round robin. When the dispatcher empties its inbox, the posted jobs go to the workers in turn,
  continuing where the counter stands: worker \<open>i\<close> receives, in order and with its own index, the jobs
  whose position in the sequence is \<open>i\<close> modulo the number of workers. Each job goes to one worker, none
  is lost, even if a wake-up write fails; the dispatcher's inbox is empty afterwards.
\<close>

theorem dispatch_round_robin:
  assumes "0 < length (workers (kst d))" "drain_inbox (disp_os os) (dispatch os) d = (e, d')"
  shows "e = None \<and> inbox d' = [] \<and> ub_flag d' = ub_flag d
    \<and> next_worker (kst d') = next_worker (kst d) + word_of_nat (length (inbox d))
    \<and> (\<forall>i < length (workers (kst d)). inbox (workers (kst d') ! i) =
        inbox (workers (kst d) ! i) @ share (next_worker (kst d)) (length (workers (kst d))) i (inbox d))"
  using drain_local_dispatch [of "d\<lparr>inbox := []\<rparr>" os "inbox d" e d'] assms by (simp add: drain_inbox_def)

theorem dispatch_round_robin_witness:
  "let d = (prompt_dispatcher [prompt_worker, prompt_worker])\<lparr>inbox := [7, 8, 9]\<rparr>;
       d' = snd (drain_inbox (disp_os prompt_os) (dispatch prompt_os) d)
   in inbox (workers (kst d') ! 0) = [(7, 0), (9, 0)] \<and> inbox (workers (kst d') ! 1) = [(8, 1)]"
proof -
  let ?d = "(prompt_dispatcher [prompt_worker, prompt_worker])\<lparr>inbox := [7, 8, 9]\<rparr>"
  have m: "(2::nat) mod Suc (Suc 0) = 0" by (simp add: numeral_2_eq_2)
  have "0 < length (workers (kst ?d))" by simp
  from dispatch_round_robin [OF this prod.collapse [symmetric], of prompt_os] prompt_worker_ok
  show ?thesis by (auto simp: Let_def all_less_two unat_word_ariths m)
qed

text \<open>
  The load is balanced: of any \<open>l\<close> jobs dispatched in a row, every one of \<open>n\<close> workers gets \<open>l div n\<close>
  or one more, as long as the 64-bit counter does not wrap.
\<close>

theorem round_robin_balanced:
  assumes "i < n" "unat c + length js \<le> 2 ^ 64 - 1"
  shows "length (share c n i js) = length js div n \<or> length (share c n i js) = length js div n + 1"
  using length_share [OF assms] div_add_between [of n "unat c + (n - 1 - i)" "length js"] assms(1)
  by (auto simp: algebra_simps)

theorem round_robin_balanced_witness:
  "length (share 1 3 1 [''a'', ''b'', ''c'', ''d'']) = 2 \<and> length (share 1 3 0 [''a'', ''b'', ''c'', ''d'']) = 1"
  using round_robin_balanced [of 1 3 1 "[''a'', ''b'', ''c'', ''d'']"]
    round_robin_balanced [of 0 3 1 "[''a'', ''b'', ''c'', ''d'']"] by (simp add: unat_word_ariths)

text \<open>
  A runtime with no workers cannot dispatch: the first posted job divides by zero on the
  dispatcher's thread.
\<close>

theorem dispatch_without_workers:
  assumes "workers (kst d) = []" "inbox d = [j]" "ub_flag d = None"
  shows "ub_flag (snd (drain_inbox (disp_os os) (dispatch os) d)) = Some DivByZero"
  using assms by (simp add: drain_inbox_def dispatch_def set_ub_def Let_def)

theorem dispatch_without_workers_witness:
  "ub_flag (snd (drain_inbox (disp_os prompt_os) (dispatch prompt_os) ((prompt_dispatcher [])\<lparr>inbox := [7]\<rparr>))) = Some DivByZero"
  by (rule dispatch_without_workers [of _ 7]) simp_all

lemma poke_fields:
  "tasks (snd (poke_eventfd os s)) = tasks s" "inbox (snd (poke_eventfd os s)) = inbox s" "log (snd (poke_eventfd os s)) = log s"
  by (simp_all add: poke_eventfd_def split: prod.split)

lemma shutdown_idle: "tasks s = [] \<Longrightarrow> shutdown os invoke s = Some (None, s\<lparr>shutting_down := True\<rparr>)"
  unfolding shutdown_def by (subst shutdown_loop.simps) simp

lemma stop_and_join_idle:
  assumes "tasks s = []"
  obtains s' where "stop_and_join os invoke 0 b s = Some (None, s')" "inbox s' = inbox s" "log s' = log s"
proof -
  have "stop_and_join os invoke 0 b s = Some (None, (request_stop os b s)\<lparr>shutting_down := True\<rparr>)"
    using assms by (simp add: stop_and_join_def join_def request_stop_def shutdown_idle poke_fields)
  then show thesis using that by (simp add: request_stop_def poke_fields)
qed

lemma stop_workers_idle:
  "\<forall>w \<in> set ws. tasks w = [] \<Longrightarrow> length bs = length ws \<Longrightarrow>
   \<exists>ws'. stop_workers os invoke (replicate (length ws) 0) bs ws = Some (None, ws') \<and> map inbox ws' = map inbox ws \<and> map log ws' = map log ws"
proof (induction ws arbitrary: bs)
  case (Cons w ws)
  obtain b bs' where b: "bs = b # bs'" using Cons.prems(2) by (cases bs) auto
  obtain w' where "stop_and_join os invoke 0 b w = Some (None, w')" "inbox w' = inbox w" "log w' = log w"
    by (rule stop_and_join_idle [of w os invoke b]) (use Cons.prems(1) in simp_all)
  moreover obtain ws' where "stop_workers os invoke (replicate (length ws) 0) bs' ws = Some (None, ws')"
    "map inbox ws' = map inbox ws" "map log ws' = map log ws"
    using Cons.IH [of bs'] Cons.prems b by auto
  ultimately show ?case using b by simp
qed simp

text \<open>
  C26: \<open>stop\<close> does not wait for posted work. When the threads see the stop request at once and no task is
  running, \<open>stop\<close> returns normally and every job still in the dispatcher's inbox or in a worker's is
  left there: no worker has done anything for it.
\<close>

theorem stop_drops_posted_jobs:
  assumes "rt_st rt = Running" "tasks (dispatcher rt) = []" "\<forall>w \<in> set (workers (kst (dispatcher rt))). tasks w = []"
    and "length (worker_runners rt) = length (workers (kst (dispatcher rt)))"
  shows "\<exists>rt'. Runtime_stop os invoke 0 (replicate (length (worker_runners rt)) 0) rt = Some (None, rt') \<and> rt_st rt' = Stopped
    \<and> inbox (dispatcher rt') = inbox (dispatcher rt)
    \<and> map inbox (workers (kst (dispatcher rt'))) = map inbox (workers (kst (dispatcher rt)))
    \<and> map log (workers (kst (dispatcher rt'))) = map log (workers (kst (dispatcher rt)))"
proof -
  let ?d = "request_stop (disp_os os) (dispatcher_runner rt) (dispatcher rt)"
  have d: "tasks ?d = []" "inbox ?d = inbox (dispatcher rt)" "workers (kst ?d) = workers (kst (dispatcher rt))"
    using assms(2) by (simp_all add: request_stop_def poke_fields) (simp add: poke_eventfd_def disp_os_def split: prod.split)
  have j: "join (disp_os os) (dispatch os) 0 (dispatcher_runner rt) ?d = Some (None, ?d)" by (simp add: join_def)
  have s: "shutdown (disp_os os) (dispatch os) ?d = Some (None, ?d\<lparr>shutting_down := True\<rparr>)"
    using d(1) by (rule shutdown_idle)
  obtain ws' where "stop_workers os invoke (replicate (length (worker_runners rt)) 0) (worker_runners rt) (workers (kst (dispatcher rt))) = Some (None, ws')"
    "map inbox ws' = map inbox (workers (kst (dispatcher rt)))" "map log ws' = map log (workers (kst (dispatcher rt)))"
    using stop_workers_idle [OF assms(3,4), of os invoke] assms(4) by auto
  then show ?thesis using assms(1) d j s by (simp add: Runtime_stop_def)
qed

definition idle_runtime :: "(nat, sim) runtime" where
  "idle_runtime = \<lparr>dispatcher = prompt_dispatcher [projr (Scheduler_ctor prompt_os (fresh_ring 2) sim0)], dispatcher_runner = True,
     worker_runners = [True], rt_st = Running\<rparr>"

theorem stop_drops_posted_jobs_witness:
  "\<exists>rt'. Runtime_stop prompt_os no_jobs 0 [0] (snd (Runtime_post prompt_os 7 idle_runtime)) = Some (None, rt')
     \<and> rt_st rt' = Stopped \<and> inbox (dispatcher rt') = [7]"
proof -
  let ?rt = "snd (Runtime_post prompt_os 7 idle_runtime)"
  have w: "worker_runners ?rt = [True]" "rt_st ?rt = Running" by code_simp+
  have d: "tasks (dispatcher ?rt) = []" "inbox (dispatcher ?rt) = [7]" "map tasks (workers (kst (dispatcher ?rt))) = [[]]" by code_simp+
  have "\<forall>w \<in> set (workers (kst (dispatcher ?rt))). tasks w = []" "length (worker_runners ?rt) = length (workers (kst (dispatcher ?rt)))"
    using d(3) w(1) by auto
  from stop_drops_posted_jobs [OF w(2) d(1) this, of prompt_os no_jobs] show ?thesis using w(1) d(2) by auto
qed

text \<open>
  The life cycle. \<open>start\<close> throws \<open>RuntimeNotIdle\<close> exactly when the runtime is running, and then
  changes nothing; otherwise every thread runs. \<open>stop\<close> on a runtime that is not running returns at
  once and changes nothing, so it may be called again; so does the destructor.
\<close>

theorem start_stop_guards:
  "(fst (Runtime_start rt) = Some (IOExc RuntimeNotIdle) \<longleftrightarrow> rt_st rt = Running)
   \<and> (rt_st rt = Running \<longrightarrow> snd (Runtime_start rt) = rt)
   \<and> (rt_st rt \<noteq> Running \<longrightarrow> fst (Runtime_start rt) = None \<and> rt_st (snd (Runtime_start rt)) = Running
        \<and> dispatcher_runner (snd (Runtime_start rt)) \<and> set (worker_runners (snd (Runtime_start rt))) \<subseteq> {True}
        \<and> dispatcher (snd (Runtime_start rt)) = dispatcher rt
        \<and> Runtime_stop os invoke n ns rt = Some (None, rt) \<and> Runtime_dtor os invoke n ns rt = Some (None, rt))"
  by (cases "rt_st rt") (auto simp: Runtime_start_def Runtime_stop_def Runtime_dtor_def)

theorem start_stop_guards_witness:
  "fst (Runtime_start prompt_runtime) = Some (IOExc RuntimeNotIdle) \<and> snd (Runtime_start prompt_runtime) = prompt_runtime
   \<and> Runtime_stop prompt_os no_jobs 0 [] (prompt_runtime\<lparr>rt_st := Stopped\<rparr>) = Some (None, prompt_runtime\<lparr>rt_st := Stopped\<rparr>)"
  using start_stop_guards [of prompt_runtime prompt_os no_jobs 0 "[]"]
    start_stop_guards [of "prompt_runtime\<lparr>rt_st := Stopped\<rparr>" prompt_os no_jobs 0 "[]"]
  by (simp add: prompt_runtime_def)

text \<open>
  C25: \<open>stop\<close> ends in the state \<open>Stopped\<close>. For a running runtime whose schedulers are safe, have
  nothing in their inboxes and room in their rings, with a kernel that keeps completing operations,
  whatever number of rounds each thread still makes before it sees the request: every thread is
  joined, every task of every worker has run to its end, and a second \<open>stop\<close> does nothing.
\<close>

theorem stop_completes:
  assumes k: "progressing_kernel os infl delay" and run: "rt_st rt = Running"
    and d: "safe (\<lambda>w. infl (wd_kernel w)) (dispatcher rt)" "inbox (dispatcher rt) = []"
      "eventfd_armed (dispatcher rt) \<or> has_capacity (ring (dispatcher rt)) 1"
      "2 * length (tasks (dispatcher rt)) < unat (sq_entries (ring (dispatcher rt)))"
    and w: "\<forall>w \<in> set (workers (kst (dispatcher rt))). safe infl w \<and> inbox w = []
      \<and> (eventfd_armed w \<or> has_capacity (ring w) 1) \<and> 2 * length (tasks w) < unat (sq_entries (ring w))"
    and l: "length wrounds = length (workers (kst (dispatcher rt)))" "length (worker_runners rt) = length (workers (kst (dispatcher rt)))"
  shows "\<exists>rt'. Runtime_stop os invoke rounds wrounds rt = Some (None, rt') \<and> rt_st rt' = Stopped
    \<and> \<not> dispatcher_runner rt' \<and> True \<notin> set (worker_runners rt')
    \<and> tasks (dispatcher rt') = [] \<and> length (workers (kst (dispatcher rt'))) = length (workers (kst (dispatcher rt)))
    \<and> (\<forall>w \<in> set (workers (kst (dispatcher rt'))). tasks w = [] \<and> ub_flag w = None)
    \<and> Runtime_stop os invoke n ns rt' = Some (None, rt')"
proof -
  let ?ok = "progressing_kernel.idle_ok infl" and ?dok = "progressing_kernel.idle_ok (\<lambda>w. infl (wd_kernel w))"
  let ?s = "request_stop (disp_os os) (dispatcher_runner rt) (dispatcher rt)"
  note ok_def = progressing_kernel.idle_ok_def [OF k] and dk = disp_progressing [OF k]
  have dok: "?dok (dispatcher rt)" using d by (simp add: progressing_kernel.idle_ok_def [OF dk])
  have sok: "?dok ?s" using dok progressing_kernel.idle_ok_poke [OF dk dok] by (simp add: request_stop_def)
  have ws: "workers (kst ?s) = workers (kst (dispatcher rt))"
    by (simp add: request_stop_def poke_eventfd_def disp_os_def split: prod.split)
  obtain s1 where s1: "join (disp_os os) (dispatch os) rounds (dispatcher_runner rt) ?s = Some (None, s1)" "?dok s1"
    "kreach (disp_os os) (kst ?s) (kst s1)"
    using progressing_kernel.run_ends [OF dk sok, of "dispatch os" rounds] sok
    by (cases "dispatcher_runner rt") (auto simp: join_def)
  obtain s2 where s2: "shutdown (disp_os os) (dispatch os) s1 = Some (None, s2)" "tasks s2 = []"
    "kreach (disp_os os) (kst s1) (kst s2)"
    using progressing_kernel.shutdown_ends [OF dk s1(2)] by blast
  have ws2: "workers (kst s2) = workers (kst (dispatcher rt))"
    using kreach_disp [OF s1(3)] kreach_disp [OF s2(3)] ws by simp
  have "\<forall>w \<in> set (workers (kst s2)). ?ok w" using w by (simp add: ws2 ok_def)
  then obtain ws' where ws': "stop_workers os invoke wrounds (worker_runners rt) (workers (kst s2)) = Some (None, ws')"
    "length ws' = length (workers (kst s2))" "\<forall>w \<in> set ws'. tasks w = [] \<and> ?ok w"
    using progressing_kernel.stop_workers_ends [OF k, of wrounds "workers (kst s2)" "worker_runners rt" invoke] l ws2 by auto
  have calm: "ub_flag w = None" if "?ok w" for w :: "('b wjob, 'a) sched"
    using that sched_inv_calm by (fastforce simp: ok_def safe_def calm_def)
  let ?rt = "rt\<lparr>dispatcher := s2\<lparr>kst := (kst s2)\<lparr>workers := ws'\<rparr>\<rparr>, dispatcher_runner := False,
     worker_runners := map (\<lambda>_. False) (worker_runners rt), rt_st := Stopped\<rparr>"
  have "Runtime_stop os invoke rounds wrounds rt = Some (None, ?rt)"
    using run s1(1) s2(1) ws'(1) by (simp add: Runtime_stop_def Let_def)
  then show ?thesis
    using s2(2) ws'(2,3) ws2 calm by (intro exI [of _ ?rt]) (auto simp: Runtime_stop_def)
qed

theorem stop_completes_witness:
  "\<exists>rt'. Runtime_stop prompt_os no_jobs 3 [2] prompt_runtime = Some (None, rt') \<and> rt_st rt' = Stopped
    \<and> (\<forall>w \<in> set (workers (kst (dispatcher rt'))). tasks w = [])"
proof -
  have d: "has_capacity (fresh_ring 2) 1" using has_capacity_1 [of "fresh_ring 2"] ring_ok_fresh [of 2] by (simp add: ring_ok_def)
  have "\<exists>rt'. Runtime_stop prompt_os no_jobs 3 [2] prompt_runtime = Some (None, rt') \<and> rt_st rt' = Stopped
    \<and> \<not> dispatcher_runner rt' \<and> True \<notin> set (worker_runners rt')
    \<and> tasks (dispatcher rt') = [] \<and> length (workers (kst (dispatcher rt'))) = length (workers (kst (dispatcher prompt_runtime)))
    \<and> (\<forall>w \<in> set (workers (kst (dispatcher rt'))). tasks w = [] \<and> ub_flag w = None)
    \<and> Runtime_stop prompt_os no_jobs 0 [] rt' = Some (None, rt')"
    by (rule stop_completes [OF reply.progressing_kernel_axioms])
       (use prompt_worker_ok prompt_dispatcher_safe [of "[prompt_worker]"] d in \<open>auto simp: prompt_runtime_def\<close>)
  then show ?thesis by blast
qed

end
