(* ===== verification/Posting.thy ===== *)
theory Posting
  imports Blocking Runtime
begin

text \<open>
  Work posted from other threads. \<open>Scheduler::post\<close> puts a callable into the inbox and writes to the
  eventfd; the loop sees it when the read of the eventfd completes. The first part shows that no
  wake-up is lost: while the inbox holds anything, the eventfd is signalled or its completion is
  waiting. The second part shows that posted work is done: jobs that spawn tasks, posted at any
  moments between the rounds of the loop, are started in order and run to their end.
\<close>

section \<open>The eventfd\<close>

text \<open>
  \<open>signalled k\<close>: the counter of the eventfd is positive. A write leaves it so (it fails only when the
  counter is at its maximum), and only a completed read resets it.
\<close>

locale eventfd_kernel = uring_kernel os infl for os :: "'k os" and infl +
  fixes signalled :: "'k \<Rightarrow> bool"
  assumes write_signals: "os_write os fd k = (ok, k') \<Longrightarrow> signalled k'"
    and enter_keeps_signal: "os_enter os es mc room k = (resp, k') \<Longrightarrow> signalled k \<Longrightarrow>
      EventfdBuf \<notin> cqe_user_data ` set (er_cqes resp) \<Longrightarrow> signalled k'"

definition wake_ready :: "('j, 'k) sched \<Rightarrow> bool" where
  "wake_ready s \<longleftrightarrow> EventfdBuf \<in> cqe_user_data ` set (cq_ready (ring s))"

definition reads_out :: "('k \<Rightarrow> ptr multiset) \<Rightarrow> ('j, 'k) sched \<Rightarrow> nat" where
  "reads_out infl s = count (sq_uds (ring s) + live_q infl s) EventfdBuf"

definition attentive :: "('k \<Rightarrow> ptr multiset) \<Rightarrow> ('k \<Rightarrow> bool) \<Rightarrow> ('j, 'k) sched \<Rightarrow> bool" where
  "attentive infl signalled s \<longleftrightarrow> (inbox s \<noteq> [] \<longrightarrow> signalled (kst s) \<or> wake_ready s)
     \<and> reads_out infl s = (if eventfd_armed s then 1 else 0)"

text \<open>
  What a callable may do to the state the wake-up depends on: nothing, except that it may add to the
  inbox and write to the eventfd. Only \<open>IOException\<close>s may leave it.
\<close>

definition heeds :: "('k \<Rightarrow> bool) \<Rightarrow> ('j, 'k) sched \<Rightarrow> ('j, 'k) sched \<Rightarrow> bool" where
  "heeds signalled s s' \<longleftrightarrow> eventfd_armed s' = eventfd_armed s
     \<and> count (sq_uds (ring s')) EventfdBuf = count (sq_uds (ring s)) EventfdBuf
     \<and> (signalled (kst s) \<longrightarrow> signalled (kst s')) \<and> (inbox s' \<noteq> inbox s \<longrightarrow> signalled (kst s'))"

definition jobs_wake :: "('k \<Rightarrow> bool) \<Rightarrow> ('j, 'k) invoke \<Rightarrow> bool" where
  "jobs_wake signalled invoke \<longleftrightarrow> (\<forall>j s Q. sched_inv Q s \<longrightarrow>
     (\<forall>x. fst (invoke j s) \<noteq> Some (UserExc x)) \<and> heeds signalled s (snd (invoke j s)))"

lemma heeds_refl [simp]: "heeds signalled s s"
  by (simp add: heeds_def)

lemma heeds_trans: "heeds signalled s s1 \<Longrightarrow> heeds signalled s1 s2 \<Longrightarrow> heeds signalled s s2"
  by (auto simp: heeds_def)

lemma spawn_heeds:
  assumes "sched_inv Q s" "fst (spawn_call os c s) = None \<or> \<not> has_capacity (ring s) 1"
  shows "heeds signalled s (snd (spawn_call os c s))"
proof (cases "fst (spawn_call os c s) = None")
  case True
  then have "spawn_call os c s = (None, snd (spawn_call os c s))" by (metis prod.collapse)
  from spawn_keeps [OF assms(1) this] show ?thesis by (simp add: heeds_def)
next
  case False
  with assms(2) have "\<not> has_capacity (ring s) 1"
    by (elim disjE) (erule notE, assumption, assumption)
  moreover have "sq_ok (ring s)" using sched_inv_calm [OF assms(1)] by (simp add: calm_def ring_ok_def)
  ultimately have "spawn_call os c s = (Some (IOExc SQFull), s\<lparr>frames := frames s @ [(new_frame TVoid c)\<lparr>fr_destroyed := True\<rparr>]\<rparr>)"
    using spawn_full [of s os c] capacity_spawn [of "ring s"] by simp
  then show ?thesis by (simp add: heeds_def)
qed

lemma spawn_jobs_wake:
  assumes "\<And>j. first_small (prog j)" "\<And>n k. os_can_grow os n k"
  shows "jobs_wake signalled (\<lambda>j. spawn_call os (prog j))"
  unfolding jobs_wake_def
proof (intro allI impI)
  fix j and s :: "('a, 'b) sched" and Q assume inv: "sched_inv Q s"
  note f = spawn_small [OF inv assms(1) assms(2), of j]
  then show "(\<forall>x. fst (spawn_call os (prog j) s) \<noteq> Some (UserExc x)) \<and> heeds signalled s (snd (spawn_call os (prog j) s))"
    using spawn_heeds [OF inv, of os "prog j" signalled] by (auto split: if_splits)
qed

context eventfd_kernel
begin

lemma poke_heeds: "heeds signalled s (snd (poke_eventfd os s))" "signalled (kst (snd (poke_eventfd os s)))"
  using write_signals by (auto simp: heeds_def poke_eventfd_def split: prod.splits)

lemma requeue_heeds: "heeds signalled s (snd (poke_eventfd os (s\<lparr>inbox := b\<rparr>)))"
  using poke_heeds [of "s\<lparr>inbox := b\<rparr>"] by (auto simp: heeds_def)

lemma poke_attentive:
  assumes "attentive infl signalled s"
  shows "attentive infl signalled (snd (poke_eventfd os (s\<lparr>inbox := b\<rparr>)))"
proof -
  let ?s = "snd (poke_eventfd os (s\<lparr>inbox := b\<rparr>))"
  have "reads_out infl ?s = reads_out infl s" "eventfd_armed ?s = eventfd_armed s"
    by (auto simp: poke_eventfd_def reads_out_def live_q_def write_keeps split: prod.splits)
  then show ?thesis using poke_heeds(2) [of "s\<lparr>inbox := b\<rparr>"] assms by (simp add: attentive_def)
qed

lemma drain_local_heeds:
  assumes "jobs_ok infl invoke" "jobs_wake signalled invoke" "sched_inv Q s"
  shows "fst (drain_local os invoke js s) = None \<and> heeds signalled s (snd (drain_local os invoke js s))"
  using assms(3)
proof (induction js arbitrary: s)
  case (Cons j js)
  obtain e s1 where i: "invoke j s = (e, s1)" by fastforce
  have k1: "keeps_safe infl s s1" using assms(1) Cons.prems i unfolding jobs_ok_def by (metis snd_conv)
  then have i1: "sched_inv Q s1" using Cons.prems by (simp add: keeps_safe_def)
  have w: "\<forall>x. e \<noteq> Some (UserExc x)" "heeds signalled s s1"
    using assms(2) Cons.prems i unfolding jobs_wake_def by (metis fst_conv, metis snd_conv)
  let ?s2 = "snd (poke_eventfd os (s1\<lparr>inbox := inbox s1 @ [j]\<rparr>))"
  have "keeps_safe infl s1 ?s2" by (rule keeps_safe_trans [OF keeps_safe_flags(1) poke_keeps])
  then have i2: "sched_inv Q ?s2" using i1 by (simp add: keeps_safe_def)
  have h2: "heeds signalled s1 ?s2" by (rule requeue_heeds)
  show ?case
    using i w heeds_trans [OF w(2)] Cons.IH [OF i1] heeds_trans [OF heeds_trans [OF w(2) h2]] Cons.IH [OF i2]
    by (auto split: option.split exn.split)
qed simp

lemma wake_readyI: "c \<in> set (cq_ready (ring s)) \<Longrightarrow> cqe_user_data c = EventfdBuf \<Longrightarrow> wake_ready s"
  by (force simp: wake_ready_def)

lemma other_cqe:
  assumes "sched_inv (add_mset (cqe_user_data c) Q) s" "cqe_user_data c \<noteq> EventfdBuf" "process_cqe os invoke c s = (e, s1)"
  shows "e = None \<and> inbox s1 = inbox s \<and> kst s1 = kst s \<and> eventfd_armed s1 = eventfd_armed s
    \<and> count (sq_uds (ring s1)) EventfdBuf = count (sq_uds (ring s)) EventfdBuf"
  using assms(3) deliver_frame [of _ Q s "cqe_res c"] assms(1,2)
  by (auto simp: process_cqe_def sched_inv_def outstanding_def split: ptr.splits)

lemma cqe_attentive:
  assumes jobs: "jobs_ok infl invoke" "jobs_wake signalled invoke" and safe: "safe infl s" and att: "attentive infl signalled s"
    and c: "cq_ready (ring s) = c # cs" and p: "process_cqe os invoke c s = (e, s1)"
    and s2: "cq_ready (cq_advance (ring s1)) = cs" "infl (kst s1) = infl (kst s)"
  shows "e = None \<and> attentive infl signalled (s1\<lparr>ring := cq_advance (ring s1)\<rparr>)"
proof -
  let ?s2 = "s1\<lparr>ring := cq_advance (ring s1)\<rparr>"
  have lq: "live_q infl s = add_mset (cqe_user_data c) (live_q infl ?s2)" by (simp add: live_q_def c s2)
  have sq: "sq_uds (cq_advance r) = sq_uds r" for r by (simp add: sq_uds_def cq_advance_def)
  have out: "reads_out infl s + count (sq_uds (ring s1)) EventfdBuf
      = reads_out infl ?s2 + count (sq_uds (ring s)) EventfdBuf + (if cqe_user_data c = EventfdBuf then 1 else 0)"
    by (simp add: reads_out_def lq sq)
  have inv: "sched_inv (add_mset (cqe_user_data c) (live_q infl ?s2)) s" using safe lq by (simp add: safe_def)
  have wr: "wake_ready s \<longleftrightarrow> cqe_user_data c = EventfdBuf \<or> wake_ready ?s2" by (auto simp: wake_ready_def c s2)
  show ?thesis
  proof (cases "cqe_user_data c = EventfdBuf")
    case True
    let ?s0 = "s\<lparr>eventfd_armed := False, inbox := []\<rparr>"
    have "sched_inv (live_q infl ?s2) s" using sched_inv_drop [OF inv] True by simp
    then have "sched_inv (live_q infl ?s2) ?s0" by (rule sched_inv_cong [rotated 7]) simp_all
    from drain_local_heeds [OF jobs this, of "inbox s"]
    have h: "e = None" "heeds signalled ?s0 s1" using p True by (simp_all add: process_cqe_def drain_inbox_def)
    then have "reads_out infl ?s2 = 0" using out att True by (simp add: heeds_def attentive_def split: if_splits)
    then show ?thesis using h by (auto simp: attentive_def heeds_def)
  next
    case False
    then show ?thesis using other_cqe [OF inv False p] att out wr by (auto simp: attentive_def)
  qed
qed

lemma arm_attentive:
  assumes "safe infl s" "attentive infl signalled s" "\<not> eventfd_armed s" "sq_len (ring s) < unat (sq_entries (ring s))"
  shows "attentive infl signalled (arm_eventfd_read s)"
proof -
  have ok: "sq_ok (ring s)" using assms(1) sched_inv_calm by (fastforce simp: safe_def calm_def ring_ok_def)
  have "sq_uds (ring (arm_eventfd_read s)) = add_mset EventfdBuf (sq_uds (ring s))"
    by (simp add: sq_uds_def arm_stages sq_pending_stage [OF ok assms(4)] eventfd_read_sqe_def)
  moreover have "cq_ready (ring (arm_eventfd_read s)) = cq_ready (ring s)" by (simp add: arm_stages)
  ultimately show ?thesis using assms(2,3) by (simp add: attentive_def reads_out_def live_q_def wake_ready_def) (simp add: arm_stages)
qed

lemma enter_signal:
  assumes "safe infl s" "signalled (kst s) \<or> wake_ready s"
  shows "signalled (kst (io_uring_enter os n mc s)) \<or> wake_ready (io_uring_enter os n mc s)"
proof -
  let ?s = "io_uring_enter os n mc s"
  obtain es room resp k' where e: "os_enter os es mc room (kst s) = (resp, k')" "kst ?s = k'"
    "cq_ready (ring ?s) = cq_ready (ring s) @ er_cqes resp"
    using enter_flow(3) [OF assms(1)] by blast
  then show ?thesis using enter_keeps_signal [OF e(1)] assms(2) by (auto simp: wake_ready_def)
qed

lemma enter_attentive:
  assumes "safe infl s" "attentive infl signalled s"
  shows "attentive infl signalled (io_uring_enter os n mc s)"
proof -
  let ?s = "io_uring_enter os n mc s"
  have "inbox ?s = inbox s" "eventfd_armed ?s = eventfd_armed s" by (simp_all add: io_uring_enter_def Let_def split_beta)
  moreover have "reads_out infl ?s = reads_out infl s" by (simp add: reads_out_def enter_flow(2) [OF assms(1)])
  ultimately show ?thesis using assms(2) enter_signal [OF assms(1)] by (auto simp: attentive_def)
qed

lemma drain_attentive:
  assumes jobs: "jobs_ok infl invoke" "jobs_wake signalled invoke" and safe: "safe infl s" and att: "attentive infl signalled s"
    and slot: "eventfd_armed s \<or> has_capacity (ring s) 1"
  shows "fst (drain os invoke s) = None \<and> attentive infl signalled (snd (drain os invoke s))"
proof -
  let ?s0 = "if \<not> eventfd_armed s then arm_eventfd_read s else s"
  have "sq_ok (ring s)" using safe sched_inv_calm by (fastforce simp: safe_def calm_def ring_ok_def)
  then have room: "eventfd_armed s \<or> sq_len (ring s) < unat (sq_entries (ring s))" using slot has_capacity_1 by blast
  have s0: "safe infl ?s0" "attentive infl signalled ?s0"
    using armed_safe [OF safe slot] room arm_attentive [OF safe att] att by auto
  let ?s1 = "io_uring_enter os (sq_tail (ring ?s0) - sq_head (ring ?s0)) (if shutting_down ?s0 then 0 else 1) ?s0"
  obtain s' where "drain_cqes os invoke (cq_mask (ring ?s1)) (cq_head (ring ?s1)) (cq_tail (ring ?s1)) ?s1 = (None, s')"
    "attentive infl signalled s'"
    using drain_cqes_invariant [OF jobs(1) enter_safe [OF s0(1)], of "attentive infl signalled"] enter_attentive [OF s0]
      cqe_attentive [OF jobs] by blast
  then show ?thesis by (simp add: drain_def Let_def)
qed

lemma ctor_attentive:
  assumes "Scheduler_ctor os r k = Inr s" "ring_ok r" "sq_pending r = []" "cq_ready r = []" "infl k = {#}"
  shows "attentive infl signalled s"
proof -
  have "ring s = r" "kst s = snd (os_eventfd os k)" "inbox s = []" "\<not> eventfd_armed s"
    using assms(1) by (auto simp: Scheduler_ctor_def split: prod.splits if_splits)
  moreover have "infl (snd (os_eventfd os k)) = {#}" using eventfd_keeps [of k] assms(5) by (metis prod.collapse)
  ultimately show ?thesis using assms(3,4) by (simp add: attentive_def reads_out_def live_q_def sq_uds_def)
qed

lemma reach_attentive:
  assumes jobs: "jobs_ok infl invoke" "jobs_wake signalled invoke" and "reach os invoke s0 ok s" and "safe infl s0"
    and "attentive infl signalled s0" and "ok"
  shows "attentive infl signalled s"
  using assms(3-)
proof (induction rule: reach.induct)
  case (spawn ok s c e s')
  then have ok: ok "e = None \<or> \<not> has_capacity (ring s) 1" by simp_all
  have safe: "safe infl s" by (rule reach_safe [OF jobs(1) spawn.hyps(1) spawn.prems(1) ok(1)])
  have inv: "sched_inv (live_q infl s) s" using safe by (simp add: safe_def)
  have h: "heeds signalled s s'" using spawn_heeds [OF inv, of os c signalled] spawn.hyps(2) ok(2) by auto
  have "inbox s' = inbox s \<and> kst s' = kst s \<and> cq_ready (ring s') = cq_ready (ring s)"
  proof (cases e)
    case None
    then show ?thesis using spawn_keeps [OF inv] spawn.hyps(2) cq_same_abs by (simp add: same_loop_def)
  next
    case (Some x)
    moreover have "sq_ok (ring s)" using sched_inv_calm [OF inv] by (simp add: calm_def ring_ok_def)
    ultimately show ?thesis using spawn.hyps(2) ok(2) spawn_full [of s os c] capacity_spawn [of "ring s"] by auto
  qed
  then show ?case using h spawn.IH [OF spawn.prems(1,2) ok(1)] by (simp add: attentive_def heeds_def reads_out_def live_q_def wake_ready_def)
next
  case (post ok s j)
  have "snd (post os j s) = snd (poke_eventfd os (s\<lparr>inbox := inbox s @ [j]\<rparr>))" by (simp add: post_def split: prod.split)
  then show ?case using poke_attentive [OF post.IH [OF post.prems], of "inbox s @ [j]"] by simp
next
  case (drain ok s)
  then show ?case using drain_attentive [OF jobs reach_safe [OF jobs(1)]] by blast
next
  case (reap ok s)
  have "sched_inv (live_q infl s) s" using reach_safe [OF jobs(1) reap.hyps(1) reap.prems(1,3)] by (simp add: safe_def)
  then show ?case using reap by (simp add: reap_effect attentive_def reads_out_def live_q_def wake_ready_def)
next
  case (shutdown ok s)
  then show ?case by (simp add: attentive_def reads_out_def live_q_def wake_ready_def)
qed

end

section \<open>Posted tasks\<close>

lemma interleaves_same: "interleaves ps l \<Longrightarrow> \<forall>p \<in> set ps. set p \<subseteq> {x} \<Longrightarrow> l = replicate (sum_list (map length ps)) x"
proof (induction rule: interleaves.induct)
  case (one ps l i y)
  have m: "map length (ps[i := ps ! i @ [y]]) = (map length ps)[i := Suc (length (ps ! i))]" by (simp add: map_update)
  have "sum_list (map length (ps[i := ps ! i @ [y]])) = Suc (sum_list (map length ps))"
    unfolding m using one.hyps(2) by (simp add: sum_list_update)
  moreover have mem: "ps ! i @ [y] \<in> set (ps[i := ps ! i @ [y]])" using one.hyps(2) by (simp add: set_update_memI)
  from one.prems mem have "set (ps ! i @ [y]) \<subseteq> {x}" by (rule bspec)
  then have y: "y = x" "set (ps ! i) \<subseteq> {x}" by simp_all
  moreover have "set p \<subseteq> {x}" if p: "p \<in> set ps" for p
  proof -
    obtain j where j: "j < length ps" "p = ps ! j" using p by (auto simp: in_set_conv_nth)
    show ?thesis
    proof (cases "j = i")
      case False
      then have "p \<in> set (ps[i := ps ! i @ [y]])" using j by (metis length_list_update nth_list_update_neq nth_mem)
      then show ?thesis using one.prems by blast
    qed (use j y(2) in simp)
  qed
  ultimately show ?case using one.IH by (simp add: replicate_append_same)
qed simp

text \<open>
  The jobs of the test programs: each spawns one task. A schedule interleaves posts, from any thread,
  with rounds of the thread that drives the loop.
\<close>

definition spawn_jobs :: "'k os \<Rightarrow> ('j \<Rightarrow> co) \<Rightarrow> ('j, 'k) invoke" where
  "spawn_jobs os prog = (\<lambda>j. spawn_call os (prog j))"

fun run_schedule :: "'k os \<Rightarrow> ('j, 'k) invoke \<Rightarrow> 'j option list \<Rightarrow> ('j, 'k) sched \<Rightarrow> exn option \<times> ('j, 'k) sched" where
  "run_schedule os invoke [] s = (None, s)"
| "run_schedule os invoke (ev # evs) s =
     (case (case ev of Some j \<Rightarrow> post os j s | None \<Rightarrow> thread_round os invoke s) of
        (Some e, s') \<Rightarrow> (Some e, s')
      | (None, s') \<Rightarrow> run_schedule os invoke evs s')"

definition posts :: "'j option list \<Rightarrow> 'j list" where
  "posts evs = map the (filter (\<lambda>ev. ev \<noteq> None) evs)"

lemma posts_simps [simp]: "posts [] = []" "posts (Some j # evs) = j # posts evs" "posts (None # evs) = posts evs"
  by (simp_all add: posts_def)

lemma run_schedule_append:
  "run_schedule os invoke (evs @ evs') s =
     (case run_schedule os invoke evs s of (None, s') \<Rightarrow> run_schedule os invoke evs' s' | (Some e, s') \<Rightarrow> (Some e, s'))"
  by (induction evs arbitrary: s) (auto split: prod.split option.split)

lemma drain_local_spawn_all:
  "spawn_all os (map prog js) s = (None, s') \<Longrightarrow> drain_local os (spawn_jobs os prog) js s = (None, s')"
  by (induction js arbitrary: s) (auto simp: spawn_jobs_def split: prod.splits option.splits)

lemma spawn_all_kst: "sched_inv Q s \<Longrightarrow> spawn_all os cs s = (None, s') \<Longrightarrow> kst s' = kst s"
proof (induction cs arbitrary: s)
  case (Cons c cs)
  then obtain s1 where s1: "spawn_call os c s = (None, s1)" "spawn_all os cs s1 = (None, s')"
    by (auto split: prod.splits option.splits)
  then show ?case using spawn_keeps(1,3) [OF Cons.prems(1) s1(1)] Cons.IH by simp
qed simp

text \<open>
  \<open>latency\<close>: how many more calls of \<open>io_uring_enter\<close> may pass before the read of a signalled eventfd completes.
\<close>

locale waking_kernel = eventfd_kernel os infl signalled for os :: "'k os" and infl and signalled +
  fixes latency :: "'k \<Rightarrow> nat"
  assumes enter_wakes: "os_enter os es mc room k = (resp, k') \<Longrightarrow> 0 < room \<Longrightarrow> signalled k \<Longrightarrow>
      EventfdBuf \<in># infl k + mset (map sqe_user_data es) \<Longrightarrow>
      EventfdBuf \<in> cqe_user_data ` set (er_cqes resp) \<or> latency k' < latency k"
    and write_ok: "fst (os_write os fd k)"
begin

text \<open>The call of \<open>io_uring_enter\<close> in \<open>drain\<close> brings the wake-up, or brings it nearer.\<close>

lemma wake_comes:
  assumes att: "attentive infl signalled s" and idle: "cq_ready (ring s) = []" "inbox s \<noteq> []"
    and e: "os_enter os es mc room (kst s) = (resp, k')" "0 < room"
    and es: "set_mset (sq_uds (ring s)) \<subseteq> sqe_user_data ` set es" "\<not> eventfd_armed s \<longrightarrow> EventfdBuf \<in> sqe_user_data ` set es"
  shows "EventfdBuf \<in> cqe_user_data ` set (er_cqes resp) \<or> latency k' < latency (kst s)"
proof -
  have sig: "signalled (kst s)" using att idle by (simp add: attentive_def wake_ready_def)
  have "EventfdBuf \<in># infl (kst s) \<or> EventfdBuf \<in># sq_uds (ring s)" if "eventfd_armed s"
  proof (rule ccontr)
    assume "\<not> ?thesis"
    then have "reads_out infl s = 0" using idle(1) by (simp add: reads_out_def live_q_def not_in_iff)
    then show False using att that by (simp add: attentive_def)
  qed
  then have "EventfdBuf \<in># infl (kst s) + mset (map sqe_user_data es)" using es by auto
  from enter_wakes [OF e sig this] show ?thesis .
qed

end

text \<open>With room for completions and a slot for the read, \<open>drain\<close> submits everything staged and the read.\<close>

lemma armed_pending:
  assumes "sq_ok (ring s)" "eventfd_armed s \<or> has_capacity (ring s) 1" "s0 = (if \<not> eventfd_armed s then arm_eventfd_read s else s)"
  shows "set_mset (sq_uds (ring s)) \<subseteq> sqe_user_data ` set (sq_pending (ring s0))"
    "\<not> eventfd_armed s \<longrightarrow> EventfdBuf \<in> sqe_user_data ` set (sq_pending (ring s0))"
  using assms sq_pending_stage [OF assms(1), of "eventfd_read_sqe (eventfd s)"] has_capacity_1 [OF assms(1)]
  by (auto simp: arm_stages eventfd_read_sqe_def sq_uds_def)

lemma cq_room:
  assumes "safe infl s" "cq_ready (ring s) = []"
  shows "0 < unat (cq_entries (ring s)) - cq_len (ring s)"
proof -
  have "cq_ok (ring s)" using assms(1) sched_inv_calm by (fastforce simp: safe_def calm_def ring_ok_def)
  then show ?thesis using assms(2) ring_size_pos by (auto simp: cq_ok_def simp flip: length_cq_ready)
qed

locale waking_bed = test_bed os infl delay sent allowed r k0 + waking_kernel os infl signalled latency
  for os :: "'k os" and infl and delay and sent and allowed and r and k0 and signalled and latency +
  assumes write_sent: "os_write os fd k = (ok, k') \<Longrightarrow> sent k' \<subseteq> sent k"
begin

text \<open>
  Between two calls, with the bodies \<open>cs\<close> posted so far: the tasks started are the first of them, the
  inbox holds the others.
\<close>

definition busy :: "('j \<Rightarrow> co) \<Rightarrow> co list \<Rightarrow> ('j, 'k) sched \<Rightarrow> bool" where
  "busy prog cs s \<longleftrightarrow> safe infl s \<and> attentive infl signalled s \<and> cq_ready (ring s) = [] \<and> (eventfd_armed s \<or> has_capacity (ring s) 1)
     \<and> (\<forall>t \<in> set (tasks s). \<not> Task_done s t)
     \<and> length (tasks s) + length (inbox s) \<le> length cs \<and> 2 * length cs < unat (sq_entries (ring s))
     \<and> (\<exists>ts. conf allowed sent s ts \<and> map th_body ts @ map prog (inbox s) = cs)"

lemma busy_idle: "busy prog cs s \<Longrightarrow> inbox s = [] \<Longrightarrow> idle_ok s"
  by (auto simp: busy_def idle_ok_def)

lemma busy_poke:
  assumes "busy prog cs s" "poke_eventfd os (s\<lparr>inbox := b\<rparr>) = (ok, s')" "length (tasks s) + length b \<le> length cs'"
    "2 * length cs' < unat (sq_entries (ring s))" "\<And>bs. bs @ map prog (inbox s) = cs \<Longrightarrow> bs @ map prog b = cs'"
  shows "ok \<and> busy prog cs' s' \<and> inbox s' = b"
proof -
  obtain k' where w: "os_write os (eventfd s) (kst s) = (ok, k')" "s' = s\<lparr>inbox := b, kst := k'\<rparr>"
    using assms(2) by (auto simp: poke_eventfd_def split: prod.splits)
  obtain ts where ts: "conf allowed sent s ts" "map th_body ts @ map prog (inbox s) = cs" using assms(1) by (auto simp: busy_def)
  have "conf allowed sent s' ts"
    by (rule conf_keep [OF ts(1)]) (use write_sent [OF w(1)] in \<open>auto intro!: undisturbed_flow simp: w(2) known_def\<close>)
  moreover have "safe infl s'" using assms(1) write_keeps [OF w(1)] by (intro safe_cong [of s' s]) (simp_all add: w(2) busy_def)
  moreover have "attentive infl signalled s'"
    using poke_attentive [of s b] assms(1,2) by (simp add: busy_def)
  moreover have ok using write_ok [of "eventfd s" "kst s"] w(1) by simp
  moreover have "Task_done s' t = Task_done s t" for t
    by (simp add: w(2) Task_done_def frame_done_def split: option.split)
  ultimately show ?thesis using assms ts by (auto simp: busy_def w(2))
qed

lemma busy_post:
  assumes "busy prog cs s" "2 * Suc (length cs) < unat (sq_entries (ring s))"
  shows "\<exists>s'. post os j s = (None, s') \<and> busy prog (cs @ [prog j]) s' \<and> sq_entries (ring s') = sq_entries (ring s)"
proof -
  obtain ok s' where p: "poke_eventfd os (s\<lparr>inbox := inbox s @ [j]\<rparr>) = (ok, s')" by fastforce
  have "ok \<and> busy prog (cs @ [prog j]) s'"
    using busy_poke [OF assms(1) p, of "cs @ [prog j]"] assms by (auto simp: busy_def)
  moreover have "sq_entries (ring s') = sq_entries (ring s)" using p by (auto simp: poke_eventfd_def split: prod.splits)
  ultimately show ?thesis using p by (simp add: post_def)
qed

text \<open>
  While the completions of a round are processed: room for every resumption and every start that may
  follow, and a wake-up among them when \<open>w\<close> says so.
\<close>

definition serving :: "('j \<Rightarrow> co) \<Rightarrow> co list \<Rightarrow> 'k \<Rightarrow> u32 \<Rightarrow> nat \<Rightarrow> bool \<Rightarrow> ('j, 'k) sched \<Rightarrow> bool" where
  "serving prog cs k' n m w s \<longleftrightarrow> kst s = k' \<and> sq_entries (ring s) = n
     \<and> sq_len (ring s) + 2 * ops_in (cq_ready (ring s)) + 2 * length (inbox s) \<le> 2 * length cs
     \<and> length (tasks s) + length (inbox s) \<le> m \<and> (w \<longrightarrow> inbox s = [] \<or> wake_ready s)
     \<and> (\<exists>ts. conf allowed sent s ts \<and> map th_body ts @ map prog (inbox s) = cs)"

lemma serving_wake:
  assumes safe: "safe infl s" and srv: "serving prog cs k' n m w s" and room: "2 * length cs < unat n"
    and c: "cq_ready (ring s) = c # rest" "cqe_user_data c = EventfdBuf"
    and p: "process_cqe os (spawn_jobs os prog) c s = (e, s1)" and same: "cq_same (ring s) (ring s1)"
    and adv: "cq_ready (cq_advance (ring s1)) = rest"
  shows "e = None \<and> serving prog cs k' n m w (s1\<lparr>ring := cq_advance (ring s1)\<rparr>)"
proof -
  let ?s0 = "s\<lparr>eventfd_armed := False, inbox := []\<rparr>" and ?cs = "map prog (inbox s)"
  obtain ts where ts: "conf allowed sent s ts" "map th_body ts @ ?cs = cs" using srv by (auto simp: serving_def)
  have safe0: "safe infl ?s0" using safe by (intro safe_cong [of ?s0 s]) simp_all
  have conf0: "conf allowed sent ?s0 ts" by (rule conf_keep [OF ts(1)]) (auto intro!: undisturbed_flow simp: known_def)
  have "sq_len (ring ?s0) + 2 * length ?cs \<le> unat (sq_entries (ring ?s0))" using srv room by (auto simp: serving_def)
  from spawn_all_conf [OF memory safe0 conf0 _ this] obtain s2 ts' where
    s2: "spawn_all os ?cs ?s0 = (None, s2)" "conf allowed sent s2 ts'" "map th_body ts' = map th_body ts @ ?cs" "inbox s2 = []"
      "length (tasks s2) = length (tasks s) + length (inbox s)" "sq_entries (ring s2) = sq_entries (ring s)"
      "sq_len (ring s2) \<le> sq_len (ring s) + 2 * length (inbox s)" by auto
  have e: "e = None" "s1 = s2" using p c(2) drain_local_spawn_all [OF s2(1)] by (simp_all add: process_cqe_def drain_inbox_def)
  have k: "kst s2 = kst s" using spawn_all_kst [OF _ s2(1)] safe0 by (simp add: safe_def)
  have "cq_head (ring s1) \<noteq> cq_tail (ring s1)" using same c(1) by (auto simp: cq_same_def cq_ready_def cq_len_def)
  from advance_conf [OF s2(2) [folded e(2)] this]
  have "conf allowed sent (s1\<lparr>ring := cq_advance (ring s1)\<rparr>) ts'" .
  moreover have "ops_in rest = ops_in (cq_ready (ring s))" by (simp add: c ops_in_def)
  ultimately show ?thesis
    using e k s2 srv ts(2) adv by (auto simp: serving_def cq_advance_def)
qed

lemma serving_other:
  assumes safe: "safe infl s" and srv: "serving prog cs k' n m w s" and room: "2 * length cs < unat n"
    and c: "cq_ready (ring s) = c # rest" "cqe_user_data c \<noteq> EventfdBuf"
    and p: "process_cqe os (spawn_jobs os prog) c s = (e, s1)" and same: "cq_same (ring s) (ring s1)"
    and adv: "cq_ready (cq_advance (ring s1)) = rest"
  shows "e = None \<and> serving prog cs k' n m w (s1\<lparr>ring := cq_advance (ring s1)\<rparr>)"
proof -
  obtain ts where ts: "conf allowed sent s ts" "map th_body ts @ map prog (inbox s) = cs" using srv by (auto simp: serving_def)
  have rok: "sq_ok (ring s)" using safe sched_inv_calm by (fastforce simp: safe_def calm_def ring_ok_def)
  have mem: "c \<in> set (cq_ready (ring s))" by (simp add: c(1))
  then have "cqe_user_data c \<in># live_q infl s" by (auto simp: live_q_def)
  then have inv: "sched_inv (add_mset (cqe_user_data c) (live_q infl s - {#cqe_user_data c#})) s" using safe by (simp add: safe_def)
  then consider a where "cqe_user_data c = AwPtr a" | "cqe_user_data c = NullPtr"
    using c(2) by (cases "cqe_user_data c") (auto simp: sched_inv_def outstanding_def)
  then have "e = None \<and> kst s1 = kst s \<and> tasks s1 = tasks s \<and> inbox s1 = inbox s \<and> sq_entries (ring s1) = sq_entries (ring s)
    \<and> sq_len (ring s1) + 2 * ops_in rest \<le> sq_len (ring s) + 2 * ops_in (cq_ready (ring s))
    \<and> (\<exists>ts'. conf allowed sent s1 ts' \<and> map th_body ts' = map th_body ts)"
  proof cases
    case 1
    have "has_capacity (ring s) 2" using srv room c(1) 1 has_capacity_2 [OF rok] by (auto simp: serving_def ops_in_def)
    from deliver_conf [OF safe mem 1 ts(1) this] show ?thesis
      using p 1 c(1) deliver_frame [OF inv [unfolded 1], of "cqe_res c"] by (auto simp: process_cqe_def same_loop_def ops_in_def)
  next
    case 2
    then show ?thesis using p c(1) ts(1) by (auto simp: process_cqe_def ops_in_def)
  qed
  then obtain ts' where s1: "e = None" "kst s1 = kst s" "tasks s1 = tasks s" "inbox s1 = inbox s" "sq_entries (ring s1) = sq_entries (ring s)"
    "sq_len (ring s1) + 2 * ops_in rest \<le> sq_len (ring s) + 2 * ops_in (cq_ready (ring s))"
    "conf allowed sent s1 ts'" "map th_body ts' = map th_body ts" by blast
  have "cq_head (ring s1) \<noteq> cq_tail (ring s1)" using same c(1) by (auto simp: cq_same_def cq_ready_def cq_len_def)
  note a = advance_conf [OF s1(7) this]
  have "wake_ready (s1\<lparr>ring := cq_advance (ring s1)\<rparr>) = wake_ready s" using c adv by (auto simp: wake_ready_def)
  moreover have "sq_len (cq_advance (ring s1)) = sq_len (ring s1)" "sq_entries (cq_advance (ring s1)) = sq_entries (ring s1)"
    by (simp_all add: cq_advance_def)
  ultimately show ?thesis using a s1 srv ts(2) adv by (auto simp: serving_def)
qed

lemma reap_attentive: "sched_inv Q s \<Longrightarrow> attentive infl signalled s \<Longrightarrow> attentive infl signalled (reap s)"
  by (simp add: reap_effect attentive_def reads_out_def live_q_def wake_ready_def)

text \<open>A round of the loop: whatever is in the inbox is started, or the wake-up has come nearer.\<close>

lemma busy_round:
  assumes small: "\<And>j. first_small (prog j)" and b: "busy prog cs s"
  obtains s' where "thread_round os (spawn_jobs os prog) s = (None, s')" "busy prog cs s'" "inbox s = [] \<longrightarrow> inbox s' = []"
    "inbox s' = [] \<or> latency (kst s') < latency (kst s)" "sq_entries (ring s') = sq_entries (ring s)"
    "length (tasks s') + length (inbox s') \<le> length (tasks s) + length (inbox s)"
proof -
  let ?inv = "spawn_jobs os prog"
  have jobs: "jobs_ok infl ?inv" "jobs_wake signalled ?inv"
    unfolding spawn_jobs_def using spawn_jobs_ok spawn_jobs_wake small memory by blast+
  have f: "safe infl s" "attentive infl signalled s" "cq_ready (ring s) = []" "eventfd_armed s \<or> has_capacity (ring s) 1"
    "length (tasks s) + length (inbox s) \<le> length cs" "2 * length cs < unat (sq_entries (ring s))"
    using b by (simp_all add: busy_def)
  obtain ts where ts: "conf allowed sent s ts" "map th_body ts @ map prog (inbox s) = cs" using b by (auto simp: busy_def)
  obtain s1 es mc resp k' where
    e: "os_enter os es mc (unat (cq_entries (ring s)) - cq_len (ring s)) (kst s) = (resp, k')" "kst s1 = k'"
      "set_mset (sq_uds (ring s)) \<subseteq> sqe_user_data ` set es" "\<not> eventfd_armed s \<longrightarrow> EventfdBuf \<in> sqe_user_data ` set es"
    and s1: "cq_ready (ring s1) = cq_ready (ring s) @ er_cqes resp" "sq_len (ring s1) = 0" "sq_entries (ring s1) = sq_entries (ring s)"
      "safe infl s1" "conf allowed sent s1 ts" "inbox s1 = inbox s" "tasks s1 = tasks s"
    and dr: "drain os ?inv s = drain_cqes os ?inv (cq_mask (ring s1)) (cq_head (ring s1)) (cq_tail (ring s1)) s1"
    by (rule drain_parts_conf [OF f(1,4) ts(1), where invoke = ?inv])
  let ?w = "inbox s = [] \<or> wake_ready s1" and ?n = "sq_entries (ring s)" and ?m = "length (tasks s) + length (inbox s)"
  have wake: "?w \<or> latency k' < latency (kst s)"
    using wake_comes [OF f(2,3) _ e(1) cq_room [OF f(1,3)] e(3,4)] by (auto simp: wake_ready_def s1(1) image_Un)
  have "2 * ops_in (cq_ready (ring s1)) \<le> 2 * length (tasks s)" using ops_le_tasks [OF s1(4)] s1(7) by simp
  then have srv: "serving prog cs k' ?n ?m ?w s1" using s1 e(2) ts(2) f(5) by (auto simp: serving_def)
  obtain s2 where s2: "drain os ?inv s = (None, s2)" "serving prog cs k' ?n ?m ?w s2" "safe infl s2" "cq_ready (ring s2) = []"
    using drain_cqes_invariant [OF jobs(1) s1(4), of "serving prog cs k' ?n ?m ?w", OF srv] serving_wake serving_other f(6)
    unfolding dr by metis
  have inv: "sched_inv (live_q infl s2) s2" using s2(3) by (simp add: safe_def)
  note re = reap_effect [OF inv]
  obtain ts' where "conf allowed sent s2 ts'" "map th_body ts' @ map prog (inbox s2) = cs" using s2(2) by (auto simp: serving_def)
  moreover have "has_capacity (ring s2) 1"
    using has_capacity_1 [of "ring s2"] sched_inv_calm [OF inv] s2(2) f(6) by (simp add: calm_def ring_ok_def serving_def)
  moreover have "attentive infl signalled s2" using drain_attentive [OF jobs f(1,2,4)] s2(1) by simp
  moreover have "safe infl (reap s2)" using reap_inv [OF inv] by (simp add: safe_def re live_q_def)
  moreover have unf: "length (unfinished s2) \<le> length (tasks s2)" by (simp add: unfinished_def)
  ultimately have "busy prog cs (reap s2)"
    using s2(2,4) f(5,6) reap_conf [OF inv] reap_attentive [OF inv] reap_all_unfinished [OF inv]
    by (auto simp: busy_def re serving_def)
  moreover have "inbox s2 = []" if ?w using that s2(2,4) by (auto simp: serving_def wake_ready_def)
  ultimately show thesis
    using that [of "reap s2"] s2(1,2) wake unf by (auto simp: thread_round_def re serving_def)
qed

text \<open>What is left to do: first the wake-up, then the work of the tasks.\<close>

definition todo :: "('j, 'k) sched \<Rightarrow> nat \<times> fstatus multiset \<times> nat" where
  "todo s = (if inbox s = [] then 0 else Suc (latency (kst s)), work s)"

abbreviation todo_rel :: "((nat \<times> fstatus multiset \<times> nat) \<times> (nat \<times> fstatus multiset \<times> nat)) set" where
  "todo_rel \<equiv> less_than <*lex*> less_work <*lex*> less_than"

lemma wf_todo: "wf todo_rel"
  by (intro wf_lex_prod wf_less_than wf_less_work)

lemma busy_step:
  assumes small: "\<And>j. first_small (prog j)" and b: "busy prog cs s" and left: "tasks s \<noteq> [] \<or> inbox s \<noteq> []"
  obtains s' where "thread_round os (spawn_jobs os prog) s = (None, s')" "busy prog cs s'" "(todo s', todo s) \<in> todo_rel"
    "sq_entries (ring s') = sq_entries (ring s)"
proof -
  obtain s' where s': "thread_round os (spawn_jobs os prog) s = (None, s')" "busy prog cs s'" "inbox s = [] \<longrightarrow> inbox s' = []"
    "inbox s' = [] \<or> latency (kst s') < latency (kst s)" "sq_entries (ring s') = sq_entries (ring s)"
    by (rule busy_round [OF small b])
  have "(todo s', todo s) \<in> todo_rel"
  proof (cases "inbox s = []")
    case True
    then have "unfinished s \<noteq> []" using left b by (auto simp: unfinished_def filter_empty_conv busy_def)
    then obtain s2 where "drain os (spawn_jobs os prog) s = (None, s2)" "(work (reap s2), work s) \<in> less_work <*lex*> less_than"
      using round [OF busy_idle [OF b True], of "spawn_jobs os prog"] b unfolding busy_def by metis
    then show ?thesis using s'(1,3) True by (auto simp: thread_round_def todo_def)
  qed (use s'(4) in \<open>auto simp: todo_def\<close>)
  with that s' show thesis by blast
qed

lemma busy_schedule:
  assumes small: "\<And>j. first_small (prog j)"
  shows "busy prog cs s \<Longrightarrow> 2 * (length cs + length (posts evs)) < unat (sq_entries (ring s)) \<Longrightarrow>
    \<exists>s'. run_schedule os (spawn_jobs os prog) evs s = (None, s') \<and> busy prog (cs @ map prog (posts evs)) s'
      \<and> sq_entries (ring s') = sq_entries (ring s)"
proof (induction evs arbitrary: s cs)
  case (Cons ev evs)
  show ?case
  proof (cases ev)
    case None
    obtain s' where "thread_round os (spawn_jobs os prog) s = (None, s')" "busy prog cs s'" "sq_entries (ring s') = sq_entries (ring s)"
      by (rule busy_round [OF small Cons.prems(1)])
    then show ?thesis using Cons.IH [of cs s'] Cons.prems(2) None by simp
  next
    case (Some j)
    then obtain s' where s': "post os j s = (None, s')" "busy prog (cs @ [prog j]) s'" "sq_entries (ring s') = sq_entries (ring s)"
      using busy_post [OF Cons.prems(1), of j] Cons.prems(2) by auto
    have "2 * (length (cs @ [prog j]) + length (posts evs)) < unat (sq_entries (ring s'))"
      using Cons.prems(2) Some s'(3) by simp
    from Cons.IH [OF s'(2) this] s'(1,3) Some show ?thesis by auto
  qed
qed simp

lemma busy_run:
  assumes small: "\<And>j. first_small (prog j)"
  shows "busy prog cs s \<Longrightarrow>
    \<exists>N. \<forall>n \<ge> N. \<exists>s'. run_schedule os (spawn_jobs os prog) (replicate n None) s = (None, s') \<and> busy prog cs s' \<and> tasks s' = [] \<and> inbox s' = []"
proof (induction s rule: wf_induct_rule [OF wf_inv_image [OF wf_todo, of todo]])
  case (1 s)
  show ?case
  proof (cases "tasks s = [] \<and> inbox s = []")
    case True
    have "\<exists>s'. run_schedule os (spawn_jobs os prog) (replicate n None) s = (None, s') \<and> busy prog cs s' \<and> tasks s' = [] \<and> inbox s' = []"
      if "busy prog cs s" "tasks s = []" "inbox s = []" for n s
      using that
    proof (induction n arbitrary: s)
      case (Suc n)
      obtain s' where s': "thread_round os (spawn_jobs os prog) s = (None, s')" "busy prog cs s'"
        "length (tasks s') + length (inbox s') \<le> length (tasks s) + length (inbox s)"
        by (rule busy_round [OF small Suc.prems(1)])
      then show ?case using Suc.IH [of s'] Suc.prems(2,3) by simp
    qed auto
    then show ?thesis using True 1 by blast
  next
    case False
    then have "tasks s \<noteq> [] \<or> inbox s \<noteq> []" by blast
    from busy_step [OF small "1.prems" this]
    obtain s' where s': "thread_round os (spawn_jobs os prog) s = (None, s')" "busy prog cs s'" "(todo s', todo s) \<in> todo_rel"
      by blast
    then obtain N where N: "\<And>n. N \<le> n \<Longrightarrow> \<exists>s2. run_schedule os (spawn_jobs os prog) (replicate n None) s' = (None, s2) \<and> busy prog cs s2
        \<and> tasks s2 = [] \<and> inbox s2 = []"
      using "1.IH" [of s'] by (auto simp: in_inv_image)
    have "\<exists>s2. run_schedule os (spawn_jobs os prog) (replicate n None) s = (None, s2) \<and> busy prog cs s2 \<and> tasks s2 = [] \<and> inbox s2 = []"
      if n: "Suc N \<le> n" for n
    proof -
      obtain m where "n = Suc m" "N \<le> m" using n by (cases n) auto
      then show ?thesis using N [of m] s'(1) by simp
    qed
    then show ?thesis by blast
  qed
qed

lemma ctor_busy:
  assumes "Scheduler_ctor os r k0 = Inr s"
  shows "busy prog [] s" "sq_entries (ring s) = sq_entries r"
proof -
  have s: "ring s = r" "tasks s = []" "log s = []" "inbox s = []" "\<not> eventfd_armed s"
    using assms by (auto simp: Scheduler_ctor_def split: prod.splits if_splits)
  have safe: "safe infl s" using ctor_safe [OF assms fresh] .
  moreover have "attentive infl signalled s" by (rule ctor_attentive [OF assms fresh])
  moreover have "conf allowed sent s []" using interleaves.none [of 0] by (simp add: conf_def s)
  moreover have "has_capacity (ring s) 1"
    using has_capacity_1 [of r] fresh(1) default_size fresh(2) by (simp add: s ring_ok_def flip: length_sq_pending)
  ultimately show "busy prog [] s" "sq_entries (ring s) = sq_entries r" using s fresh(3) default_size by (auto simp: busy_def)
qed

lemma busy_done:
  assumes "busy prog cs s" "tasks s = []" "inbox s = []"
  obtains ps where "interleaves ps (log s)" "list_all2 (\<lambda>c p. \<exists>out. blocks allowed c p out) cs ps"
  using assms conf_done by (fastforce simp: busy_def)

lemma posted_work_done:
  assumes small: "\<And>j. first_small (prog j)" and n: "2 * length (posts evs) < unat (sq_entries r)"
    and c: "Scheduler_ctor os r k0 = Inr s0"
  shows "\<exists>N. \<forall>n \<ge> N. \<exists>s' ps. run_schedule os (spawn_jobs os prog) (evs @ replicate n None) s0 = (None, s')
    \<and> tasks s' = [] \<and> inbox s' = [] \<and> ub_flag s' = None
    \<and> interleaves ps (log s') \<and> list_all2 (\<lambda>j p. \<exists>out. blocks allowed (prog j) p out) (posts evs) ps"
proof -
  obtain s1 where s1: "run_schedule os (spawn_jobs os prog) evs s0 = (None, s1)" "busy prog (map prog (posts evs)) s1"
    using busy_schedule [of prog "[]" s0 evs, OF small ctor_busy(1) [OF c]] n ctor_busy(2) [OF c] by auto
  obtain N where N: "\<And>n. N \<le> n \<Longrightarrow> \<exists>s'. run_schedule os (spawn_jobs os prog) (replicate n None) s1 = (None, s')
      \<and> busy prog (map prog (posts evs)) s' \<and> tasks s' = [] \<and> inbox s' = []"
    using busy_run [of prog, OF small s1(2)] by blast
  have "\<exists>s' ps. run_schedule os (spawn_jobs os prog) (evs @ replicate n None) s0 = (None, s')
    \<and> tasks s' = [] \<and> inbox s' = [] \<and> ub_flag s' = None
    \<and> interleaves ps (log s') \<and> list_all2 (\<lambda>j p. \<exists>out. blocks allowed (prog j) p out) (posts evs) ps" if n: "N \<le> n" for n
  proof -
    obtain s' where s': "run_schedule os (spawn_jobs os prog) (replicate n None) s1 = (None, s')"
      "busy prog (map prog (posts evs)) s'" "tasks s' = []" "inbox s' = []" using N [OF n] by blast
    obtain ps where "interleaves ps (log s')" "list_all2 (\<lambda>c p. \<exists>out. blocks allowed c p out) (map prog (posts evs)) ps"
      by (rule busy_done [OF s'(2-4)])
    moreover have "ub_flag s' = None" using s'(2) sched_inv_calm by (fastforce simp: busy_def safe_def calm_def)
    ultimately show ?thesis using s' s1(1) by (auto simp: run_schedule_append list_all2_map1)
  qed
  then show ?thesis by blast
qed

end

section \<open>The simulated kernel wakes the loop\<close>

lemma ks_enter_wakes:
  assumes "ks_enter es mc room k = (resp, k')" "0 < room" "0 < ks_count k"
    and p: "EventfdBuf \<in># sim_uds k + mset (map sqe_user_data es)"
  shows "EventfdBuf \<in> cqe_user_data ` set (er_cqes resp)"
proof -
  let ?all = "ks_infl k @ es"
  obtain ws xs ys where r: "ks_ready k ?all = ws @ xs @ ys"
    and ws: "set ws = {e \<in> set ?all. ks_outcome k e \<noteq> None \<and> sqe_user_data e = EventfdBuf}"
    by (rule ks_ready_split)
  obtain x where "x \<in> set ?all" "sqe_user_data x = EventfdBuf" using p by (force simp: sim_uds_def)
  then have "x \<in> set ws" unfolding ws using assms(3) by (simp add: ks_outcome_def)
  then obtain w zs where w: "ws = w # zs" by (cases ws) auto
  then have "sqe_user_data w = EventfdBuf" using ws by auto
  moreover have "w \<in> set (take room (ks_ready k ?all))" using r w assms(2) by (cases room) simp_all
  ultimately show ?thesis unfolding ks_enterE(2) [OF assms(1)] by (force simp: ks_cqe_def)
qed

lemma ks_keeps_signal:
  assumes "ks_enter es mc room k = (resp, k')" "0 < ks_count k" "EventfdBuf \<notin> cqe_user_data ` set (er_cqes resp)"
  shows "0 < ks_count k'"
  using ks_enterE(4) [OF assms(1)] assms(2,3) by simp

interpretation sim: eventfd_kernel sim_os sim_uds "\<lambda>k. 0 < ks_count k"
proof unfold_locales
  fix es mc room k resp k' assume "os_enter sim_os es mc room k = (resp, k')" "0 < ks_count k"
    "EventfdBuf \<notin> cqe_user_data ` set (er_cqes resp)"
  then show "0 < ks_count k'" using ks_keeps_signal by (simp add: sim_os_def)
qed (auto simp: sim_os_def)

interpretation reply: waking_bed "reply_os g" sim_uds ks_count "\<lambda>k. set (ks_infl k)" "reply_allowed g" "fresh_ring 8" sim0
  "\<lambda>k. 0 < ks_count k" "\<lambda>k. 0" for g
proof unfold_locales
  fix es mc room k resp k' assume e: "os_enter (reply_os g) es mc room k = (resp, k')"
  let ?k = "k\<lparr>ks_answer := (\<lambda>e. Some (g e))\<rparr>"
  have e': "ks_enter es mc room ?k = (resp, k')" using e by (simp add: reply_os_def)
  show "0 < ks_count k'" if "0 < ks_count k" "EventfdBuf \<notin> cqe_user_data ` set (er_cqes resp)"
    using ks_keeps_signal [OF e'] that by simp
  show "EventfdBuf \<in> cqe_user_data ` set (er_cqes resp) \<or> (0::nat) < 0"
    if "0 < room" "0 < ks_count k" "EventfdBuf \<in># sim_uds k + mset (map sqe_user_data es)"
    using ks_enter_wakes [OF e'] that by (simp add: sim_uds_def)
qed (auto simp: reply_os_def sim_os_def)

section \<open>Properties\<close>

text \<open>
  C12: No wake-up is lost within the limits. After spawns, posts, drains, reaps and the start of a
  shutdown, in any order, as long as no \<open>spawn\<close> has thrown after it resumed its task, no \<open>drain\<close> was
  entered with the eventfd read unarmed and the ring full, and the posted callables keep the invariant,
  throw nothing but I/O errors, leave the eventfd read alone and signal the eventfd when they add to
  the inbox (as those do that spawn a body whose first operation has no deadline): a non-empty inbox has its wake-up on the way, a signalled eventfd or the completion of its
  read waiting in the ring, and exactly one read of the eventfd is queued or in flight when the
  scheduler believes it has armed one, and none otherwise, so that a signalled eventfd is read.
\<close>

theorem no_lost_wakeup:
  assumes "eventfd_kernel os infl signalled" "jobs_ok infl invoke" "jobs_wake signalled invoke"
    and "Scheduler_ctor os r k = Inr s0" "ring_ok r" "sq_pending r = []" "cq_ready r = []" "infl k = {#}"
    and "reach os invoke s0 True s"
  shows "(inbox s = [] \<or> signalled (kst s) \<or> EventfdBuf \<in> cqe_user_data ` set (cq_ready (ring s)))
    \<and> count (sq_uds (ring s) + live_q infl s) EventfdBuf = (if eventfd_armed s then 1 else 0)"
proof -
  from assms(1) have k: "uring_kernel os infl" by (simp add: eventfd_kernel_def)
  have "attentive infl signalled s"
    by (rule eventfd_kernel.reach_attentive [OF assms(1-3,9) uring_kernel.ctor_safe [OF k assms(4-8)]
          eventfd_kernel.ctor_attentive [OF assms(1,4-8)] TrueI])
  then show ?thesis by (auto simp: attentive_def wake_ready_def reads_out_def)
qed

theorem no_lost_wakeup_witness:
  "ks_count (kst (snd (post sim_os 7 (sched_on 1)))) > 0 \<and> \<not> eventfd_armed (snd (post sim_os 7 (sched_on 1)))"
proof -
  let ?s = "snd (post sim_os 7 (sched_on 1))" and ?invoke = "spawn_jobs sim_os (\<lambda>j. recv_body)"
  have jobs: "jobs_ok sim_uds ?invoke" "jobs_wake (\<lambda>k. 0 < ks_count k) ?invoke"
    unfolding spawn_jobs_def by (rule spawn_jobs_ok spawn_jobs_wake; simp add: recv_body_def)+
  have "reach sim_os ?invoke (sched_on 1) True ?s" by (rule reach.post [OF reach.start])
  from no_lost_wakeup [OF sim.eventfd_kernel_axioms jobs sched_on _ _ _ _ this] ring_ok_fresh [of 1]
  show ?thesis by (simp add: sched_on_def Scheduler_ctor_def post_def poke_eventfd_def sim_os_def sim_uds_def sim0_def)
qed

text \<open>
  C11: Posted work is done, within bounds. A scheduler is created on a new ring and jobs are posted at any
  moments between the rounds of its loop, fewer than half the ring's entries in all, each of which
  spawns a task whose first awaited operation has no deadline; the kernel completes what it is given
  and wakes a signalled eventfd. Then after finitely many further rounds, and from
  then on, no exception has left the loop, the inbox and the task list are empty, and what has
  happened is an interleaving of one complete blocking run of every job's task, each job exactly once.
\<close>

theorem posted_jobs_run:
  assumes "waking_bed os infl delay sent allowed r k0 signalled latency" "\<And>j. first_small (prog j)"
    and "2 * length (posts evs) < unat (sq_entries r)" "Scheduler_ctor os r k0 = Inr s0"
  shows "\<exists>N. \<forall>n \<ge> N. \<exists>s' ps. run_schedule os (spawn_jobs os prog) (evs @ replicate n None) s0 = (None, s')
    \<and> tasks s' = [] \<and> inbox s' = [] \<and> ub_flag s' = None
    \<and> interleaves ps (log s') \<and> list_all2 (\<lambda>j p. \<exists>out. blocks allowed (prog j) p out) (posts evs) ps"
  by (rule waking_bed.posted_work_done [OF assms])

theorem posted_jobs_run_witness:
  "\<exists>n s'. run_schedule prompt_os (spawn_jobs prompt_os (\<lambda>j. recv_body)) ([Some 1, None, Some 2] @ replicate n None) (prompt_on 8)
     = (None, s') \<and> log s' = [(''got'', 5), (''got'', 5)]"
proof -
  let ?evs = "[Some 1, None, Some 2] :: nat option list"
  have small: "first_small recv_body" by (simp add: recv_body_def)
  have n: "2 * length (posts ?evs) < unat (sq_entries (fresh_ring 8))" by simp
  obtain n s' ps where s': "run_schedule prompt_os (spawn_jobs prompt_os (\<lambda>j. recv_body)) (?evs @ replicate n None) (prompt_on 8) = (None, s')"
    "interleaves ps (log s')" "list_all2 (\<lambda>j p. \<exists>out. blocks (reply_allowed (\<lambda>e. 5)) recv_body p out) (posts ?evs) ps"
    using posted_jobs_run [OF reply.waking_bed_axioms [of "\<lambda>e. 5"] small n prompt_on] by blast
  then have "ps = [[(''got'', 5)], [(''got'', 5)]]"
    by (auto simp: list_all2_Cons1 reply_allowed_const blocks_simps recv_body_def)
  then have "log s' = [(''got'', 5), (''got'', 5)]" using interleaves_same [OF s'(2), of "(''got'', 5)"] by simp
  then show ?thesis using s'(1) by blast
qed

end
