(* ===== verification/Handoff.thy ===== *)
theory Handoff
  imports Posting
begin

text \<open>
  A running \<open>Runtime\<close>: the dispatcher's thread and the threads of the workers make their rounds in any
  order while clients post jobs. A job posted to the runtime goes through the dispatcher's inbox, the
  inbox of the worker whose turn it is and \<open>spawn\<close> on that worker. The theorem is that every job gets
  through all of it: each worker runs exactly its share of the jobs, each job once, to its end.
\<close>

section \<open>Schedules\<close>

datatype 'j rt_event = RtPost 'j | DispatcherRound | WorkerRound nat

definition worker_round :: "'k os \<Rightarrow> ('j wjob, 'k) invoke \<Rightarrow> nat \<Rightarrow> ('j, 'k) runtime \<Rightarrow> exn option \<times> ('j, 'k) runtime" where
  "worker_round os invoke i rt =
     (let d = dispatcher rt; ws = workers (kst d)
      in if length ws \<le> i then (None, rt)
         else case thread_round os invoke (ws ! i) of
           (e, w) \<Rightarrow> (e, rt\<lparr>dispatcher := d\<lparr>kst := (kst d)\<lparr>workers := ws[i := w]\<rparr>\<rparr>\<rparr>))"

definition dispatcher_round :: "'k os \<Rightarrow> ('j, 'k) runtime \<Rightarrow> exn option \<times> ('j, 'k) runtime" where
  "dispatcher_round os rt =
     (case thread_round (disp_os os) (dispatch os) (dispatcher rt) of (e, d) \<Rightarrow> (e, rt\<lparr>dispatcher := d\<rparr>))"

fun rt_step :: "'k os \<Rightarrow> ('j wjob, 'k) invoke \<Rightarrow> 'j rt_event \<Rightarrow> ('j, 'k) runtime \<Rightarrow> exn option \<times> ('j, 'k) runtime" where
  "rt_step os invoke (RtPost j) rt = Runtime_post os j rt"
| "rt_step os invoke DispatcherRound rt = dispatcher_round os rt"
| "rt_step os invoke (WorkerRound i) rt = worker_round os invoke i rt"

fun rt_run :: "'k os \<Rightarrow> ('j wjob, 'k) invoke \<Rightarrow> 'j rt_event list \<Rightarrow> ('j, 'k) runtime \<Rightarrow> exn option \<times> ('j, 'k) runtime" where
  "rt_run os invoke [] rt = (None, rt)"
| "rt_run os invoke (ev # evs) rt =
     (case rt_step os invoke ev rt of (Some e, rt') \<Rightarrow> (Some e, rt') | (None, rt') \<Rightarrow> rt_run os invoke evs rt')"

primrec rt_posts :: "'j rt_event list \<Rightarrow> 'j list" where
  "rt_posts [] = []"
| "rt_posts (ev # evs) = (case ev of RtPost j \<Rightarrow> [j] | _ \<Rightarrow> []) @ rt_posts evs"

text \<open>Every thread makes one round.\<close>

definition sweep :: "nat \<Rightarrow> 'j rt_event list" where
  "sweep n = DispatcherRound # map WorkerRound [0..<n]"

definition sweeps :: "nat \<Rightarrow> nat \<Rightarrow> 'j rt_event list" where
  "sweeps m n = concat (replicate m (sweep n))"

lemma rt_run_append:
  "rt_run os invoke (evs @ evs') rt =
     (case rt_run os invoke evs rt of (None, rt') \<Rightarrow> rt_run os invoke evs' rt' | (Some e, rt') \<Rightarrow> (Some e, rt'))"
  by (induction evs arbitrary: rt) (auto split: prod.split option.split)

lemma sweeps_Suc: "sweeps (Suc m) n = sweep n @ sweeps m n"
  by (simp add: sweeps_def)

lemma sweeps_add: "sweeps (m + m') n = sweeps m n @ sweeps m' n"
  by (simp add: sweeps_def replicate_add)

section \<open>Shares\<close>

lemma share_append: "share c n i (xs @ ys) = share c n i xs @ share (c + word_of_nat (length xs)) n i ys"
  by (induction xs arbitrary: c) (simp_all add: algebra_simps)

lemma share_take_Suc:
  "m < length js \<Longrightarrow> share 0 n i (take (Suc m) js) = share 0 n i (take m js) @ share (word_of_nat m) n i [js ! m]"
  by (simp add: take_Suc_conv_app_nth share_append del: share.simps(2))

lemma length_share_take: "length (share c n i (take m js)) \<le> length (share c n i js)"
proof -
  have "share c n i js = share c n i (take m js @ drop m js)" by simp
  then show ?thesis by (simp only: share_append length_append)
qed

section \<open>Workers\<close>

lemma make_workers_nth:
  "make_workers os rings = Inr ws \<Longrightarrow> length ws = length rings \<and> (\<forall>i < length rings. Scheduler_ctor os (fst (rings ! i)) (snd (rings ! i)) = Inr (ws ! i))"
proof (induction rings arbitrary: ws)
  case (Cons x rings)
  obtain r1 k1 where x: "x = (r1, k1)" by fastforce
  then obtain w ws' where "ws = w # ws'" "Scheduler_ctor os r1 k1 = Inr w" "make_workers os rings = Inr ws'"
    using Cons.prems by (auto split: sum.splits)
  then show ?case using Cons.IH [of ws'] x by (auto simp: nth_Cons split: nat.split)
qed simp

text \<open>A scheduler that has run the bodies \<open>cs\<close> to their ends and has nothing left to do.\<close>

definition ran_all :: "answers \<Rightarrow> co list \<Rightarrow> ('j, 'k) sched \<Rightarrow> bool" where
  "ran_all allowed cs s \<longleftrightarrow> tasks s = [] \<and> inbox s = [] \<and> ub_flag s = None
     \<and> (\<exists>ps. interleaves ps (log s) \<and> list_all2 (\<lambda>c p. \<exists>out. blocks allowed c p out) cs ps)"

lemma rt_run_fields:
  "rt_run os invoke evs rt = (e, rt') \<Longrightarrow> rt_st rt' = rt_st rt \<and> dispatcher_runner rt' = dispatcher_runner rt \<and> worker_runners rt' = worker_runners rt"
proof (induction evs arbitrary: rt)
  case (Cons ev evs)
  obtain e1 rt1 where r: "rt_step os invoke ev rt = (e1, rt1)" by fastforce
  then have "rt_st rt1 = rt_st rt \<and> dispatcher_runner rt1 = dispatcher_runner rt \<and> worker_runners rt1 = worker_runners rt"
    by (cases ev) (auto simp: Runtime_post_def dispatcher_round_def worker_round_def Let_def split: prod.splits if_splits)
  then show ?case using Cons.IH [of rt1] Cons.prems r by (auto split: option.splits)
qed simp

lemma eventually_all: "(\<And>i. i < (n::nat) \<Longrightarrow> \<exists>N. \<forall>m \<ge> N. P i m) \<Longrightarrow> \<exists>N :: nat. \<forall>m \<ge> N. \<forall>i < n. P i m"
proof (induction n)
  case (Suc n)
  obtain N where N: "\<forall>m \<ge> N. \<forall>i < n. P i m" using Suc.IH Suc.prems by (meson less_SucI)
  obtain N' where N': "\<forall>m \<ge> N'. P n m" using Suc.prems [of n] by blast
  have "\<forall>m \<ge> max N N'. \<forall>i < Suc n. P i m" using N N' less_Suc_eq by auto
  then show ?case by blast
qed simp

section \<open>The dispatcher's kernel\<close>

lemma disp_waking:
  assumes "waking_kernel os infl signalled latency"
  shows "waking_kernel (disp_os os) (\<lambda>w. infl (wd_kernel w)) (\<lambda>w. signalled (wd_kernel w)) (\<lambda>w. latency (wd_kernel w))"
proof (intro waking_kernel.intro eventfd_kernel.intro disp_kernel eventfd_kernel_axioms.intro waking_kernel_axioms.intro)
  have ek: "eventfd_kernel os infl signalled" using assms by (rule waking_kernel.axioms(1))
  then show "uring_kernel os infl" by (rule eventfd_kernel.axioms(1))
  fix fd ok and w w' :: "('b, 'a) world"
  show "signalled (wd_kernel w')" if "os_write (disp_os os) fd w = (ok, w')"
    using that eventfd_kernel.write_signals [OF ek] by (auto simp: disp_os_def split: prod.splits)
  show "fst (os_write (disp_os os) fd w)"
    using waking_kernel.write_ok [OF assms, of fd "wd_kernel w"] by (simp add: disp_os_def split_beta)
  fix es mc room resp assume e: "os_enter (disp_os os) es mc room w = (resp, w')"
  obtain k' where k: "os_enter os es mc room (wd_kernel w) = (resp, k')" "w' = w\<lparr>wd_kernel := k'\<rparr>" using disp_enter [OF e] .
  show "signalled (wd_kernel w')" if "signalled (wd_kernel w)" "EventfdBuf \<notin> cqe_user_data ` set (er_cqes resp)"
    using eventfd_kernel.enter_keeps_signal [OF ek k(1)] that k(2) by simp
  show "EventfdBuf \<in> cqe_user_data ` set (er_cqes resp) \<or> latency (wd_kernel w') < latency (wd_kernel w)"
    if "0 < room" "signalled (wd_kernel w)" "EventfdBuf \<in># infl (wd_kernel w) + mset (map sqe_user_data es)"
    using waking_kernel.enter_wakes [OF assms k(1)] that k(2) by simp
qed

text \<open>The dispatched callable, where there are workers.\<close>

definition dispatch_if :: "'k os \<Rightarrow> ('j, ('j, 'k) world) invoke" where
  "dispatch_if os j s = (if workers (kst s) = [] then (None, s) else dispatch os j s)"

lemma dispatch_if_shape:
  obtains w' where "snd (dispatch_if os j s) = s\<lparr>kst := w'\<rparr>" "wd_kernel w' = wd_kernel (kst s)"
    "fst (dispatch_if os j s) = None \<or> fst (dispatch_if os j s) = Some (IOExc EventFdWriteFailed)"
    "workers w' = [] \<longleftrightarrow> workers (kst s) = []"
proof (cases "workers (kst s) = []")
  case True
  then show ?thesis using that [of "kst s"] by (simp add: dispatch_if_def)
next
  case False
  let ?i = "unat (next_worker (kst s)) mod length (workers (kst s))"
  show ?thesis
    using that [of "(kst s)\<lparr>next_worker := next_worker (kst s) + 1, workers := (workers (kst s))[?i := snd (post os (j, ?i) (workers (kst s) ! ?i))]\<rparr>"]
      False post_no_user_exn [of os "(j, ?i)"]
    by (simp add: dispatch_if_def dispatch_def Let_def split_beta)
qed

lemma dispatch_if_jobs:
  fixes os :: "'k os"
  shows "jobs_ok (\<lambda>w. infl (wd_kernel w)) (dispatch_if os :: ('j, ('j, 'k) world) invoke)"
    "jobs_wake (\<lambda>w. signalled (wd_kernel w)) (dispatch_if os :: ('j, ('j, 'k) world) invoke)"
proof -
  have "keeps_safe (\<lambda>w. infl (wd_kernel w)) s (snd (dispatch_if os j s))" for j and s :: "('j, ('j, 'k) world) sched"
    by (rule dispatch_if_shape [of os j s])
       (auto simp: keeps_safe_def same_loop_def elim!: sched_inv_cong [rotated 7])
  then show "jobs_ok (\<lambda>w. infl (wd_kernel w)) (dispatch_if os :: ('j, ('j, 'k) world) invoke)" by (simp add: jobs_ok_def)
  have "(\<forall>x. fst (dispatch_if os j s) \<noteq> Some (UserExc x)) \<and> heeds (\<lambda>w. signalled (wd_kernel w)) s (snd (dispatch_if os j s))"
    for j and s :: "('j, ('j, 'k) world) sched"
    by (rule dispatch_if_shape [of os j s]) (auto simp: heeds_def)
  then show "jobs_wake (\<lambda>w. signalled (wd_kernel w)) (dispatch_if os :: ('j, ('j, 'k) world) invoke)" by (simp add: jobs_wake_def)
qed

lemma drain_local_if:
  "workers (kst s) \<noteq> [] \<Longrightarrow> drain_local (disp_os os) (dispatch os) js s = drain_local (disp_os os) (dispatch_if os) js s
     \<and> workers (kst (snd (drain_local (disp_os os) (dispatch_if os) js s))) \<noteq> []"
proof (induction js arbitrary: s)
  case (Cons j js)
  obtain w' where w': "snd (dispatch_if os j s) = s\<lparr>kst := w'\<rparr>" "workers w' = [] \<longleftrightarrow> workers (kst s) = []"
      "fst (dispatch_if os j s) = None \<or> fst (dispatch_if os j s) = Some (IOExc EventFdWriteFailed)"
    by (rule dispatch_if_shape)
  have "dispatch os j s = dispatch_if os j s" using Cons.prems by (simp add: dispatch_if_def)
  moreover obtain e s1 where d: "dispatch_if os j s = (e, s1)" by fastforce
  ultimately show ?case using Cons.IH [of s1] w' Cons.prems by auto
qed simp

lemma process_cqe_if:
  assumes "workers (kst s) \<noteq> []" "safe (\<lambda>w. infl (wd_kernel w)) s" "c \<in> set (cq_ready (ring s))"
  shows "process_cqe (disp_os os) (dispatch os) c s = process_cqe (disp_os os) (dispatch_if os) c s"
    "process_cqe (disp_os os) (dispatch_if os) c s = (e, s1) \<Longrightarrow> workers (kst s1) \<noteq> []"
proof -
  show "process_cqe (disp_os os) (dispatch os) c s = process_cqe (disp_os os) (dispatch_if os) c s"
    using drain_local_if [of "s\<lparr>eventfd_armed := False, inbox := []\<rparr>" os "inbox s"] assms(1)
    by (simp add: process_cqe_def drain_inbox_def)
  let ?q = "live_q (\<lambda>w. infl (wd_kernel w)) s"
  have "cqe_user_data c \<in># ?q" using assms(3) by (auto simp: live_q_def)
  then have "sched_inv (add_mset (cqe_user_data c) (?q - {#cqe_user_data c#})) s" using assms(2) by (simp add: safe_def)
  then have "kst (deliver a (cqe_res c) s) = kst s" if "cqe_user_data c = AwPtr a" for a
    using deliver_frame [of a _ s "cqe_res c"] that by auto
  then show "workers (kst s1) \<noteq> []" if "process_cqe (disp_os os) (dispatch_if os) c s = (e, s1)"
    using that drain_local_if [of "s\<lparr>eventfd_armed := False, inbox := []\<rparr>" os "inbox s"] assms(1)
    by (auto simp: process_cqe_def drain_inbox_def set_ub_def split: ptr.splits if_splits)
qed

lemma drain_dispatch_if:
  assumes uk: "uring_kernel os infl" and safe: "safe (\<lambda>w. infl (wd_kernel w)) d"
    and slot: "eventfd_armed d \<or> has_capacity (ring d) 1" and ws: "workers (kst d) \<noteq> []"
  shows "drain (disp_os os) (dispatch os) d = drain (disp_os os) (dispatch_if os) d"
proof -
  let ?infl = "\<lambda>w. infl (wd_kernel w)"
  note dk = disp_kernel [OF uk]
  let ?s0 = "if \<not> eventfd_armed d then arm_eventfd_read d else d"
  let ?s1 = "io_uring_enter (disp_os os) (sq_tail (ring ?s0) - sq_head (ring ?s0)) (if shutting_down ?s0 then 0 else 1) ?s0"
  have "safe ?infl ?s1" by (rule uring_kernel.enter_safe [OF dk armed_safe [OF safe slot]])
  moreover have "workers (kst ?s1) \<noteq> []"
    using ws by (simp add: io_uring_enter_def Let_def disp_os_def arm_stages split_beta)
  ultimately have "drain_cqes (disp_os os) (dispatch os) (cq_mask (ring ?s1)) (cq_head (ring ?s1)) (cq_tail (ring ?s1)) ?s1
      = drain_cqes (disp_os os) (dispatch_if os) (cq_mask (ring ?s1)) (cq_head (ring ?s1)) (cq_tail (ring ?s1)) ?s1"
    by (rule uring_kernel.drain_cqes_agree [OF dk dispatch_if_jobs(1), where P = "\<lambda>s. workers (kst s) \<noteq> []"])
       (rule process_cqe_if(1) [where infl = infl], assumption+, simp, rule process_cqe_if(2) [where infl = infl])
  then show ?thesis by (simp add: drain_def Let_def)
qed

section \<open>Stopping a scheduler that has started everything\<close>

context waking_bed
begin

text \<open>A scheduler that has started all it was given.\<close>

definition started :: "('j \<Rightarrow> co) \<Rightarrow> co list \<Rightarrow> ('j, 'k) sched \<Rightarrow> bool" where
  "started prog cs s \<longleftrightarrow> busy prog cs s \<and> inbox s = []"

lemma started_join:
  assumes small: "\<And>j. first_small (prog j)"
  shows "started prog cs s \<Longrightarrow> \<exists>s'. join os (spawn_jobs os prog) n running s = Some (None, s') \<and> started prog cs s'"
proof (cases running)
  case True
  have "started prog cs s \<Longrightarrow> \<exists>s'. Scheduler_run os (spawn_jobs os prog) (replicate n False @ [True]) s = Some (None, s') \<and> started prog cs s'"
  proof (induction n arbitrary: s)
    case (Suc n)
    then have b: "busy prog cs s" "inbox s = []" by (simp_all add: started_def)
    obtain s' where s': "thread_round os (spawn_jobs os prog) s = (None, s')" "busy prog cs s'" "inbox s = [] \<longrightarrow> inbox s' = []"
      by (rule busy_round [OF small b(1)])
    then obtain s1 where "drain os (spawn_jobs os prog) s = (None, s1)" "s' = reap s1"
      by (auto simp: thread_round_def split: prod.splits option.splits)
    moreover have "started prog cs s'" using s' b by (simp add: started_def)
    ultimately show ?case using Suc.IH [of s'] by simp
  qed simp
  then show "started prog cs s \<Longrightarrow> ?thesis" using True by (simp add: join_def)
qed (simp add: join_def)

lemma started_stop:
  assumes small: "\<And>j. first_small (prog j)" and s: "started prog cs s"
  shows "\<exists>s'. stop_and_join os (spawn_jobs os prog) n running s = Some (None, s') \<and> ran_all allowed cs s'"
proof -
  have "started prog cs (request_stop os running s)"
  proof -
    obtain ok s1 where p: "poke_eventfd os (s\<lparr>inbox := inbox s\<rparr>) = (ok, s1)" by fastforce
    have "ok \<and> busy prog cs s1 \<and> inbox s1 = inbox s"
      by (rule busy_poke [OF _ p]) (use s in \<open>auto simp: started_def busy_def\<close>)
    then show ?thesis using p s by (simp add: request_stop_def started_def)
  qed
  from started_join [of prog, OF small this] obtain s1 where
    s1: "join os (spawn_jobs os prog) n running (request_stop os running s) = Some (None, s1)" "started prog cs s1" by blast
  then have f: "idle_ok s1" "busy prog cs s1" "inbox s1 = []" using busy_idle by (auto simp: started_def)
  then obtain ts where ts: "conf allowed sent s1 ts" "map th_body ts = cs" by (auto simp: busy_def)
  obtain s' ts' where s': "shutdown os (spawn_jobs os prog) s1 = Some (None, s')" "tasks s' = []" "safe infl s'"
    "conf allowed sent s' ts'" "map th_body ts' = cs" "inbox s' = []"
    using shutdown_conf [OF f(1) ts(1)] ts(2) by metis
  have "ub_flag s' = None" using s'(3) sched_inv_calm by (fastforce simp: safe_def calm_def)
  moreover have "\<exists>ps. interleaves ps (log s') \<and> list_all2 (\<lambda>c p. \<exists>out. blocks allowed c p out) cs ps"
    using conf_done [OF s'(4,2)] s'(5) by metis
  ultimately show ?thesis using s1(1) s' by (simp add: stop_and_join_def ran_all_def)
qed

end

section \<open>Handing over\<close>

text \<open>A runtime on new rings: the dispatcher's, and one for each worker.\<close>

locale runtime_bed = waking_bed os infl delay sent allowed r k0 signalled latency
  for os :: "'k os" and infl and delay and sent and allowed and r and k0 and signalled and latency +
  fixes rings :: "(ring \<times> 'k) list"
  assumes some_worker: "rings \<noteq> []"
    and worker_beds: "(r', k') \<in> set rings \<Longrightarrow> waking_bed os infl delay sent allowed r' k' signalled latency"
begin

abbreviation dinfl :: "('j, 'k) world \<Rightarrow> ptr multiset" where
  "dinfl w \<equiv> infl (wd_kernel w)"

abbreviation dsignalled :: "('j, 'k) world \<Rightarrow> bool" where
  "dsignalled w \<equiv> signalled (wd_kernel w)"

abbreviation wshare :: "nat \<Rightarrow> 'j list \<Rightarrow> 'j wjob list" where
  "wshare i js \<equiv> share 0 (length rings) i js"

text \<open>There is room for the share of each worker.\<close>

definition roomy :: "'j list \<Rightarrow> bool" where
  "roomy js \<longleftrightarrow> (\<forall>i < length rings. 2 * length (wshare i js) < unat (sq_entries (fst (rings ! i))))"

text \<open>Worker \<open>i\<close> has been given its share of the first \<open>m\<close> jobs.\<close>

definition given :: "('j wjob \<Rightarrow> co) \<Rightarrow> 'j list \<Rightarrow> nat \<Rightarrow> nat \<Rightarrow> ('j wjob, 'k) sched \<Rightarrow> bool" where
  "given prog js m i w \<longleftrightarrow> busy prog (map prog (wshare i (take m js))) w \<and> sq_entries (ring w) = sq_entries (fst (rings ! i))"

definition handed :: "('j wjob \<Rightarrow> co) \<Rightarrow> 'j list \<Rightarrow> nat \<Rightarrow> ('j, 'k) world \<Rightarrow> bool" where
  "handed prog js m wd \<longleftrightarrow> m \<le> length js \<and> next_worker wd = word_of_nat m \<and> length (workers wd) = length rings
     \<and> (\<forall>i < length rings. given prog js m i (workers wd ! i))"

lemma handed_ws: "handed prog js m wd \<Longrightarrow> workers wd \<noteq> []"
  using some_worker by (auto simp: handed_def)

lemma dispatch_handed:
  assumes "handed prog js m (kst d)" "roomy js" "m < length js"
  obtains wd where "dispatch_if os (js ! m) d = (None, d\<lparr>kst := wd\<rparr>)" "handed prog js (Suc m) wd" "wd_kernel wd = wd_kernel (kst d)"
proof -
  let ?wd = "kst d" and ?n = "length rings"
  let ?i = "unat (word_of_nat m :: u64) mod length rings" and ?j = "js ! m"
  have f: "next_worker ?wd = word_of_nat m" "length (workers ?wd) = ?n" "\<And>i. i < ?n \<Longrightarrow> given prog js m i (workers ?wd ! i)"
    using assms(1) by (simp_all add: handed_def)
  have i: "?i < ?n" using some_worker by simp
  let ?w = "workers ?wd ! ?i"
  have sh: "wshare i (take (Suc m) js) = wshare i (take m js) @ (if i = ?i then [(?j, ?i)] else [])" for i
    by (simp add: share_take_Suc [OF assms(3)])
  have w: "busy prog (map prog (wshare ?i (take m js))) ?w" "sq_entries (ring ?w) = sq_entries (fst (rings ! ?i))"
    using f(3) [OF i] by (simp_all add: given_def)
  have "length (wshare ?i (take (Suc m) js)) \<le> length (wshare ?i js)" by (rule length_share_take)
  then have "2 * Suc (length (map prog (wshare ?i (take m js)))) < unat (sq_entries (ring ?w))"
    using assms(2) i w(2) unfolding roomy_def sh by fastforce
  from busy_post [OF w(1) this, of "(?j, ?i)"] obtain w' where
    w': "post os (?j, ?i) ?w = (None, w')" "busy prog (map prog (wshare ?i (take m js)) @ [prog (?j, ?i)]) w'"
      "sq_entries (ring w') = sq_entries (ring ?w)" by blast
  let ?wd' = "?wd\<lparr>next_worker := next_worker ?wd + 1, workers := (workers ?wd)[?i := w']\<rparr>"
  have "dispatch_if os ?j d = (None, d\<lparr>kst := ?wd'\<rparr>)"
    using handed_ws [OF assms(1)] f(1,2) w'(1) by (simp add: dispatch_if_def dispatch_def Let_def)
  moreover have "given prog js (Suc m) i' (workers ?wd' ! i')" if "i' < ?n" for i'
    using f(2,3) that w'(2,3) w(2) i by (auto simp: given_def sh nth_list_update)
  then have "handed prog js (Suc m) ?wd'" using assms(3) f by (simp add: handed_def add.commute)
  ultimately show thesis using that by simp
qed

lemma drain_local_handed:
  assumes "handed prog js m (kst d)" "roomy js"
  shows "\<exists>wd. drain_local (disp_os os) (dispatch_if os) (drop m js) d = (None, d\<lparr>kst := wd\<rparr>) \<and> handed prog js (length js) wd
    \<and> wd_kernel wd = wd_kernel (kst d) \<and> (m = length js \<longrightarrow> wd = kst d)"
  using assms(1)
proof (induction "length js - m" arbitrary: m d)
  case 0
  then have "m = length js" by (simp add: handed_def)
  then show ?case using 0 by (intro exI [of _ "kst d"]) simp
next
  case (Suc n)
  then have m: "m < length js" "drop m js = js ! m # drop (Suc m) js" by (simp_all add: Cons_nth_drop_Suc)
  obtain wd where wd: "dispatch_if os (js ! m) d = (None, d\<lparr>kst := wd\<rparr>)" "handed prog js (Suc m) wd" "wd_kernel wd = wd_kernel (kst d)"
    by (rule dispatch_handed [OF Suc.prems assms(2) m(1)])
  have "n = length js - Suc m" using Suc.hyps(2) by simp
  from Suc.hyps(1) [OF this, of "d\<lparr>kst := wd\<rparr>"] wd m show ?case by auto
qed

text \<open>The dispatcher between two rounds: it has handed over \<open>m\<close> jobs, the others are in its inbox.\<close>

definition tending :: "('j wjob \<Rightarrow> co) \<Rightarrow> 'j list \<Rightarrow> nat \<Rightarrow> ('j, ('j, 'k) world) sched \<Rightarrow> bool" where
  "tending prog js m d \<longleftrightarrow> safe dinfl d \<and> attentive dinfl dsignalled d \<and> tasks d = [] \<and> cq_ready (ring d) = []
     \<and> (eventfd_armed d \<or> has_capacity (ring d) 1) \<and> inbox d = drop m js \<and> handed prog js m (kst d)"

text \<open>While it processes completions: \<open>full\<close> says that all had been handed over to the workers \<open>ws\<close> before.\<close>

definition handing :: "('j wjob \<Rightarrow> co) \<Rightarrow> 'j list \<Rightarrow> 'k \<Rightarrow> bool \<Rightarrow> ('j wjob, 'k) sched list \<Rightarrow> bool \<Rightarrow> ('j, ('j, 'k) world) sched \<Rightarrow> bool" where
  "handing prog js k full ws w s \<longleftrightarrow> wd_kernel (kst s) = k \<and> tasks s = [] \<and> sq_len (ring s) = 0
     \<and> (\<exists>m. inbox s = drop m js \<and> handed prog js m (kst s)) \<and> (full \<longrightarrow> workers (kst s) = ws \<and> inbox s = [])
     \<and> (w \<longrightarrow> inbox s = [] \<or> wake_ready s)"

lemma handing_step:
  assumes room: "roomy js" and safe: "safe dinfl s" and h: "handing prog js k full ws w s"
    and c: "cq_ready (ring s) = c # cs" and p: "process_cqe (disp_os os) (dispatch_if os) c s = (e, s1)"
    and adv: "cq_ready (cq_advance (ring s1)) = cs"
  shows "e = None \<and> handing prog js k full ws w (s1\<lparr>ring := cq_advance (ring s1)\<rparr>)"
proof -
  obtain m where m: "inbox s = drop m js" "handed prog js m (kst s)" using h by (auto simp: handing_def)
  have len: "sq_len (cq_advance r') = sq_len r'" for r' by (simp add: cq_advance_def)
  show ?thesis
  proof (cases "cqe_user_data c = EventfdBuf")
    case True
    let ?s0 = "s\<lparr>eventfd_armed := False, inbox := []\<rparr>"
    obtain wd where wd: "drain_local (disp_os os) (dispatch_if os) (drop m js) ?s0 = (None, ?s0\<lparr>kst := wd\<rparr>)"
      "handed prog js (length js) wd" "wd_kernel wd = wd_kernel (kst s)" "m = length js \<longrightarrow> wd = kst s"
      using drain_local_handed [of prog js m ?s0, OF _ room] m(2) by auto
    then have s1: "e = None" "s1 = ?s0\<lparr>kst := wd\<rparr>" using p True m(1) by (simp_all add: process_cqe_def drain_inbox_def)
    moreover have "m = length js" if full using that h m by (simp add: handing_def handed_def)
    ultimately show ?thesis using h wd len by (auto simp: handing_def)
  next
    case False
    have "ops_in (c # cs) = 0" using ops_le_tasks [OF safe] h c by (simp add: handing_def)
    then have "\<not> is_aw (cqe_user_data c)" by (auto simp: ops_in_def split: if_splits)
    moreover have "cqe_user_data c \<in># live_q dinfl s" by (simp add: live_q_def c)
    then have "sched_inv (add_mset (cqe_user_data c) (live_q dinfl s - {#cqe_user_data c#})) s" using safe by (simp add: safe_def)
    ultimately have "cqe_user_data c = NullPtr"
      using False by (cases "cqe_user_data c") (auto simp: sched_inv_def outstanding_def)
    then have s1: "e = None" "s1 = s" using p by (simp_all add: process_cqe_def)
    moreover have "wake_ready (s\<lparr>ring := cq_advance (ring s)\<rparr>) = wake_ready s" using False c adv s1(2) by (auto simp: wake_ready_def)
    ultimately show ?thesis using h m len by (auto simp: handing_def)
  qed
qed

lemma disp_round:
  assumes room: "roomy js" and t: "tending prog js m d"
  obtains d' m' where "thread_round (disp_os os) (dispatch os) d = (None, d')" "tending prog js m' d'"
    "m = length js \<longrightarrow> m' = m \<and> workers (kst d') = workers (kst d)"
    "m' = length js \<or> latency (wd_kernel (kst d')) < latency (wd_kernel (kst d))"
proof -
  note pk = disp_progressing [OF progressing_kernel_axioms] and wk = disp_waking [OF waking_kernel_axioms]
  note ek = wk [THEN waking_kernel.axioms(1)]
  have f: "safe dinfl d" "attentive dinfl dsignalled d" "tasks d = []" "cq_ready (ring d) = []"
    "eventfd_armed d \<or> has_capacity (ring d) 1" "inbox d = drop m js" "handed prog js m (kst d)"
    using t by (simp_all add: tending_def)
  obtain s0 s1 mc resp k' where s0: "s0 = (if \<not> eventfd_armed d then arm_eventfd_read d else d)"
    and e: "os_enter (disp_os os) (sq_pending (ring s0)) mc (unat (cq_entries (ring d)) - cq_len (ring d)) (kst d) = (resp, k')"
    and s1: "s1 = s0\<lparr>ring := ring s1, kst := k'\<rparr>" "cq_ready (ring s1) = cq_ready (ring d) @ er_cqes resp" "sq_len (ring s1) = 0"
      "sq_entries (ring s1) = sq_entries (ring d)" "safe dinfl s1" "inbox s1 = inbox d"
    and dr: "drain (disp_os os) (dispatch_if os) d
      = drain_cqes (disp_os os) (dispatch_if os) (cq_mask (ring s1)) (cq_head (ring s1)) (cq_tail (ring s1)) s1"
    by (rule progressing_kernel.drain_parts [OF pk f(1,5), where invoke = "dispatch_if os"])
  obtain k1 where k1: "k' = (kst d)\<lparr>wd_kernel := k1\<rparr>" using disp_enter [OF e] by blast
  have s1f: "kst s1 = k'" "tasks s1 = []" by (subst s1(1), simp add: s0 arm_stages f(3))+
  have rok: "sq_ok (ring d)" using f(1) sched_inv_calm by (fastforce simp: safe_def calm_def ring_ok_def)
  let ?w = "inbox d = [] \<or> wake_ready s1" and ?full = "m = length js"
  have wake: "?w \<or> latency (wd_kernel k') < latency (wd_kernel (kst d))"
    using waking_kernel.wake_comes [OF wk f(2,4) _ e cq_room [OF f(1,4)] armed_pending [OF rok f(5) s0]]
    by (auto simp: wake_ready_def s1(2) image_Un)
  let ?H = "handing prog js (wd_kernel k') ?full (workers (kst d)) ?w"
  have "?H s1" using f(6,7) s1(3,6) s1f k1 by (auto simp: handing_def handed_def)
  then have "\<exists>d'. drain (disp_os os) (dispatch_if os) d = (None, d') \<and> ?H d' \<and> safe dinfl d' \<and> cq_ready (ring d') = []"
    unfolding dr by (rule uring_kernel.drain_cqes_invariant [OF disp_kernel [OF uring_kernel_axioms] dispatch_if_jobs(1) s1(5), where P = ?H])
      (rule handing_step [OF room])
  then obtain d' where d': "drain (disp_os os) (dispatch_if os) d = (None, d')" "?H d'" "safe dinfl d'" "cq_ready (ring d') = []"
    by blast
  have dd: "drain (disp_os os) (dispatch os) d = (None, d')"
    using drain_dispatch_if [OF uring_kernel_axioms f(1,5) handed_ws [OF f(7)]] d'(1) by simp
  have att: "attentive dinfl dsignalled d'"
    using eventfd_kernel.drain_attentive [OF ek dispatch_if_jobs f(1,2,5), where os1 = os] d'(1) by simp
  obtain m' where m': "inbox d' = drop m' js" "handed prog js m' (kst d')" using d'(2) by (auto simp: handing_def)
  have reap: "reap d' = d'" using d'(2) by (simp add: reap_def handing_def)
  have "has_capacity (ring d') 1"
    using d'(2,3) sched_inv_calm [of "live_q dinfl d'" d'] has_capacity_1 [of "ring d'"] ring_size_pos sq_okD(1)
    by (auto simp: safe_def calm_def ring_ok_def handing_def)
  then have t': "tending prog js m' d'" using d'(2-4) att m' by (simp add: tending_def handing_def)
  have all: "m' = length js" if "inbox d' = []" using that m' by (simp add: handed_def)
  have "?w \<longrightarrow> inbox d' = []" using d'(2,4) by (auto simp: handing_def wake_ready_def)
  moreover have "wd_kernel (kst d') = wd_kernel k'" using d'(2) by (simp add: handing_def)
  ultimately have "m' = length js \<or> latency (wd_kernel (kst d')) < latency (wd_kernel (kst d))"
    using wake all by metis
  moreover have "m = length js \<longrightarrow> workers (kst d') = workers (kst d) \<and> inbox d' = []" using d'(2) by (simp add: handing_def)
  then have "m = length js \<longrightarrow> m' = m \<and> workers (kst d') = workers (kst d)" using all by simp
  moreover have "thread_round (disp_os os) (dispatch os) d = (None, d')" using dd reap by (simp add: thread_round_def)
  ultimately show thesis using that t' by blast
qed

section \<open>The threads together\<close>

lemma tending_kst:
  assumes "tending prog js m d" "wd_kernel wd = wd_kernel (kst d)" "handed prog js m wd"
  shows "tending prog js m (d\<lparr>kst := wd\<rparr>)"
proof -
  have "safe dinfl d" using assms(1) by (simp add: tending_def)
  then have "safe dinfl (d\<lparr>kst := wd\<rparr>)"
    by (rule uring_kernel.safe_cong [OF disp_kernel [OF uring_kernel_axioms], rotated 8]) (simp_all add: assms(2))
  then show ?thesis using assms by (auto simp: tending_def attentive_def reads_out_def live_q_def wake_ready_def)
qed

lemma poke_step:
  assumes t: "tending prog js m d" and p: "poke_eventfd (disp_os os) (d\<lparr>inbox := inbox d @ xs\<rparr>) = (ok, d')"
  shows "ok \<and> tending prog (js @ xs) m d' \<and> workers (kst d') = workers (kst d)"
proof -
  note wk = disp_waking [OF waking_kernel_axioms] and uk = disp_kernel [OF uring_kernel_axioms]
  note ek = wk [THEN waking_kernel.axioms(1)]
  obtain wd where d': "os_write (disp_os os) (eventfd d) (kst d) = (ok, wd)" "d' = d\<lparr>inbox := inbox d @ xs, kst := wd\<rparr>"
    using p by (auto simp: poke_eventfd_def split: prod.splits)
  have ok using waking_kernel.write_ok [OF wk, of "eventfd d" "kst d"] d'(1) by simp
  have wd: "workers wd = workers (kst d)" "next_worker wd = next_worker (kst d)"
    using d'(1) by (auto simp: disp_os_def split: prod.splits)
  have f: "m \<le> length js" "attentive dinfl dsignalled d" "safe dinfl d" "inbox d = drop m js" "handed prog js m (kst d)"
    using t by (simp_all add: tending_def handed_def)
  have "safe dinfl d'"
    by (rule uring_kernel.safe_cong [OF uk, rotated 8, OF f(3)])
       (use uring_kernel.write_keeps [OF uk d'(1)] in \<open>simp_all add: d'(2)\<close>)
  moreover have "attentive dinfl dsignalled d'"
    using eventfd_kernel.poke_attentive [OF ek f(2), of "inbox d @ xs"] by (simp add: p)
  moreover have "handed prog (js @ xs) m (kst d')" using f(1,5) wd d'(2) by (simp add: handed_def given_def)
  ultimately show ?thesis using t f(1,4) d'(2) wd \<open>ok\<close> by (simp add: tending_def)
qed

lemma post_step:
  assumes "tending prog js m (dispatcher rt)"
  obtains rt' where "Runtime_post os j rt = (None, rt')" "tending prog (js @ [j]) m (dispatcher rt')"
proof -
  let ?d = "dispatcher rt"
  obtain ok d' where p: "poke_eventfd (disp_os os) (?d\<lparr>inbox := inbox ?d @ [j]\<rparr>) = (ok, d')" by fastforce
  from poke_step [OF assms p] p that [of "rt\<lparr>dispatcher := d'\<rparr>"] show thesis by (simp add: Runtime_post_def post_def)
qed

lemma worker_step:
  assumes small: "\<And>j. first_small (prog j)" and t: "tending prog js m (dispatcher rt)" and i: "i < length rings"
  obtains rt' w where "worker_round os (spawn_jobs os prog) i rt = (None, rt')" "tending prog js m (dispatcher rt')"
    "thread_round os (spawn_jobs os prog) (workers (kst (dispatcher rt)) ! i) = (None, w)"
    "workers (kst (dispatcher rt')) = (workers (kst (dispatcher rt)))[i := w]"
    "wd_kernel (kst (dispatcher rt')) = wd_kernel (kst (dispatcher rt))"
proof -
  let ?d = "dispatcher rt" and ?ws = "workers (kst (dispatcher rt))"
  have h: "handed prog js m (kst ?d)" using t by (simp add: tending_def)
  then have l: "length ?ws = length rings" and g: "given prog js m i (?ws ! i)" using i by (simp_all add: handed_def)
  obtain w where w: "thread_round os (spawn_jobs os prog) (?ws ! i) = (None, w)" "busy prog (map prog (wshare i (take m js))) w"
    "sq_entries (ring w) = sq_entries (ring (?ws ! i))"
    using busy_round [of prog, OF small] g unfolding given_def by metis
  let ?wd = "(kst ?d)\<lparr>workers := ?ws[i := w]\<rparr>"
  have "handed prog js m ?wd" using h w(2,3) g i by (auto simp: handed_def given_def nth_list_update)
  from tending_kst [OF t _ this] have "tending prog js m (?d\<lparr>kst := ?wd\<rparr>)" by simp
  with that [of "rt\<lparr>dispatcher := ?d\<lparr>kst := ?wd\<rparr>\<rparr>" w] w(1) i l show thesis by (simp add: worker_round_def Let_def)
qed

lemma roomy_append: "roomy (js @ js') \<Longrightarrow> roomy js"
  unfolding roomy_def share_append by fastforce

lemma rt_schedule:
  assumes small: "\<And>j. first_small (prog j)"
  shows "tending prog js m (dispatcher rt) \<Longrightarrow> roomy (js @ rt_posts evs) \<Longrightarrow>
    \<exists>rt' m'. rt_run os (spawn_jobs os prog) evs rt = (None, rt') \<and> tending prog (js @ rt_posts evs) m' (dispatcher rt')"
proof (induction evs arbitrary: js m rt)
  case (Cons ev evs)
  have "\<exists>rt' m'. rt_step os (spawn_jobs os prog) ev rt = (None, rt') \<and> tending prog (js @ rt_posts [ev]) m' (dispatcher rt')"
  proof (cases ev)
    case (RtPost j)
    obtain rt' where "Runtime_post os j rt = (None, rt')" "tending prog (js @ [j]) m (dispatcher rt')"
      by (rule post_step [OF Cons.prems(1)])
    then show ?thesis using RtPost by auto
  next
    case DispatcherRound
    have "roomy js" using roomy_append Cons.prems(2) .
    then obtain d' m' where "thread_round (disp_os os) (dispatch os) (dispatcher rt) = (None, d')" "tending prog js m' d'"
      by (rule disp_round [OF _ Cons.prems(1)])
    then show ?thesis using DispatcherRound by (auto simp: dispatcher_round_def)
  next
    case (WorkerRound i)
    show ?thesis
    proof (cases "i < length rings")
      case True
      obtain rt' where "worker_round os (spawn_jobs os prog) i rt = (None, rt')" "tending prog js m (dispatcher rt')"
        by (rule worker_step [OF small Cons.prems(1) True])
      then show ?thesis using WorkerRound by auto
    next
      case False
      then have "worker_round os (spawn_jobs os prog) i rt = (None, rt)"
        using Cons.prems(1) by (simp add: worker_round_def tending_def handed_def Let_def)
      then show ?thesis using Cons.prems(1) WorkerRound by auto
    qed
  qed
  then obtain rt1 m1 where r: "rt_step os (spawn_jobs os prog) ev rt = (None, rt1)" "tending prog (js @ rt_posts [ev]) m1 (dispatcher rt1)"
    by blast
  have "js @ rt_posts (ev # evs) = (js @ rt_posts [ev]) @ rt_posts evs" by simp
  then show ?case using Cons.IH [OF r(2)] Cons.prems(2) r(1) by (simp del: rt_posts.simps)
qed auto

text \<open>Each of a list of workers makes one round.\<close>

lemma worker_rounds:
  assumes small: "\<And>j. first_small (prog j)"
  shows "tending prog js m (dispatcher rt) \<Longrightarrow> distinct is \<Longrightarrow> set is \<subseteq> {..<length rings} \<Longrightarrow>
    \<exists>rt'. rt_run os (spawn_jobs os prog) (map WorkerRound is) rt = (None, rt') \<and> tending prog js m (dispatcher rt')
      \<and> wd_kernel (kst (dispatcher rt')) = wd_kernel (kst (dispatcher rt))
      \<and> (\<forall>i < length rings. if i \<in> set is
           then thread_round os (spawn_jobs os prog) (workers (kst (dispatcher rt)) ! i) = (None, workers (kst (dispatcher rt')) ! i)
           else workers (kst (dispatcher rt')) ! i = workers (kst (dispatcher rt)) ! i)"
proof (induction "is" arbitrary: rt)
  case (Cons i "is")
  let ?ws = "workers (kst (dispatcher rt))"
  obtain rt1 w where r: "worker_round os (spawn_jobs os prog) i rt = (None, rt1)" "tending prog js m (dispatcher rt1)"
    "thread_round os (spawn_jobs os prog) (?ws ! i) = (None, w)" "workers (kst (dispatcher rt1)) = ?ws[i := w]"
    "wd_kernel (kst (dispatcher rt1)) = wd_kernel (kst (dispatcher rt))"
    by (rule worker_step [OF small Cons.prems(1), of i]) (use Cons.prems(3) in auto)
  have l: "i < length ?ws" using Cons.prems(1,3) by (simp add: tending_def handed_def)
  obtain rt' where rt': "rt_run os (spawn_jobs os prog) (map WorkerRound is) rt1 = (None, rt')" "tending prog js m (dispatcher rt')"
    "wd_kernel (kst (dispatcher rt')) = wd_kernel (kst (dispatcher rt1))"
    "\<forall>i' < length rings. if i' \<in> set is
           then thread_round os (spawn_jobs os prog) (?ws[i := w] ! i') = (None, workers (kst (dispatcher rt')) ! i')
           else workers (kst (dispatcher rt')) ! i' = ?ws[i := w] ! i'"
    using Cons.IH [OF r(2), unfolded r(4)] Cons.prems(2,3) by (metis distinct.simps(2) insert_subset list.simps(15))
  have "if i' \<in> set (i # is)
      then thread_round os (spawn_jobs os prog) (?ws ! i') = (None, workers (kst (dispatcher rt')) ! i')
      else workers (kst (dispatcher rt')) ! i' = ?ws ! i'" if "i' < length rings" for i'
    using rt'(4) [rule_format, OF that] r(3) l Cons.prems(2) by (cases "i' = i") (auto split: if_splits)
  then show ?case using rt'(1-3) r(1,5) by (intro exI [of _ rt']) simp
qed auto

lemma one_sweep:
  assumes small: "\<And>j. first_small (prog j)" and room: "roomy js" and t: "tending prog js m (dispatcher rt)"
  obtains rt' m' where "rt_run os (spawn_jobs os prog) (sweep (length rings)) rt = (None, rt')" "tending prog js m' (dispatcher rt')"
    "m = length js \<longrightarrow> m' = m \<and> (\<forall>i < length rings.
       thread_round os (spawn_jobs os prog) (workers (kst (dispatcher rt)) ! i) = (None, workers (kst (dispatcher rt')) ! i))"
    "m' = length js \<or> latency (wd_kernel (kst (dispatcher rt'))) < latency (wd_kernel (kst (dispatcher rt)))"
proof -
  obtain d' m' where d': "thread_round (disp_os os) (dispatch os) (dispatcher rt) = (None, d')" "tending prog js m' d'"
    "m = length js \<longrightarrow> m' = m \<and> workers (kst d') = workers (kst (dispatcher rt))"
    "m' = length js \<or> latency (wd_kernel (kst d')) < latency (wd_kernel (kst (dispatcher rt)))"
    by (rule disp_round [OF room t])
  obtain rt' where rt': "rt_run os (spawn_jobs os prog) (map WorkerRound [0..<length rings]) (rt\<lparr>dispatcher := d'\<rparr>) = (None, rt')"
    "tending prog js m' (dispatcher rt')" "wd_kernel (kst (dispatcher rt')) = wd_kernel (kst d')"
    "\<forall>i < length rings. thread_round os (spawn_jobs os prog) (workers (kst d') ! i) = (None, workers (kst (dispatcher rt')) ! i)"
    using worker_rounds [of prog js m' "rt\<lparr>dispatcher := d'\<rparr>" "[0..<length rings]", OF small] d'(2)
    by (auto simp: lessThan_atLeast0)
  show thesis by (rule that [of rt' m']) (use d' rt' in \<open>auto simp: sweep_def dispatcher_round_def\<close>)
qed

lemma all_handed:
  assumes small: "\<And>j. first_small (prog j)" and room: "roomy js"
  shows "tending prog js m (dispatcher rt) \<Longrightarrow>
    \<exists>n rt'. rt_run os (spawn_jobs os prog) (sweeps n (length rings)) rt = (None, rt') \<and> tending prog js (length js) (dispatcher rt')"
proof (induction "latency (wd_kernel (kst (dispatcher rt)))" arbitrary: rt m rule: less_induct)
  case less
  obtain rt1 m1 where r: "rt_run os (spawn_jobs os prog) (sweep (length rings)) rt = (None, rt1)" "tending prog js m1 (dispatcher rt1)"
    "m1 = length js \<or> latency (wd_kernel (kst (dispatcher rt1))) < latency (wd_kernel (kst (dispatcher rt)))"
    by (rule one_sweep [OF small room less.prems])
  show ?case
  proof (cases "m1 = length js")
    case True
    then show ?thesis using r by (intro exI [of _ 1]) (simp add: sweeps_def)
  next
    case False
    then obtain n rt' where "rt_run os (spawn_jobs os prog) (sweeps n (length rings)) rt1 = (None, rt')" "tending prog js (length js) (dispatcher rt')"
      using less.hyps [OF _ r(2)] r(3) by blast
    then show ?thesis using r(1) by (intro exI [of _ "Suc n"]) (simp add: sweeps_Suc rt_run_append)
  qed
qed

lemma all_run:
  assumes small: "\<And>j. first_small (prog j)" and room: "roomy js"
  shows "tending prog js (length js) (dispatcher rt) \<Longrightarrow>
    \<exists>rt'. rt_run os (spawn_jobs os prog) (sweeps n (length rings)) rt = (None, rt') \<and> tending prog js (length js) (dispatcher rt')
      \<and> (\<forall>i < length rings. run_schedule os (spawn_jobs os prog) (replicate n None) (workers (kst (dispatcher rt)) ! i)
           = (None, workers (kst (dispatcher rt')) ! i))"
proof (induction n arbitrary: rt)
  case 0
  then show ?case by (simp add: sweeps_def)
next
  case (Suc n)
  obtain rt1 where r: "rt_run os (spawn_jobs os prog) (sweep (length rings)) rt = (None, rt1)" "tending prog js (length js) (dispatcher rt1)"
    "\<forall>i < length rings. thread_round os (spawn_jobs os prog) (workers (kst (dispatcher rt)) ! i) = (None, workers (kst (dispatcher rt1)) ! i)"
    by (rule one_sweep [OF small room Suc.prems]) simp
  from Suc.IH [OF r(2)] r(1,3) show ?case by (fastforce simp: sweeps_Suc rt_run_append)
qed

section \<open>From construction to stop\<close>

lemma new_tending:
  assumes d: "Scheduler_ctor (disp_os os) r \<lparr>wd_kernel = k0, next_worker = 0, workers = ws0\<rparr> = Inr d"
    and ws: "make_workers os rings = Inr ws"
  shows "tending prog [] 0 (d\<lparr>kst := (kst d)\<lparr>workers := ws\<rparr>\<rparr>)"
proof -
  note uk = disp_kernel [OF uring_kernel_axioms] and ek = disp_waking [OF waking_kernel_axioms, THEN waking_kernel.axioms(1)]
  let ?d = "d\<lparr>kst := (kst d)\<lparr>workers := ws\<rparr>\<rparr>"
  have f: "ring d = r" "tasks d = []" "inbox d = []" "\<not> eventfd_armed d" "next_worker (kst d) = 0"
    using d by (auto simp: Scheduler_ctor_def disp_os_def split: prod.splits if_splits)
  have k0: "infl (wd_kernel \<lparr>wd_kernel = k0, next_worker = 0, workers = ws0\<rparr>) = {#}" using fresh(4) by simp
  have safe: "safe dinfl d" by (rule uring_kernel.ctor_safe [OF uk d fresh(1-3)]) (rule k0)
  have "safe dinfl ?d" by (rule uring_kernel.safe_cong [OF uk, rotated 8, OF safe]) simp_all
  moreover have "attentive dinfl dsignalled d" by (rule eventfd_kernel.ctor_attentive [OF ek d fresh(1-3)]) (rule k0)
  then have "attentive dinfl dsignalled ?d" by (auto simp: attentive_def reads_out_def live_q_def wake_ready_def)
  moreover have "has_capacity r 1"
    using has_capacity_1 [of r] fresh(1,2) default_size by (simp add: ring_ok_def flip: length_sq_pending)
  moreover have "given prog [] 0 i (ws ! i)" if i: "i < length rings" for i
  proof -
    obtain r1 k1 where x: "rings ! i = (r1, k1)" by fastforce
    then have "waking_bed os infl delay sent allowed r1 k1 signalled latency" using worker_beds i by (metis nth_mem)
    moreover have "Scheduler_ctor os r1 k1 = Inr (ws ! i)" using make_workers_nth [OF ws] i x by auto
    ultimately show ?thesis using waking_bed.ctor_busy x by (fastforce simp: given_def)
  qed
  then have "handed prog [] 0 (kst ?d)" using make_workers_nth [OF ws] f(5) by (simp add: handed_def)
  ultimately show ?thesis using f fresh(3) by (simp add: tending_def)
qed

lemma ctor_tending: "Runtime_ctor os r k0 rings = Inr rt \<Longrightarrow> tending prog [] 0 (dispatcher rt)"
  using new_tending by (auto simp: Runtime_ctor_def split: sum.splits)

text \<open>Nothing in the construction fails.\<close>

lemma schedulers_made:
  fixes ws0 :: "('j wjob, 'k) sched list"
  shows "\<exists>d :: ('j, ('j, 'k) world) sched. Scheduler_ctor (disp_os os) r \<lparr>wd_kernel = k0, next_worker = 0, workers = ws0\<rparr> = Inr d"
    "\<exists>ws :: ('j wjob, 'k) sched list. make_workers os rings = Inr ws"
proof -
  show "\<exists>d :: ('j, ('j, 'k) world) sched. Scheduler_ctor (disp_os os) r \<lparr>wd_kernel = k0, next_worker = 0, workers = ws0\<rparr> = Inr d"
    using eventfd_ok by (cases "os_eventfd os k0") (simp add: Scheduler_ctor_def disp_os_def)
  have "\<exists>ws :: ('j wjob, 'k) sched list. make_workers os rs = Inr ws" if "set rs \<subseteq> set rings" for rs
    using that
  proof (induction rs)
    case (Cons x rs)
    obtain r1 k1 where x: "x = (r1, k1)" by fastforce
    then have "waking_bed os infl delay sent allowed r1 k1 signalled latency" using worker_beds Cons.prems by simp
    then have "0 \<le> fst (os_eventfd os k1)" by (rule test_bed.eventfd_ok [OF waking_bed.axioms(1)])
    then show ?case using Cons x by (cases "os_eventfd os k1") (auto simp: Scheduler_ctor_def)
  qed simp
  then show "\<exists>ws :: ('j wjob, 'k) sched list. make_workers os rings = Inr ws" by blast
qed

lemma stop_workers_started:
  assumes small: "\<And>j. first_small (prog j)"
  shows "length ns = length ws \<Longrightarrow> length bs = length ws \<Longrightarrow> list_all2 (started prog) css ws \<Longrightarrow>
    \<exists>ws'. stop_workers os (spawn_jobs os prog) ns bs ws = Some (None, ws') \<and> list_all2 (ran_all allowed) css ws'"
proof (induction ws arbitrary: ns bs css)
  case (Cons w ws)
  then obtain n ns' b bs' where l: "ns = n # ns'" "bs = b # bs'" "length ns' = length ws" "length bs' = length ws"
    by (metis length_Suc_conv)
  obtain c css' where c: "css = c # css'" "started prog c w" "list_all2 (started prog) css' ws"
    using Cons.prems(3) by (auto simp: list_all2_Cons2)
  obtain w' where w': "stop_and_join os (spawn_jobs os prog) n b w = Some (None, w')" "ran_all allowed c w'"
    using started_stop [of prog, OF small c(2)] by blast
  from Cons.IH [OF l(3,4) c(3)] w' l c(1) show ?case by auto
qed simp

lemma disp_join:
  assumes room: "roomy js" and t: "tending prog js (length js) d"
  shows "\<exists>d'. join (disp_os os) (dispatch os) n running (request_stop (disp_os os) running d) = Some (None, d')
    \<and> tasks d' = [] \<and> inbox d' = [] \<and> ub_flag d' = None \<and> workers (kst d') = workers (kst d)"
proof -
  have fin: "tasks d' = [] \<and> inbox d' = [] \<and> ub_flag d' = None" if "tending prog js (length js) d'" for d'
    using that sched_inv_calm by (fastforce simp: tending_def safe_def calm_def)
  have run: "\<exists>d'. Scheduler_run (disp_os os) (dispatch os) (replicate n False @ [True]) d = Some (None, d')
      \<and> tending prog js (length js) d' \<and> workers (kst d') = workers (kst d)" if "tending prog js (length js) d" for d
    using that
  proof (induction n arbitrary: d)
    case (Suc n)
    obtain d1 where d1: "thread_round (disp_os os) (dispatch os) d = (None, d1)" "tending prog js (length js) d1"
      "workers (kst d1) = workers (kst d)" by (rule disp_round [OF room Suc.prems]) auto
    then obtain s1 where "drain (disp_os os) (dispatch os) d = (None, s1)" "d1 = reap s1"
      by (auto simp: thread_round_def split: prod.splits option.splits)
    then show ?case using Suc.IH [OF d1(2)] d1(3) by simp
  qed simp
  obtain ok d1 where p: "poke_eventfd (disp_os os) (d\<lparr>inbox := inbox d @ []\<rparr>) = (ok, d1)" by fastforce
  have "tending prog js (length js) d1" "workers (kst d1) = workers (kst d)" using poke_step [OF t p] by simp_all
  then obtain d' where d': "Scheduler_run (disp_os os) (dispatch os) (replicate n False @ [True]) d1 = Some (None, d')"
    "tending prog js (length js) d'" "workers (kst d') = workers (kst d)" using run [of d1] by auto
  have "snd (poke_eventfd (disp_os os) d) = d1" using p by simp
  then show ?thesis using d' fin [OF d'(2)] fin [OF t] by (cases running) (simp_all add: join_def request_stop_def)
qed

lemma tending_stop:
  assumes small: "\<And>j. first_small (prog j)" and room: "roomy js" and t: "tending prog js (length js) (dispatcher rt)"
    and w: "\<And>i. i < length rings \<Longrightarrow> inbox (workers (kst (dispatcher rt)) ! i) = []"
    and run: "rt_st rt = Running" and l: "length wrounds = length rings" "length (worker_runners rt) = length rings"
  shows "\<exists>rt'. Runtime_stop os (spawn_jobs os prog) rounds wrounds rt = Some (None, rt') \<and> rt_st rt' = Stopped
    \<and> inbox (dispatcher rt') = [] \<and> ub_flag (dispatcher rt') = None
    \<and> list_all2 (ran_all allowed) (map (\<lambda>i. map prog (wshare i js)) [0..<length rings]) (workers (kst (dispatcher rt')))"
proof -
  let ?ws = "workers (kst (dispatcher rt))" and ?css = "map (\<lambda>i. map prog (wshare i js)) [0..<length rings]"
  have h: "length ?ws = length rings" "\<And>i. i < length rings \<Longrightarrow> busy prog (map prog (wshare i js)) (?ws ! i)"
    using t by (simp_all add: tending_def handed_def given_def)
  obtain d1 where d1: "join (disp_os os) (dispatch os) rounds (dispatcher_runner rt)
      (request_stop (disp_os os) (dispatcher_runner rt) (dispatcher rt)) = Some (None, d1)"
    "tasks d1 = []" "inbox d1 = []" "ub_flag d1 = None" "workers (kst d1) = ?ws"
    using disp_join [OF room t] by blast
  have "list_all2 (started prog) ?css ?ws" using h w by (simp add: list_all2_conv_all_nth started_def)
  then obtain ws' where ws': "stop_workers os (spawn_jobs os prog) wrounds (worker_runners rt) ?ws = Some (None, ws')"
    "list_all2 (ran_all allowed) ?css ws'"
    using stop_workers_started [of prog wrounds ?ws "worker_runners rt" ?css, OF small] h(1) l by auto
  have "shutdown (disp_os os) (dispatch os) d1 = Some (None, d1\<lparr>shutting_down := True\<rparr>)"
    using d1(2) by (simp add: shutdown_def shutdown_loop.simps)
  then show ?thesis using run d1 ws' by (simp add: Runtime_stop_def Let_def)
qed

text \<open>After enough rounds everything has been handed over, started and finished.\<close>

lemma eventually_done:
  assumes small: "\<And>j. first_small (prog j)" and room: "roomy js" and t: "tending prog js m (dispatcher rt)"
  shows "\<exists>N. \<forall>n \<ge> N. \<exists>rt'. rt_run os (spawn_jobs os prog) (sweeps n (length rings)) rt = (None, rt')
    \<and> tending prog js (length js) (dispatcher rt')
    \<and> (\<forall>i < length rings. tasks (workers (kst (dispatcher rt')) ! i) = [] \<and> inbox (workers (kst (dispatcher rt')) ! i) = [])"
proof -
  let ?inv = "spawn_jobs os prog"
  obtain n2 rt2 where r2: "rt_run os ?inv (sweeps n2 (length rings)) rt = (None, rt2)" "tending prog js (length js) (dispatcher rt2)"
    using all_handed [of prog, OF small room t] by blast
  let ?ws = "workers (kst (dispatcher rt2))"
  let ?P = "\<lambda>i n. \<exists>w. run_schedule os ?inv (replicate n None) (?ws ! i) = (None, w) \<and> tasks w = [] \<and> inbox w = []"
  have "\<exists>N. \<forall>n \<ge> N. ?P i n" if "i < length rings" for i
    using busy_run [of prog _ "?ws ! i", OF small] r2(2) that unfolding tending_def handed_def given_def by metis
  then have "\<exists>N. \<forall>n \<ge> N. \<forall>i < length rings. ?P i n" by (rule eventually_all)
  then obtain N where N: "\<And>n i. N \<le> n \<Longrightarrow> i < length rings \<Longrightarrow> ?P i n" by blast
  have "\<exists>rt'. rt_run os ?inv (sweeps n (length rings)) rt = (None, rt') \<and> tending prog js (length js) (dispatcher rt')
      \<and> (\<forall>i < length rings. tasks (workers (kst (dispatcher rt')) ! i) = [] \<and> inbox (workers (kst (dispatcher rt')) ! i) = [])"
    if n: "n2 + N \<le> n" for n
  proof -
    obtain n3 where n3: "n = n2 + n3" "N \<le> n3" by (rule that [of "n - n2"]) (use n in auto)
    obtain rt3 where r3: "rt_run os ?inv (sweeps n3 (length rings)) rt2 = (None, rt3)" "tending prog js (length js) (dispatcher rt3)"
      "\<forall>i < length rings. run_schedule os ?inv (replicate n3 None) (?ws ! i) = (None, workers (kst (dispatcher rt3)) ! i)"
      using all_run [of prog, OF small room r2(2)] by blast
    have "rt_run os ?inv (sweeps n (length rings)) rt = (None, rt3)"
      using r2(1) r3(1) n3(1) by (simp add: rt_run_append sweeps_add)
    moreover have "tasks (workers (kst (dispatcher rt3)) ! i) = [] \<and> inbox (workers (kst (dispatcher rt3)) ! i) = []" if "i < length rings" for i
      using N [OF n3(2) that] r3(3) that by auto
    ultimately show ?thesis using r3(2) by blast
  qed
  then show ?thesis by blast
qed

lemma start_tending:
  assumes "Runtime_ctor os r k0 rings = Inr rt0" "Runtime_start rt0 = (None, rt)"
  shows "tending prog [] 0 (dispatcher rt)" "rt_st rt = Running" "length (worker_runners rt) = length rings"
proof -
  have "dispatcher rt = dispatcher rt0" using assms(2) by (auto simp: Runtime_start_def split: if_splits)
  then show "tending prog [] 0 (dispatcher rt)" using ctor_tending [OF assms(1)] by simp
  show "rt_st rt = Running" "length (worker_runners rt) = length rings"
    using assms by (auto simp: Runtime_start_def Runtime_ctor_def split: if_splits sum.splits dest: make_workers_nth)
qed

lemma jobs_run:
  assumes small: "\<And>j. first_small (prog j)" and room: "roomy (rt_posts evs)"
    and c: "Runtime_ctor os r k0 rings = Inr rt0" "Runtime_start rt0 = (None, rt)" and l: "length wrounds = length rings"
  shows "\<exists>N. \<forall>n \<ge> N. \<exists>rt1 rt2. rt_run os (spawn_jobs os prog) (evs @ sweeps n (length rings)) rt = (None, rt1)
    \<and> Runtime_stop os (spawn_jobs os prog) rounds wrounds rt1 = Some (None, rt2) \<and> rt_st rt2 = Stopped
    \<and> inbox (dispatcher rt2) = [] \<and> ub_flag (dispatcher rt2) = None
    \<and> list_all2 (ran_all allowed) (map (\<lambda>i. map prog (wshare i (rt_posts evs))) [0..<length rings]) (workers (kst (dispatcher rt2)))"
proof -
  let ?js = "rt_posts evs" and ?inv = "spawn_jobs os prog"
  note rt = start_tending [OF c]
  obtain rt1 m1 where r1: "rt_run os ?inv evs rt = (None, rt1)" "tending prog ?js m1 (dispatcher rt1)"
    using rt_schedule [of prog "[]" 0 rt evs, OF small] rt(1) [of prog] room by auto
  obtain N where N: "\<And>n. N \<le> n \<Longrightarrow> \<exists>rt'. rt_run os ?inv (sweeps n (length rings)) rt1 = (None, rt')
    \<and> tending prog ?js (length ?js) (dispatcher rt')
    \<and> (\<forall>i < length rings. tasks (workers (kst (dispatcher rt')) ! i) = [] \<and> inbox (workers (kst (dispatcher rt')) ! i) = [])"
    using eventually_done [of prog, OF small room r1(2)] by blast
  have "\<exists>rt3 rt4. rt_run os ?inv (evs @ sweeps n (length rings)) rt = (None, rt3)
      \<and> Runtime_stop os ?inv rounds wrounds rt3 = Some (None, rt4) \<and> rt_st rt4 = Stopped
      \<and> inbox (dispatcher rt4) = [] \<and> ub_flag (dispatcher rt4) = None
      \<and> list_all2 (ran_all allowed) (map (\<lambda>i. map prog (wshare i ?js)) [0..<length rings]) (workers (kst (dispatcher rt4)))"
    if n: "N \<le> n" for n
  proof -
    obtain rt3 where r3: "rt_run os ?inv (sweeps n (length rings)) rt1 = (None, rt3)" "tending prog ?js (length ?js) (dispatcher rt3)"
      "\<And>i. i < length rings \<Longrightarrow> inbox (workers (kst (dispatcher rt3)) ! i) = []" using N [OF n] by blast
    then have all: "rt_run os ?inv (evs @ sweeps n (length rings)) rt = (None, rt3)" using r1(1) by (simp add: rt_run_append)
    have "rt_st rt3 = Running" "length (worker_runners rt3) = length rings" using rt_run_fields [OF all] rt(2,3) by simp_all
    from tending_stop [OF small room r3(2,3) this(1) l this(2), of rounds] all show ?thesis by blast
  qed
  then show ?thesis by blast
qed

lemma roomy_default:
  assumes "\<forall>i < length rings. length (wshare i js) < 128"
  shows "roomy js"
  unfolding roomy_def
proof (intro allI impI)
  fix i assume i: "i < length rings"
  obtain r1 k1 where x: "rings ! i = (r1, k1)" by fastforce
  then have "test_bed os infl delay sent allowed r1 k1" using worker_beds i waking_bed.axioms(1) by (metis nth_mem)
  then have "256 \<le> unat (sq_entries r1)" by (rule test_bed.default_size)
  then show "2 * length (wshare i js) < unat (sq_entries (fst (rings ! i)))" using assms i x by fastforce
qed

end

interpretation reply: runtime_bed "reply_os g" sim_uds ks_count "\<lambda>k. set (ks_infl k)" "reply_allowed g" "fresh_ring 8" sim0
  "\<lambda>k. 0 < ks_count k" "\<lambda>k. 0" "replicate (Suc n) (fresh_ring 8, sim0)" for g n
  by (intro runtime_bed.intro runtime_bed_axioms.intro reply.waking_bed_axioms) (auto intro: reply.waking_bed_axioms)

section \<open>Properties\<close>

text \<open>
  C5: A runtime does the work it is given, within bounds. A runtime is made on new rings of at least 256
  entries and started. Clients post jobs, each of which spawns a task whose first awaited operation has
  no deadline, and the threads of the dispatcher and the workers make rounds, in any order; each
  worker's share is fewer than 128 jobs, and the kernel completes what it is given. Then after finitely many further rounds of every thread, and at any
  later time, \<open>stop()\<close> returns with nothing undefined on the way, and every worker has run exactly its
  share of the jobs, the tasks of the jobs that fall to it in turn, each once and to its end: what
  happened on it is an interleaving of one complete blocking run of each.
\<close>

theorem runtime_runs_jobs:
  assumes "runtime_bed os infl delay sent allowed r k signalled latency rings" "\<And>j. first_small (prog j)"
    and "\<forall>i < length rings. length (share 0 (length rings) i (rt_posts evs)) < 128"
    and "Runtime_ctor os r k rings = Inr rt0" "Runtime_start rt0 = (None, rt)" "length wrounds = length rings"
  shows "\<exists>N. \<forall>n \<ge> N. \<exists>rt1 rt2. rt_run os (spawn_jobs os prog) (evs @ sweeps n (length rings)) rt = (None, rt1)
    \<and> Runtime_stop os (spawn_jobs os prog) rounds wrounds rt1 = Some (None, rt2) \<and> rt_st rt2 = Stopped
    \<and> inbox (dispatcher rt2) = [] \<and> ub_flag (dispatcher rt2) = None
    \<and> list_all2 (ran_all allowed) (map (\<lambda>i. map prog (share 0 (length rings) i (rt_posts evs))) [0..<length rings])
        (workers (kst (dispatcher rt2)))"
  by (rule runtime_bed.jobs_run [OF assms(1,2) runtime_bed.roomy_default [OF assms(1,3)] assms(4-6)])

theorem runtime_runs_jobs_witness:
  "\<exists>rt0 rt n rt1 rt2. Runtime_ctor prompt_os (fresh_ring 8) sim0 (replicate 2 (fresh_ring 8, sim0)) = Inr rt0
    \<and> Runtime_start rt0 = (None, rt)
    \<and> rt_run prompt_os (spawn_jobs prompt_os (\<lambda>j. recv_body))
        ([RtPost (1 :: nat), WorkerRound 0, RtPost 2, DispatcherRound, RtPost 3] @ sweeps n 2) rt = (None, rt1)
    \<and> Runtime_stop prompt_os (spawn_jobs prompt_os (\<lambda>j. recv_body)) 3 [0, 2] rt1 = Some (None, rt2)
    \<and> map log (workers (kst (dispatcher rt2))) = [[(''got'', 5), (''got'', 5)], [(''got'', 5)]]"
proof -
  let ?evs = "[RtPost (1 :: nat), WorkerRound 0, RtPost 2, DispatcherRound, RtPost 3]" and ?rings = "replicate 2 (fresh_ring 8, sim0)"
  obtain rt0 rt :: "(nat, sim) runtime" where c: "Runtime_ctor prompt_os (fresh_ring 8) sim0 ?rings = Inr rt0" "Runtime_start rt0 = (None, rt)"
    by (simp add: Runtime_ctor_def Scheduler_ctor_def disp_os_def reply_os_def sim_os_def Runtime_start_def numeral_2_eq_2)
  have bed: "runtime_bed prompt_os sim_uds ks_count (\<lambda>k. set (ks_infl k)) (reply_allowed (\<lambda>e. 5)) (fresh_ring 8) sim0 (\<lambda>k. 0 < ks_count k) (\<lambda>k. 0) ?rings"
    using reply.runtime_bed_axioms [of "\<lambda>e. 5" 1] by (simp add: numeral_2_eq_2)
  have sh: "share 0 2 0 (rt_posts ?evs) = [(1, 0), (3, 0)]" "share 0 2 1 (rt_posts ?evs) = [(2, 1)]" by simp_all
  have small: "first_small recv_body" by (simp add: recv_body_def)
  have n: "\<forall>i < length ?rings. length (share 0 (length ?rings) i (rt_posts ?evs)) < 128"
    using sh by (auto simp: less_2_cases_iff)
  obtain n rt1 rt2 where r: "rt_run prompt_os (spawn_jobs prompt_os (\<lambda>j. recv_body)) (?evs @ sweeps n (length ?rings)) rt = (None, rt1)"
    "Runtime_stop prompt_os (spawn_jobs prompt_os (\<lambda>j. recv_body)) 3 [0, 2] rt1 = Some (None, rt2)"
    "list_all2 (ran_all (reply_allowed (\<lambda>e. 5))) (map (\<lambda>i. map (\<lambda>j. recv_body) (share 0 (length ?rings) i (rt_posts ?evs))) [0..<length ?rings])
      (workers (kst (dispatcher rt2)))"
    using runtime_runs_jobs [OF bed small n c, of "[0, 2]" 3] by auto
  have "log w = replicate n (''got'', 5)" if "ran_all (reply_allowed (\<lambda>e. 5)) (replicate n recv_body) w" for n and w :: "(nat wjob, sim) sched"
  proof -
    obtain ps where ps: "interleaves ps (log w)" "list_all2 (\<lambda>c p. \<exists>out. blocks (reply_allowed (\<lambda>e. 5)) c p out) (replicate n recv_body) ps"
      using \<open>ran_all _ _ w\<close> by (auto simp: ran_all_def)
    have "ps = replicate n [(''got'', 5)]"
      using ps(2) by (induction n arbitrary: ps) (auto simp: list_all2_Cons1 reply_allowed_const blocks_simps recv_body_def)
    then show ?thesis using interleaves_same [OF ps(1), of "(''got'', 5)"] by (simp add: sum_list_replicate)
  qed
  note got = this
  have "workers (kst (dispatcher rt2)) = [a, b] \<Longrightarrow> ?thesis" for a b
    using r c got [of 2 a] got [of 1 b] sh by (intro exI [of _ rt0] exI [of _ rt] exI [of _ n] exI [of _ rt1] exI [of _ rt2]) (simp add: numeral_2_eq_2)
  then show ?thesis using r(3) by (auto simp: list_all2_Cons1 numeral_2_eq_2)
qed

end
