(* ===== verification/Task_Tests.thy ===== *)
theory Task_Tests
  imports Blocking
begin

text \<open>
  The repository's test programs for tasks, \<^verbatim>\<open>tests2/hangs/tasks.cpp\<close> and the task sections of
  \<^verbatim>\<open>tests2/hangs/main.cpp\<close>, as programs of the model. A section is a function to \<open>bool\<close>: it builds what
  the section builds, runs it and evaluates the section's checks. Local variables the coroutines
  assign to are read off the effects of the run. Descriptors and addresses are arguments; what a
  buffer holds after a read is the kernel's doing and not checked. The theorems say that the checks on
  results, exceptions and order hold on every kernel that answers the way the set-up makes it answer.
\<close>

section \<open>Vocabulary of the tests\<close>

text \<open>\<open>x = co_await inner()\<close> for a \<open>Task<int>\<close>, and \<open>co_await inner()\<close> for a \<open>Task<void>\<close>; an exception passes through.\<close>

definition await_int :: "co \<Rightarrow> (int \<Rightarrow> co) \<Rightarrow> co" where
  "await_int inner k = CoAwaitTask (TDefault (VInt 0)) inner
     (\<lambda>out. case out of Inl e \<Rightarrow> CoThrow e | Inr (VInt v) \<Rightarrow> k v | Inr _ \<Rightarrow> k 0)"

definition await_void :: "co \<Rightarrow> co \<Rightarrow> co" where
  "await_void inner k = CoAwaitTask TVoid inner (\<lambda>out. case out of Inl e \<Rightarrow> CoThrow e | Inr _ \<Rightarrow> k)"

text \<open>
  \<open>try { co_await inner(); } catch (const std::runtime_error& e) { ... }\<close>: everything the library and
  the tests throw is a \<open>std::runtime_error\<close>.
\<close>

definition try_await :: "task_type \<Rightarrow> co \<Rightarrow> (exn \<Rightarrow> co) \<Rightarrow> co \<Rightarrow> co" where
  "try_await ty inner handler k = CoAwaitTask ty inner (\<lambda>out. case out of Inl e \<Rightarrow> handler e | Inr _ \<Rightarrow> k)"

fun what_of :: "exn \<Rightarrow> string" where
  "what_of (UserExc w) = w"
| "what_of (IOExc st) = (case to_string st of Some w \<Rightarrow> w | None \<Rightarrow> '''')"

definition assign :: "string \<Rightarrow> int \<Rightarrow> co \<Rightarrow> co" where
  "assign x v c = CoAct (x, v) c"

text \<open>The value of a variable after a run, initialised with \<open>d\<close>; all values a vector was pushed.\<close>

definition var :: "string \<Rightarrow> int \<Rightarrow> event list \<Rightarrow> int" where
  "var x d l = fold (\<lambda>(y, v) u. if y = x then v else u) l d"

definition pushed :: "string \<Rightarrow> event list \<Rightarrow> int list" where
  "pushed x l = map snd (filter (\<lambda>(y, v). y = x) l)"

definition passes :: "(exn + ('j, 'k) sched) option \<Rightarrow> (event list \<Rightarrow> bool) \<Rightarrow> bool" where
  "passes res check = (case res of Some (Inr s) \<Rightarrow> check (log s) | _ \<Rightarrow> False)"

abbreviation co_return_void :: co where
  "co_return_void \<equiv> CoReturn VVoid"

section \<open>Nested tasks\<close>

definition test_await_int :: "'k os \<Rightarrow> ring \<Rightarrow> 'k \<Rightarrow> bool" where
  "test_await_int os r k =
     (let inner = CoReturn (VInt 42);
          outer = await_int inner (\<lambda>v. assign ''result'' v co_return_void)
      in passes (spawn_and_shutdown os r k [outer]) (\<lambda>l. var ''result'' 0 l = 42))"

definition test_await_void :: "'k os \<Rightarrow> ring \<Rightarrow> 'k \<Rightarrow> bool" where
  "test_await_void os r k =
     (let inner = assign ''inner_ran'' 1 co_return_void;
          outer = await_void inner (assign ''outer_ran'' 1 co_return_void)
      in passes (spawn_and_shutdown os r k [outer]) (\<lambda>l. var ''inner_ran'' 0 l = 1 \<and> var ''outer_ran'' 0 l = 1))"

definition test_await_order :: "'k os \<Rightarrow> ring \<Rightarrow> 'k \<Rightarrow> bool" where
  "test_await_order os r k =
     (let inner = assign ''order'' 1 (CoReturn (VInt 7));
          outer = assign ''order'' 0 (await_int inner (\<lambda>v. assign ''result'' v (assign ''order'' 2 co_return_void)))
      in passes (spawn_and_shutdown os r k [outer]) (\<lambda>l. var ''result'' 0 l = 7 \<and> pushed ''order'' l = [0, 1, 2]))"

definition test_await_recv :: "fdesc \<Rightarrow> u64 \<Rightarrow> 'k os \<Rightarrow> ring \<Rightarrow> 'k \<Rightarrow> bool" where
  "test_await_recv reader buf os r k =
     (let inner = CoAwait (Recv reader buf 16 0) None (\<lambda>n. CoReturn (VInt n));
          outer = await_int inner (\<lambda>v. assign ''result'' v co_return_void)
      in passes (spawn_and_shutdown os r k [outer]) (\<lambda>l. var ''result'' 0 l = 5))"

definition test_await_two_recv :: "fdesc \<Rightarrow> u64 \<Rightarrow> u64 \<Rightarrow> 'k os \<Rightarrow> ring \<Rightarrow> 'k \<Rightarrow> bool" where
  "test_await_two_recv reader c1 c2 os r k =
     (let recv_one = (\<lambda>buf. CoAwait (Recv reader buf 1 0) None (\<lambda>n. CoReturn (VInt n)));
          outer = await_int (recv_one c1) (\<lambda>n1. await_int (recv_one c2) (\<lambda>n2.
             assign ''n1'' n1 (assign ''n2'' n2 co_return_void)))
      in passes (spawn_and_shutdown os r k [outer]) (\<lambda>l. var ''n1'' 0 l = 1 \<and> var ''n2'' 0 l = 1))"

section \<open>Exceptions\<close>

definition test_exception_int :: "'k os \<Rightarrow> ring \<Rightarrow> 'k \<Rightarrow> bool" where
  "test_exception_int os r k =
     (let inner = CoThrow (UserExc ''inner boom'');
          outer = try_await (TDefault (VInt 0)) inner
            (\<lambda>e. assign ''caught'' 1 (assign (''what='' @ what_of e) 1 co_return_void)) co_return_void
      in passes (spawn_and_shutdown os r k [outer]) (\<lambda>l. var ''caught'' 0 l = 1 \<and> var ''what=inner boom'' 0 l = 1))"

definition test_exception_void :: "'k os \<Rightarrow> ring \<Rightarrow> 'k \<Rightarrow> bool" where
  "test_exception_void os r k =
     (let inner = CoThrow (UserExc ''void boom'');
          outer = try_await TVoid inner (\<lambda>e. assign ''caught'' 1 co_return_void) co_return_void
      in passes (spawn_and_shutdown os r k [outer]) (\<lambda>l. var ''caught'' 0 l = 1))"

definition test_exception_uncaught :: "mach \<Rightarrow> bool" where
  "test_exception_uncaught m =
     (let inner = CoThrow (UserExc ''uncaught'');
          outer = await_int inner (\<lambda>v. CoReturn (VInt v));
          (task, m1) = make_task (TDefault (VInt 0)) outer m;
          (_, m2) = Task_resume (Some task) m1
      in Task_done m2 (Some task) \<and> Task_result (frames m2 ! task) = Rethrow (UserExc ''uncaught''))"

section \<open>Tasks driven by hand\<close>

definition test_driver_int :: "mach \<Rightarrow> bool" where
  "test_driver_int m =
     (let (task, m1) = make_task (TDefault (VInt 0)) (CoReturn (VInt 99)) m;
          (_, m2) = Task_resume (Some task) m1
      in Task_done m2 (Some task) \<and> Task_result (frames m2 ! task) = Value (VInt 99))"

definition test_driver_void :: "mach \<Rightarrow> bool" where
  "test_driver_void m =
     (let (task, m1) = make_task TVoid (assign ''ran'' 1 co_return_void) m;
          (_, m2) = Task_resume (Some task) m1
      in Task_done m2 (Some task) \<and> var ''ran'' 0 (log m2) = 1 \<and> Task_result (frames m2 ! task) = Value VVoid)"

definition test_driver_recv :: "fdesc \<Rightarrow> u64 \<Rightarrow> 'k os \<Rightarrow> ring \<Rightarrow> 'k \<Rightarrow> bool" where
  "test_driver_recv reader buf os r k =
     (let coro = CoAwait (Recv reader buf 4 0) None (\<lambda>n. assign ''n'' n co_return_void)
      in passes (spawn_and_shutdown os r k [coro]) (\<lambda>l. var ''n'' 0 l = 1))"

text \<open>The sections of \<open>main.cpp\<close>.\<close>

definition test_int_completes :: "mach \<Rightarrow> bool" where
  "test_int_completes m =
     (let (task, m1) = make_task (TDefault (VInt 0)) (CoReturn (VInt 42)) m;
          (_, m2) = Task_resume (Some task) m1
      in Task_done m2 (Some task) \<and> Task_result (frames m2 ! task) = Value (VInt 42))"

definition test_int_throws :: "mach \<Rightarrow> bool" where
  "test_int_throws m =
     (let (task, m1) = make_task (TDefault (VInt 0)) (CoThrow (UserExc ''boom'')) m;
          (_, m2) = Task_resume (Some task) m1
      in Task_done m2 (Some task) \<and> Task_result (frames m2 ! task) = Rethrow (UserExc ''boom''))"

definition test_int_moved :: "mach \<Rightarrow> bool" where
  "test_int_moved m =
     (let (h, m1) = make_task (TDefault (VInt 0)) (CoReturn (VInt 1)) m;
          (t2, t1) = Task_move (Some h);
          (_, m2) = Task_resume t2 m1
      in Task_done m1 t1 \<and> (case t2 of Some h2 \<Rightarrow> Task_result (frames m2 ! h2) = Value (VInt 1) | None \<Rightarrow> False))"

definition test_int_unresumed :: "mach \<Rightarrow> bool" where
  "test_int_unresumed m =
     (let (task, m1) = make_task (TDefault (VInt 0)) (CoReturn (VInt 99)) m
      in \<not> Task_done m1 (Some task) \<and> Task_result (frames m1 ! task) = Value (VInt 0))"

definition test_void_completes :: "mach \<Rightarrow> bool" where
  "test_void_completes m =
     (let (task, m1) = make_task TVoid co_return_void m;
          (_, m2) = Task_resume (Some task) m1
      in Task_done m2 (Some task) \<and> Task_result (frames m2 ! task) = Value VVoid)"

definition test_void_throws :: "mach \<Rightarrow> bool" where
  "test_void_throws m =
     (let (task, m1) = make_task TVoid (CoThrow (UserExc ''boom'')) m;
          (_, m2) = Task_resume (Some task) m1
      in Task_done m2 (Some task) \<and> Task_result (frames m2 ! task) = Rethrow (UserExc ''boom''))"

definition test_void_moved :: "mach \<Rightarrow> bool" where
  "test_void_moved m =
     (let (h, m1) = make_task TVoid co_return_void m;
          (t2, t1) = Task_move (Some h);
          (_, m2) = Task_resume t2 m1
      in Task_done m1 t1 \<and> (case t2 of Some h2 \<Rightarrow> Task_result (frames m2 ! h2) = Value VVoid | None \<Rightarrow> False))"

section \<open>Three levels\<close>

definition test_three_levels :: "'k os \<Rightarrow> ring \<Rightarrow> 'k \<Rightarrow> bool" where
  "test_three_levels os r k =
     (let inner = CoReturn (VInt 3);
          middle = await_int inner (\<lambda>v. CoReturn (VInt (v + 1)));
          outer = await_int middle (\<lambda>v. assign ''result'' v co_return_void)
      in passes (spawn_and_shutdown os r k [outer]) (\<lambda>l. var ''result'' 0 l = 4))"

text \<open>\<open>c\<close> is the byte the kernel has left in the buffer, which the section's set-up makes a \<open>z\<close>.\<close>

definition test_three_levels_recv :: "fdesc \<Rightarrow> u64 \<Rightarrow> char \<Rightarrow> 'k os \<Rightarrow> ring \<Rightarrow> 'k \<Rightarrow> bool" where
  "test_three_levels_recv reader buf c os r k =
     (let inner = CoAwait (Recv reader buf 1 0) None
            (\<lambda>n. CoReturn (VInt (if n > 0 then int (of_char c) else -1)));
          middle = await_int inner (\<lambda>v. CoReturn (VInt v));
          outer = await_int middle (\<lambda>v. assign ''result'' v co_return_void)
      in passes (spawn_and_shutdown os r k [outer]) (\<lambda>l. var ''result'' 0 l = int (of_char c)))"

definition test_three_levels_exception :: "'k os \<Rightarrow> ring \<Rightarrow> 'k \<Rightarrow> bool" where
  "test_three_levels_exception os r k =
     (let inner = CoThrow (UserExc ''deep boom'');
          middle = await_int inner (\<lambda>v. CoReturn (VInt v));
          outer = try_await (TDefault (VInt 0)) middle (\<lambda>e. assign ''caught'' 1 co_return_void) co_return_void
      in passes (spawn_and_shutdown os r k [outer]) (\<lambda>l. var ''caught'' 0 l = 1))"

section \<open>Lemmas\<close>

lemmas test_body_defs = await_int_def await_void_def try_await_def assign_def

context test_bed
begin

lemma one_passes:
  assumes "\<And>l out. blocks allowed c l out \<Longrightarrow> check l"
  shows "passes (spawn_and_shutdown os r k0 [c]) check"
proof -
  obtain s' ps where s': "spawn_and_shutdown os r k0 [c] = Some (Inr s')" "interleaves ps (log s')"
    "list_all2 (\<lambda>c p. \<exists>out. blocks allowed c p out) [c] ps"
    by (rule program [of "[c]"]) auto
  then show ?thesis using assms interleaves_single by (auto simp: passes_def list_all2_Cons1)
qed

lemma two_pass:
  assumes "\<And>p q l out out'. blocks allowed c p out \<Longrightarrow> blocks allowed c' q out' \<Longrightarrow> interleaves [p, q] l \<Longrightarrow> check l"
  shows "passes (spawn_and_shutdown os r k0 [c, c']) check"
proof -
  obtain s' ps where s': "spawn_and_shutdown os r k0 [c, c'] = Some (Inr s')" "interleaves ps (log s')"
    "list_all2 (\<lambda>c p. \<exists>out. blocks allowed c p out) [c, c'] ps"
    by (rule program [of "[c, c']"]) auto
  then show ?thesis using assms by (auto simp: passes_def list_all2_Cons1)
qed

end

lemma var_simps [simp]: "var x d [] = d" "var x d (ev # l) = var x (if fst ev = x then snd ev else d) l"
  by (simp_all add: var_def split_beta)

text \<open>Driving a new task that never suspends.\<close>

lemma driven:
  assumes "make_task ty c m = (h, m1)" "Task_resume (Some h) m1 = (b, m2)"
    and "exec c (ring m, length (aws m), tl_sq_full m, log m) = (Done out, (r', n', tls', lg'))"
  shows "Task_done m2 (Some h) \<and> Task_result (frames m2 ! h) = result_of ty out \<and> log m2 = lg'"
proof -
  let ?h = "length (frames m)" and ?m = "m\<lparr>frames := frames m @ [new_frame ty c]\<rparr>"
  have "lands {?h} ?h (?m\<lparr>current := Some ?h\<rparr>) (exec c (mst ?m)) (resume_handle ?h ?m)"
    by (rule resume_new [of _ _ ty]) simp_all
  then show ?thesis
    using assms by (auto simp: make_task_def Task_resume_def lands_def mst_def Task_done_def frame_done_def new_frame_def Let_def)
qed

lemma driven_return:
  "make_task ty (CoReturn v) m = (h, m1) \<Longrightarrow> Task_resume (Some h) m1 = (b, m2) \<Longrightarrow>
   Task_done m2 (Some h) \<and> Task_result (frames m2 ! h) = result_of ty (Inr v)"
  using driven [of ty "CoReturn v" m h m1 b m2 "Inr v" "ring m" "length (aws m)" "tl_sq_full m" "log m"] by simp

lemma driven_throw:
  "make_task ty (CoThrow e) m = (h, m1) \<Longrightarrow> Task_resume (Some h) m1 = (b, m2) \<Longrightarrow>
   Task_done m2 (Some h) \<and> Task_result (frames m2 ! h) = result_of ty (Inl e)"
  using driven [of ty "CoThrow e" m h m1 b m2 "Inl e" "ring m" "length (aws m)" "tl_sq_full m" "log m"] by simp

section \<open>Properties\<close>

text \<open>
  Every section of the tests that drive a task by hand passes, whatever the state it starts in:
  the value and the exception of a coroutine come out of \<open>result()\<close>, a \<open>Task<void>\<close> has no value, a
  moved-from task counts as done, and a task that was never resumed yields the default value.
\<close>

theorem driver_tests_pass:
  "test_int_completes m \<and> test_int_throws m \<and> test_int_moved m \<and> test_int_unresumed m
   \<and> test_void_completes m \<and> test_void_throws m \<and> test_void_moved m
   \<and> test_driver_int m \<and> test_driver_void m \<and> test_exception_uncaught m"
proof (intro conjI)
  show "test_int_unresumed m"
    by (simp add: test_int_unresumed_def make_task_def Task_done_def frame_done_def new_frame_def Task_result_def)
  let ?c = "await_int (CoThrow (UserExc ''uncaught'')) (\<lambda>v. CoReturn (VInt v))" and ?d = "assign ''ran'' 1 co_return_void"
  obtain h m1 b m2 where c: "make_task (TDefault (VInt 0)) ?c m = (h, m1)" "Task_resume (Some h) m1 = (b, m2)" by (meson surj_pair)
  from driven [OF this] show "test_exception_uncaught m"
    unfolding test_exception_uncaught_def Let_def c by (simp add: c(2) await_int_def result_of_def)
  obtain h m1 b m2 where d: "make_task TVoid ?d m = (h, m1)" "Task_resume (Some h) m1 = (b, m2)" by (meson surj_pair)
  from driven [OF this] show "test_driver_void m"
    unfolding test_driver_void_def Let_def d by (simp add: d(2) assign_def result_of_def var_def)
qed (auto simp: test_int_completes_def test_int_throws_def test_int_moved_def test_void_completes_def test_void_throws_def
      test_void_moved_def test_driver_int_def Task_move_def result_of_def Task_done_def [of _ None] Let_def
      split: prod.splits dest: driven_return driven_throw)

text \<open>
  C38: Every section of the nested-task tests that needs no input passes on every kernel: a value, an
  exception and the order of effects cross any number of \<open>co_await\<close>s the way a call would carry them.
\<close>

theorem nested_tests_pass:
  assumes "test_bed os infl delay sent allowed r k0"
  shows "test_await_int os r k0 \<and> test_await_void os r k0 \<and> test_await_order os r k0
    \<and> test_exception_int os r k0 \<and> test_exception_void os r k0 \<and> test_three_levels os r k0 \<and> test_three_levels_exception os r k0"
  unfolding test_await_int_def test_await_void_def test_await_order_def test_exception_int_def test_exception_void_def
    test_three_levels_def test_three_levels_exception_def Let_def
  by (intro conjI test_bed.one_passes [OF assms]) (auto simp: test_body_defs blocks_simps pushed_def)

theorem nested_tests_pass_witness:
  "test_await_order prompt_os (fresh_ring 8) sim0 \<and> test_three_levels_exception prompt_os (fresh_ring 8) sim0"
  using nested_tests_pass [OF reply.test_bed_axioms [of "\<lambda>e. 5"]] by blast

text \<open>
  The sections in which an inner task waits for input return with the results they check, on every
  kernel that answers their receives as the set-up promises: five bytes for \<open>reader\<close>, one byte for each
  receive of length one on \<open>reader1\<close> and for the plain task. What the buffers hold is not looked at; in
  the last section the byte received, whichever it is, crosses two tasks to the outermost one.
\<close>

theorem nested_io_sections_return:
  assumes "test_bed os infl delay sent allowed r k0"
    and "\<And>res. allowed (Recv reader buf 16 0) None res \<Longrightarrow> res = 5"
    and "\<And>a res. allowed (Recv reader1 a 1 0) None res \<Longrightarrow> res = 1"
    and "\<And>res. allowed (Recv reader1 buf 4 0) None res \<Longrightarrow> res = 1"
  shows "test_await_recv reader buf os r k0 \<and> test_await_two_recv reader1 c1 c2 os r k0
    \<and> test_driver_recv reader1 buf os r k0 \<and> test_three_levels_recv reader1 buf c os r k0"
  unfolding test_await_recv_def test_await_two_recv_def test_driver_recv_def test_three_levels_recv_def Let_def
  by (intro conjI test_bed.one_passes [OF assms(1)]) (auto simp: test_body_defs blocks_simps dest!: assms(2-4))

text \<open>A kernel with five bytes waiting on descriptor 10 and one on every other.\<close>

definition recv_reply :: "sqe \<Rightarrow> int" where
  "recv_reply e = (if sqe_fd e = 10 then 5 else 1)"

lemma recv_reply_allowed: "reply_allowed recv_reply (Recv fd buf len flags) None res \<longleftrightarrow> res = (if fd = 10 then 5 else 1)"
  by (simp add: reply_allowed_def recv_reply_def entries_of_def mk_op_def mk_awaitable_def primary_entry_def prepare_primary_def
      del: prepare_primary_entry)

theorem nested_io_sections_return_witness:
  "test_await_recv 10 64 (reply_os recv_reply) (fresh_ring 8) sim0 \<and> test_await_two_recv 11 72 73 (reply_os recv_reply) (fresh_ring 8) sim0
   \<and> test_three_levels_recv 11 64 (CHR ''z'') (reply_os recv_reply) (fresh_ring 8) sim0"
  using nested_io_sections_return [OF reply.test_bed_axioms [of recv_reply], of 10 64 11 72 73 "CHR ''z''"] by (simp add: recv_reply_allowed)

end
