(* ===== verification/Operation_Tests.thy ===== *)
theory Operation_Tests
  imports Task_Tests
begin

text \<open>
  The scheduler and operation sections of \<^verbatim>\<open>tests2/hangs/main.cpp\<close>, \<^verbatim>\<open>tests2/connect_poll.cpp\<close> and
  \<^verbatim>\<open>tests2/run_multiple_tasks.cpp\<close> as programs of the model, in the way of \<open>Task_Tests\<close>. Sockets, files
  and the peers of a connection are the kernel's; what a section's set-up does to them is a
  promise about the results its operations may have. Contents of buffers, and of files and sockets
  after the run, are not checked.
\<close>

section \<open>Scheduler\<close>

definition test_shutdown_empty :: "'k os \<Rightarrow> ring \<Rightarrow> 'k \<Rightarrow> bool" where
  "test_shutdown_empty os r k = passes (spawn_and_shutdown os r k []) (\<lambda>l. True)"

definition test_stop_token :: "'k os \<Rightarrow> ring \<Rightarrow> 'k \<Rightarrow> bool" where
  "test_stop_token os r k =
     (case Scheduler_ctor os r k of
        Inl e \<Rightarrow> False
      | Inr s \<Rightarrow> (case Scheduler_run os no_jobs [True] (s :: (unit, 'k) sched) of Some (None, s') \<Rightarrow> True | _ \<Rightarrow> False))"

text \<open>The receive buffer is the variable that is then assigned the result.\<close>

definition test_dtor_pending :: "fdesc \<Rightarrow> u64 \<Rightarrow> 'k os \<Rightarrow> ring \<Rightarrow> 'k \<Rightarrow> bool" where
  "test_dtor_pending rfd n os r k =
     (let coro = CoAwait (Recv rfd n 1 0) None (\<lambda>res. assign ''n'' res co_return_void)
      in case Scheduler_ctor os r k of
           Inl e \<Rightarrow> False
         | Inr s \<Rightarrow>
             (case spawn_all os [coro] (s :: (unit, 'k) sched) of
                (Some e, s1) \<Rightarrow> False
              | (None, s1) \<Rightarrow>
                  (case Scheduler_dtor os no_jobs s1 of Some (None, s2) \<Rightarrow> var ''n'' 0 (log s2) \<noteq> 0 | _ \<Rightarrow> False)))"

definition test_two_tasks :: "fdesc \<Rightarrow> fdesc \<Rightarrow> u64 \<Rightarrow> u64 \<Rightarrow> 'k os \<Rightarrow> ring \<Rightarrow> 'k \<Rightarrow> bool" where
  "test_two_tasks r1 r2 buf1 buf2 os r k =
     (let c1 = CoAwait (Recv r1 buf1 4 0) None (\<lambda>n. assign ''n1'' n co_return_void);
          c2 = CoAwait (Recv r2 buf2 4 0) None (\<lambda>n. assign ''n2'' n co_return_void)
      in passes (spawn_and_shutdown os r k [c1, c2]) (\<lambda>l. var ''n1'' 0 l = 1 \<and> var ''n2'' 0 l = 1))"

definition test_sequential_awaits :: "fdesc \<Rightarrow> u64 \<Rightarrow> u64 \<Rightarrow> 'k os \<Rightarrow> ring \<Rightarrow> 'k \<Rightarrow> bool" where
  "test_sequential_awaits rfd buf1 buf2 os r k =
     (let coro = CoAwait (Recv rfd buf1 1 0) None (\<lambda>n1. assign ''n1'' n1
            (CoAwait (Recv rfd buf2 1 0) None (\<lambda>n2. assign ''n2'' n2 co_return_void)))
      in passes (spawn_and_shutdown os r k [coro]) (\<lambda>l. var ''n1'' 0 l = 1 \<and> var ''n2'' 0 l = 1))"

text \<open>\<open>run_multiple_tasks.cpp\<close> repeats the two-task section.\<close>

definition test_run_multiple_tasks :: "fdesc \<Rightarrow> fdesc \<Rightarrow> u64 \<Rightarrow> u64 \<Rightarrow> 'k os \<Rightarrow> ring \<Rightarrow> 'k \<Rightarrow> bool" where
  "test_run_multiple_tasks r1 r2 buf1 buf2 os r k =
     (let coro1 = CoAwait (Recv r1 buf1 4 0) None (\<lambda>n. assign ''n1'' n co_return_void);
          coro2 = CoAwait (Recv r2 buf2 4 0) None (\<lambda>n. assign ''n2'' n co_return_void)
      in passes (spawn_and_shutdown os r k [coro1, coro2]) (\<lambda>l. var ''n1'' 0 l = 1 \<and> var ''n2'' 0 l = 1))"

text \<open>The ring has one entry. \<open>None\<close>: the section does not return.\<close>

definition test_sq_exhausted :: "fdesc \<Rightarrow> u64 \<Rightarrow> u64 \<Rightarrow> 'k os \<Rightarrow> 'k \<Rightarrow> bool option" where
  "test_sq_exhausted rfd buf1 buf2 os k =
     (let coro1 = CoAwait (Recv rfd buf1 1 0) None (\<lambda>n. co_return_void);
          coro2 = CoAwait (Recv rfd buf2 4 0) None (\<lambda>n. co_return_void)
      in case Scheduler_ctor os (fresh_ring 0) k of
           Inl e \<Rightarrow> Some False
         | Inr s \<Rightarrow>
             (case spawn_call os coro1 (s :: (unit, 'k) sched) of
                (Some e, s1) \<Rightarrow> Some False
              | (None, s1) \<Rightarrow>
                  (case spawn_call os coro2 s1 of
                     (e, s2) \<Rightarrow>
                       if e \<noteq> Some (IOExc SQFull) then Some False
                       else (case shutdown os no_jobs s2 of None \<Rightarrow> None | Some (None, s3) \<Rightarrow> Some True | Some (Some e, s3) \<Rightarrow> Some False))))"

section \<open>One operation\<close>

text \<open>
  The shape most sections have: a coroutine assigns the result of one operation to a variable, which
  is checked after \<open>shutdown()\<close>.
\<close>

definition one_op_test :: "operation \<Rightarrow> int option \<Rightarrow> int \<Rightarrow> (int \<Rightarrow> bool) \<Rightarrow> 'k os \<Rightarrow> ring \<Rightarrow> 'k \<Rightarrow> bool" where
  "one_op_test op tmo init check os r k =
     (let coro = CoAwait op tmo (\<lambda>n. assign ''result'' n co_return_void)
      in passes (spawn_and_shutdown os r k [coro]) (\<lambda>l. check (var ''result'' init l)))"

definition test_recv :: "fdesc \<Rightarrow> u64 \<Rightarrow> 'k os \<Rightarrow> ring \<Rightarrow> 'k \<Rightarrow> bool" where
  "test_recv reader buf = one_op_test (Recv reader buf 16 0) None 0 (\<lambda>n. n = 5)"

definition test_recv_eof :: "fdesc \<Rightarrow> u64 \<Rightarrow> 'k os \<Rightarrow> ring \<Rightarrow> 'k \<Rightarrow> bool" where
  "test_recv_eof reader buf = one_op_test (Recv reader buf 16 0) None (-1) (\<lambda>n. n = 0)"

definition test_recv_bad_fd :: "u64 \<Rightarrow> 'k os \<Rightarrow> ring \<Rightarrow> 'k \<Rightarrow> bool" where
  "test_recv_bad_fd buf = one_op_test (Recv (-1) buf 4 0) None 0 (\<lambda>n. n < 0)"

definition test_send :: "fdesc \<Rightarrow> u64 \<Rightarrow> 'k os \<Rightarrow> ring \<Rightarrow> 'k \<Rightarrow> bool" where
  "test_send writer world = one_op_test (Send writer world 5 0) None 0 (\<lambda>n. n = 5)"

definition test_send_bad_fd :: "u64 \<Rightarrow> 'k os \<Rightarrow> ring \<Rightarrow> 'k \<Rightarrow> bool" where
  "test_send_bad_fd x = one_op_test (Send (-1) x 1 0) None 0 (\<lambda>n. n < 0)"

definition test_accept :: "fdesc \<Rightarrow> 'k os \<Rightarrow> ring \<Rightarrow> 'k \<Rightarrow> bool" where
  "test_accept listener = one_op_test (Accept listener) None (-1) (\<lambda>client_fd. client_fd \<ge> 0)"

text \<open>
  \<open>status_flags\<close> and \<open>descriptor_flags\<close> stand for what \<open>fcntl\<close> reports of a descriptor with \<open>F_GETFL\<close> and
  with \<open>F_GETFD\<close>.
\<close>

definition O_NONBLOCK :: u32 where "O_NONBLOCK = 2048"
definition FD_CLOEXEC :: u32 where "FD_CLOEXEC = 1"

definition test_accept_flags :: "(int \<Rightarrow> u32) \<Rightarrow> (int \<Rightarrow> u32) \<Rightarrow> fdesc \<Rightarrow> 'k os \<Rightarrow> ring \<Rightarrow> 'k \<Rightarrow> bool" where
  "test_accept_flags status_flags descriptor_flags listener = one_op_test (Accept listener) None (-1) (\<lambda>client_fd.
     client_fd \<ge> 0 \<and> status_flags client_fd AND O_NONBLOCK \<noteq> 0 \<and> descriptor_flags client_fd AND FD_CLOEXEC \<noteq> 0)"

definition test_close :: "fdesc \<Rightarrow> 'k os \<Rightarrow> ring \<Rightarrow> 'k \<Rightarrow> bool" where
  "test_close fd = one_op_test (Close fd) None (-1) (\<lambda>n. n = 0)"

definition test_close_bad_fd :: "'k os \<Rightarrow> ring \<Rightarrow> 'k \<Rightarrow> bool" where
  "test_close_bad_fd = one_op_test (Close (-1)) None 0 (\<lambda>n. n < 0)"

definition test_write_read :: "fdesc \<Rightarrow> u64 \<Rightarrow> u64 \<Rightarrow> 'k os \<Rightarrow> ring \<Rightarrow> 'k \<Rightarrow> bool" where
  "test_write_read fd write_buf read_buf os r k =
     (let coro = CoAwait (Write fd \<lparr>sp_data = write_buf, sp_size = 2\<rparr> 0) None (\<lambda>w. assign ''written'' w
            (CoAwait (Read fd \<lparr>sp_data = read_buf, sp_size = 4\<rparr> 0) None (\<lambda>n. assign ''read_bytes'' n co_return_void)))
      in passes (spawn_and_shutdown os r k [coro]) (\<lambda>l. var ''written'' 0 l = 8 \<and> var ''read_bytes'' 0 l = 8))"

definition test_read_bad_fd :: "u64 \<Rightarrow> 'k os \<Rightarrow> ring \<Rightarrow> 'k \<Rightarrow> bool" where
  "test_read_bad_fd buf = one_op_test (Read (-1) \<lparr>sp_data = buf, sp_size = 1\<rparr> 0) None 0 (\<lambda>n. n < 0)"

definition test_write_bad_fd :: "u64 \<Rightarrow> 'k os \<Rightarrow> ring \<Rightarrow> 'k \<Rightarrow> bool" where
  "test_write_bad_fd buf = one_op_test (Write (-1) \<lparr>sp_data = buf, sp_size = 1\<rparr> 0) None 0 (\<lambda>n. n < 0)"

definition O_RDONLY :: int where "O_RDONLY = 0"

definition test_open :: "string_view \<Rightarrow> 'k os \<Rightarrow> ring \<Rightarrow> 'k \<Rightarrow> bool" where
  "test_open path = one_op_test (Open_default path O_RDONLY) None (-1) (\<lambda>opened_fd. opened_fd \<ge> 0)"

definition test_open_missing :: "string_view \<Rightarrow> 'k os \<Rightarrow> ring \<Rightarrow> 'k \<Rightarrow> bool" where
  "test_open_missing nonexistent = one_op_test (Open_default nonexistent O_RDONLY) None 0 (\<lambda>opened_fd. opened_fd < 0)"

definition test_stat :: "string_view \<Rightarrow> 'k os \<Rightarrow> ring \<Rightarrow> 'k \<Rightarrow> bool" where
  "test_stat path = one_op_test (Stat_default path) None (-1) (\<lambda>n. n = 0)"

definition test_stat_missing :: "string_view \<Rightarrow> 'k os \<Rightarrow> ring \<Rightarrow> 'k \<Rightarrow> bool" where
  "test_stat_missing nonexistent = one_op_test (Stat_default nonexistent) None 0 (\<lambda>n. n < 0)"

section \<open>Connect and Poll\<close>

text \<open>\<open>addr\<close>: the bytes of the caller's \<open>sockaddr_in\<close>.\<close>

definition connect_test :: "fdesc \<Rightarrow> u8 list \<Rightarrow> int option \<Rightarrow> int \<Rightarrow> (int \<Rightarrow> bool) \<Rightarrow> 'k os \<Rightarrow> ring \<Rightarrow> 'k \<Rightarrow> bool" where
  "connect_test client_fd addr tmo init check os r k =
     (case Connect_ctor client_fd addr 16 of Inl u \<Rightarrow> False | Inr op \<Rightarrow> one_op_test op tmo init check os r k)"

definition test_connect :: "fdesc \<Rightarrow> u8 list \<Rightarrow> 'k os \<Rightarrow> ring \<Rightarrow> 'k \<Rightarrow> bool" where
  "test_connect client_fd addr = connect_test client_fd addr None (-1) (\<lambda>n. n = 0)"

text \<open>
  The address lives in the coroutine's inner scope. The operation has its own copy of it
  (\<open>Connect_ctor\<close>), so the program is the same from the construction on.
\<close>

definition test_connect_copied :: "fdesc \<Rightarrow> u8 list \<Rightarrow> 'k os \<Rightarrow> ring \<Rightarrow> 'k \<Rightarrow> bool" where
  "test_connect_copied client_fd addr = connect_test client_fd addr None (-1) (\<lambda>n. n = 0)"

definition test_connect_refused :: "fdesc \<Rightarrow> u8 list \<Rightarrow> 'k os \<Rightarrow> ring \<Rightarrow> 'k \<Rightarrow> bool" where
  "test_connect_refused client_fd addr = connect_test client_fd addr None 0 (\<lambda>n. n < 0)"

definition POLLIN :: int where "POLLIN = 1"
definition POLLOUT :: int where "POLLOUT = 4"
definition POLLHUP :: int where "POLLHUP = 16"

definition test_poll_in :: "fdesc \<Rightarrow> 'k os \<Rightarrow> ring \<Rightarrow> 'k \<Rightarrow> bool" where
  "test_poll_in reader = one_op_test (Poll reader (word_of_int POLLIN)) None (-1) (\<lambda>n. n AND POLLIN \<noteq> 0)"

definition test_poll_out :: "fdesc \<Rightarrow> 'k os \<Rightarrow> ring \<Rightarrow> 'k \<Rightarrow> bool" where
  "test_poll_out a = one_op_test (Poll a (word_of_int POLLOUT)) None (-1) (\<lambda>n. n AND POLLOUT \<noteq> 0)"

definition test_poll_closed :: "fdesc \<Rightarrow> 'k os \<Rightarrow> ring \<Rightarrow> 'k \<Rightarrow> bool" where
  "test_poll_closed reader = one_op_test (Poll reader (word_of_int POLLIN)) None (-1) (\<lambda>n. n AND POLLIN \<noteq> 0 \<or> n AND POLLHUP \<noteq> 0)"

definition test_poll_bad_fd :: "'k os \<Rightarrow> ring \<Rightarrow> 'k \<Rightarrow> bool" where
  "test_poll_bad_fd = one_op_test (Poll (-1) (word_of_int POLLIN)) None 0 (\<lambda>n. n < 0)"

definition test_two_polls :: "fdesc \<Rightarrow> fdesc \<Rightarrow> 'k os \<Rightarrow> ring \<Rightarrow> 'k \<Rightarrow> bool" where
  "test_two_polls r1 r2 os r k =
     (let coro1 = CoAwait (Poll r1 (word_of_int POLLIN)) None (\<lambda>n. assign ''result1'' n co_return_void);
          coro2 = CoAwait (Poll r2 (word_of_int POLLIN)) None (\<lambda>n. assign ''result2'' n co_return_void)
      in passes (spawn_and_shutdown os r k [coro1, coro2])
           (\<lambda>l. var ''result1'' (-1) l AND POLLIN \<noteq> 0 \<and> var ''result2'' (-1) l AND POLLIN \<noteq> 0))"

section \<open>Deadlines\<close>

definition test_timeout_not_fired :: "fdesc \<Rightarrow> u64 \<Rightarrow> 'k os \<Rightarrow> ring \<Rightarrow> 'k \<Rightarrow> bool" where
  "test_timeout_not_fired reader buf = one_op_test (Recv reader buf 16 0) (Some 500) 0 (\<lambda>n. n = 5)"

definition test_poll_timeout :: "fdesc \<Rightarrow> 'k os \<Rightarrow> ring \<Rightarrow> 'k \<Rightarrow> bool" where
  "test_poll_timeout reader = one_op_test (Poll reader (word_of_int POLLIN)) (Some 50) 1 (\<lambda>n. n < 0)"

definition test_connect_timeout :: "fdesc \<Rightarrow> u8 list \<Rightarrow> 'k os \<Rightarrow> ring \<Rightarrow> 'k \<Rightarrow> bool" where
  "test_connect_timeout client_fd addr = connect_test client_fd addr (Some 100) 1 (\<lambda>n. n < 0)"

definition test_two_timeouts :: "fdesc \<Rightarrow> u64 \<Rightarrow> fdesc \<Rightarrow> 'k os \<Rightarrow> ring \<Rightarrow> 'k \<Rightarrow> bool" where
  "test_two_timeouts r1 buf1 r2 os r k =
     (let coro_a = CoAwait (Recv r1 buf1 4 0) (Some 500) (\<lambda>n. assign ''n1'' n co_return_void);
          coro_b = CoAwait (Poll r2 (word_of_int POLLIN)) (Some 50) (\<lambda>n. assign ''n2'' n co_return_void)
      in passes (spawn_and_shutdown os r k [coro_a, coro_b]) (\<lambda>l. var ''n1'' 0 l = 1 \<and> var ''n2'' 1 l < 0))"

section \<open>Lemmas\<close>

lemma var_filter: "var x d (filter (\<lambda>ev. fst ev = x) l) = var x d l"
  by (induction l arbitrary: d) auto

text \<open>A variable only one of two tasks assigns to.\<close>

lemma two_vars:
  assumes i: "interleaves [[(x, v)], [(y, w)]] l" and ne: "x \<noteq> y"
  shows "var x d l = v \<and> var y d' l = w"
proof -
  have "interleaves [[(x, v)], []] (filter (\<lambda>ev. fst ev = x) l)" "interleaves [[], [(y, w)]] (filter (\<lambda>ev. fst ev = y) l)"
    using interleaves_filter [OF i, of "\<lambda>ev. fst ev = x"] interleaves_filter [OF i, of "\<lambda>ev. fst ev = y"] ne by simp_all
  then have "filter (\<lambda>ev. fst ev = x) l = [(x, v)]" "filter (\<lambda>ev. fst ev = y) l = [(y, w)]"
    using interleaves_only [of "[[(x, v)], []]" _ 0] interleaves_only [of "[[], [(y, w)]]" _ 1] by (auto simp: less_Suc_eq)
  then show ?thesis using var_filter [of x d l] var_filter [of y d' l] by simp
qed

context test_bed
begin

lemma one_op: "(\<And>res. allowed op tmo res \<Longrightarrow> check res) \<Longrightarrow> one_op_test op tmo init check os r k0"
  unfolding one_op_test_def Let_def by (rule one_passes) (auto simp: test_body_defs blocks_simps)

lemma two_ops:
  assumes "\<And>res. allowed op tmo res \<Longrightarrow> P res" "\<And>res. allowed op' tmo' res \<Longrightarrow> Q res" "x \<noteq> y"
  shows "passes (spawn_and_shutdown os r k0 [CoAwait op tmo (\<lambda>n. assign x n co_return_void), CoAwait op' tmo' (\<lambda>n. assign y n co_return_void)])
    (\<lambda>l. P (var x d l) \<and> Q (var y d' l))"
  by (rule two_pass) (use assms two_vars in \<open>fastforce simp: test_body_defs blocks_simps\<close>)

lemma connect_op:
  assumes "length addr = 16"
    and "\<And>res. allowed (Connect client_fd (addr @ replicate 112 0) 16) tmo res \<Longrightarrow> check res"
  shows "connect_test client_fd addr tmo init check os r k0"
  using assms one_op by (simp add: connect_test_def Connect_ctor_closed sockaddr_storage_size_def)

lemma dtor_pending:
  assumes "\<And>res. allowed (Recv rfd n 1 0) None res \<Longrightarrow> res \<noteq> 0"
  shows "test_dtor_pending rfd n os r k0"
proof -
  let ?c = "CoAwait (Recv rfd n 1 0) None (\<lambda>res. assign ''n'' res co_return_void)"
  obtain s' ps where s': "spawn_and_shutdown os r k0 [?c] = Some (Inr s')" "interleaves ps (log s')"
    "list_all2 (\<lambda>c p. \<exists>out. blocks allowed c p out) [?c] ps"
    by (rule program [of "[?c]"]) auto
  then have v: "var ''n'' 0 (log s') \<noteq> 0"
    using assms interleaves_single by (fastforce simp: list_all2_Cons1 test_body_defs blocks_simps)
  obtain s s1 where s: "Scheduler_ctor os r k0 = Inr s" "spawn_all os [?c] s = (None, s1)" "shutdown os no_jobs s1 = Some (None, s')"
    using s'(1) by (auto simp: spawn_and_shutdown_def split: sum.splits prod.splits option.splits)
  have "sched_inv (live_q infl s) s" using ctor_safe [OF s(1) fresh] by (simp add: safe_def)
  moreover have "spawn_call os ?c s = (None, s1)" using s(2) by (auto split: prod.splits option.splits)
  ultimately have "tasks s1 \<noteq> []" using spawn_keeps(6) by fastforce
  then have "Scheduler_dtor os no_jobs s1 = Some (None, if eventfd s' \<ge> 0 then s'\<lparr>kst := os_close os (eventfd s') (kst s')\<rparr> else s')"
    using s(3) by (simp add: Scheduler_dtor_def)
  then show ?thesis using s(1,2) v by (simp add: test_dtor_pending_def)
qed

end

section \<open>Properties\<close>

text \<open>
  C33: Six sections of the scheduler tests return and their checks on results hold, on every kernel that
  gives one byte to each receive they make: the shutdown with nothing to do, the stop requested
  beforehand, the destructor that drives a pending task to its end, the two concurrent tasks in either
  file and the task that awaits twice. The section for an exhausted queue is not among them, and what
  the receive buffers hold afterwards is not looked at.
\<close>

theorem scheduler_sections_return:
  assumes "test_bed os infl delay sent allowed r k0"
    and "\<And>fd a len res. fd \<in> {r1, r2} \<Longrightarrow> len \<in> {1, 4} \<Longrightarrow> allowed (Recv fd a len 0) None res \<Longrightarrow> res = 1"
  shows "test_shutdown_empty os r k0 \<and> test_stop_token os r k0 \<and> test_dtor_pending r1 a1 os r k0
    \<and> test_two_tasks r1 r2 a1 a2 os r k0 \<and> test_run_multiple_tasks r1 r2 a1 a2 os r k0 \<and> test_sequential_awaits r1 a1 a2 os r k0"
proof (intro conjI)
  obtain s' where "spawn_and_shutdown os r k0 [] = Some (Inr s')" by (rule test_bed.program [OF assms(1), of "[]"]) auto
  then show "test_shutdown_empty os r k0" by (simp add: test_shutdown_empty_def passes_def)
  then show "test_stop_token os r k0"
    by (auto simp: test_shutdown_empty_def test_stop_token_def passes_def spawn_and_shutdown_def split: sum.splits)
  show "test_dtor_pending r1 a1 os r k0"
    by (rule test_bed.dtor_pending [OF assms(1)]) (use assms(2) [of r1 1] in force)
  show "test_two_tasks r1 r2 a1 a2 os r k0" "test_run_multiple_tasks r1 r2 a1 a2 os r k0"
    unfolding test_two_tasks_def test_run_multiple_tasks_def Let_def
    by (intro test_bed.two_ops [OF assms(1)]; use assms(2) [of _ 4] in force)+
  show "test_sequential_awaits r1 a1 a2 os r k0"
    unfolding test_sequential_awaits_def Let_def
    by (rule test_bed.one_passes [OF assms(1)]) (use assms(2) [of r1 1] in \<open>force simp: test_body_defs blocks_simps\<close>)
qed

theorem scheduler_sections_return_witness:
  "test_dtor_pending 11 64 (reply_os recv_reply) (fresh_ring 8) sim0 \<and> test_two_tasks 11 12 64 68 (reply_os recv_reply) (fresh_ring 8) sim0"
proof -
  have "res = 1" if "fd \<in> {11, 12}" "len \<in> {1, 4}" "reply_allowed recv_reply (Recv fd a len 0) None res" for fd a len res
    using that by (auto simp: recv_reply_allowed)
  from scheduler_sections_return [OF reply.test_bed_axioms [of recv_reply] this, where ?a1.0 = 64 and ?a2.0 = 68] show ?thesis by auto
qed

text \<open>
  The operation sections have the results they check on every kernel that answers as their set-ups promise: five bytes
  waiting on \<open>reader\<close> and one on \<open>other\<close>, a closed peer behind \<open>closed\<close>, a descriptor to send on, a
  pending connection whose descriptor gets the flags the entry asks for, a file of eight bytes, an
  existing and a missing path, an address that accepts and one that refuses, ready and silent
  descriptors to poll; and a negative result for a descriptor that is not one and for an operation
  whose deadline passes. The answers are those of the set-up; what is shown is that they reach the
  variable the section checks.
\<close>

theorem operation_tests_pass:
  assumes bed: "test_bed os infl delay sent allowed r k0"
    and recv: "\<And>tmo res. allowed (Recv reader buf 16 0) tmo res \<Longrightarrow> res = 5" "\<And>res. allowed (Recv closed buf 16 0) None res \<Longrightarrow> res = 0"
      "\<And>tmo res. allowed (Recv other buf 4 0) tmo res \<Longrightarrow> res = 1"
    and send: "\<And>res. allowed (Send writer buf 5 0) None res \<Longrightarrow> res = 5"
    and bad: "\<And>op res. op \<in> {Recv (-1) buf 4 0, Send (-1) buf 1 0, Close (-1), Read (-1) \<lparr>sp_data = buf, sp_size = 1\<rparr> 0,
        Write (-1) \<lparr>sp_data = buf, sp_size = 1\<rparr> 0, Poll (-1) 1} \<Longrightarrow> allowed op None res \<Longrightarrow> res < 0"
    and accept: "\<And>res. allowed (Accept listener) None res \<Longrightarrow> res \<ge> 0"
      "\<And>res. allowed (Accept listener) None res \<Longrightarrow> status_flags res AND O_NONBLOCK = sqe_op_flags (prepare (Accept listener) 0 zero_sqe) AND SOCK_NONBLOCK"
      "\<And>res. allowed (Accept listener) None res \<Longrightarrow> (descriptor_flags res AND FD_CLOEXEC \<noteq> 0) = (sqe_op_flags (prepare (Accept listener) 0 zero_sqe) AND SOCK_CLOEXEC \<noteq> 0)"
    and close: "\<And>res. allowed (Close fd) None res \<Longrightarrow> res = 0"
    and disk: "\<And>res. allowed (Write fd \<lparr>sp_data = buf, sp_size = 2\<rparr> 0) None res \<Longrightarrow> res = 8"
      "\<And>res. allowed (Read fd \<lparr>sp_data = buf, sp_size = 4\<rparr> 0) None res \<Longrightarrow> res = 8"
    and path: "\<And>res. allowed (Open_default path O_RDONLY) None res \<Longrightarrow> res \<ge> 0" "\<And>res. allowed (Open_default missing O_RDONLY) None res \<Longrightarrow> res < 0"
      "\<And>res. allowed (Stat_default path) None res \<Longrightarrow> res = 0" "\<And>res. allowed (Stat_default missing) None res \<Longrightarrow> res < 0"
    and addr: "length addr = 16" "\<And>res. allowed (Connect fd (addr @ replicate 112 0) 16) None res \<Longrightarrow> res = 0"
      "length dead = 16" "\<And>tmo res. allowed (Connect away (dead @ replicate 112 0) 16) tmo res \<Longrightarrow> res < 0"
    and poll: "\<And>res. allowed (Poll reader 1) None res \<Longrightarrow> res AND 1 \<noteq> 0" "\<And>res. allowed (Poll writer 4) None res \<Longrightarrow> res AND 4 \<noteq> 0"
      "\<And>res. allowed (Poll closed 1) None res \<Longrightarrow> res AND 1 \<noteq> 0 \<or> res AND 16 \<noteq> 0"
      "\<And>res. allowed (Poll silent 1) (Some 50) res \<Longrightarrow> res < 0" "\<And>res. allowed (Poll other 1) None res \<Longrightarrow> res AND 1 \<noteq> 0"
  shows "test_recv reader buf os r k0 \<and> test_recv_eof closed buf os r k0 \<and> test_recv_bad_fd buf os r k0
    \<and> test_send writer buf os r k0 \<and> test_send_bad_fd buf os r k0 \<and> test_accept listener os r k0
    \<and> test_accept_flags status_flags descriptor_flags listener os r k0 \<and> test_close fd os r k0 \<and> test_close_bad_fd os r k0 \<and> test_write_read fd buf buf os r k0
    \<and> test_read_bad_fd buf os r k0 \<and> test_write_bad_fd buf os r k0 \<and> test_open path os r k0 \<and> test_open_missing missing os r k0
    \<and> test_stat path os r k0 \<and> test_stat_missing missing os r k0 \<and> test_connect fd addr os r k0 \<and> test_connect_copied fd addr os r k0 \<and> test_connect_refused away dead os r k0
    \<and> test_poll_in reader os r k0 \<and> test_poll_out writer os r k0 \<and> test_poll_closed closed os r k0 \<and> test_poll_bad_fd os r k0
    \<and> test_two_polls reader other os r k0 \<and> test_timeout_not_fired reader buf os r k0 \<and> test_poll_timeout silent os r k0
    \<and> test_connect_timeout away dead os r k0 \<and> test_two_timeouts other buf silent os r k0"
proof (intro conjI)
  note one = test_bed.one_op [OF bed] and two = test_bed.two_ops [OF bed] and connect = test_bed.connect_op [OF bed]
  show "test_recv reader buf os r k0" "test_recv_eof closed buf os r k0" "test_timeout_not_fired reader buf os r k0"
    unfolding test_recv_def test_recv_eof_def test_timeout_not_fired_def by (intro one recv, assumption)+
  show "test_recv_bad_fd buf os r k0" "test_send_bad_fd buf os r k0" "test_close_bad_fd os r k0" "test_read_bad_fd buf os r k0"
    "test_write_bad_fd buf os r k0" "test_poll_bad_fd os r k0"
    unfolding test_recv_bad_fd_def test_send_bad_fd_def test_close_bad_fd_def test_read_bad_fd_def test_write_bad_fd_def
      test_poll_bad_fd_def by (rule one, erule bad [rotated], simp add: POLLIN_def)+
  show "test_send writer buf os r k0" "test_accept listener os r k0" "test_close fd os r k0"
    unfolding test_send_def test_accept_def test_close_def by (intro one send accept(1) close, assumption)+
  show "test_accept_flags status_flags descriptor_flags listener os r k0"
    unfolding test_accept_flags_def by (rule one) (simp add: accept SOCK_NONBLOCK_def SOCK_CLOEXEC_def)
  show "test_write_read fd buf buf os r k0"
    unfolding test_write_read_def Let_def
    by (rule test_bed.one_passes [OF bed]) (auto simp: test_body_defs blocks_simps dest!: disk)
  show "test_open path os r k0" "test_open_missing missing os r k0" "test_stat path os r k0" "test_stat_missing missing os r k0"
    unfolding test_open_def test_open_missing_def test_stat_def test_stat_missing_def by (intro one path, assumption)+
  show "test_connect fd addr os r k0" "test_connect_copied fd addr os r k0" "test_connect_refused away dead os r k0"
    "test_connect_timeout away dead os r k0"
    unfolding test_connect_def test_connect_copied_def test_connect_refused_def test_connect_timeout_def by (intro connect addr, assumption)+
  show "test_poll_in reader os r k0" "test_poll_out writer os r k0" "test_poll_closed closed os r k0" "test_poll_timeout silent os r k0"
    unfolding test_poll_in_def test_poll_out_def test_poll_closed_def test_poll_timeout_def POLLIN_def POLLOUT_def POLLHUP_def
    by (rule one, use poll in simp)+
  show "test_two_polls reader other os r k0"
    unfolding test_two_polls_def Let_def by (rule two) (use poll in \<open>simp_all add: POLLIN_def\<close>)
  show "test_two_timeouts other buf silent os r k0"
    unfolding test_two_timeouts_def Let_def by (rule two) (use poll recv in \<open>simp_all add: POLLIN_def\<close>)
qed

text \<open>A kernel that keeps these promises, descriptor by descriptor.\<close>

definition op_reply :: "sqe \<Rightarrow> int" where
  "op_reply e =
     (if sqe_opcode e = IORING_OP_OPENAT then (if sqe_addr e = UserPtr 99 then -2 else 7)
      else if sqe_opcode e = IORING_OP_STATX then (if sqe_addr e = UserPtr 99 then -2 else 0)
      else if sqe_fd e < 0 then -9
      else if sqe_opcode e = IORING_OP_RECV then (if sqe_fd e = 10 then 5 else if sqe_fd e = 12 then 0 else 1)
      else if sqe_opcode e = IORING_OP_SEND then 5
      else if sqe_opcode e = IORING_OP_READ \<or> sqe_opcode e = IORING_OP_WRITE then 8
      else if sqe_opcode e = IORING_OP_CONNECT then (if sqe_fd e = 20 then -111 else 0)
      else if sqe_opcode e = IORING_OP_POLL_ADD then (if sqe_fd e = 13 then -125 else if sqe_op_flags e = 4 then 4 else 1)
      else 0)"

lemma op_reply_allowed: "reply_allowed op_reply op tmo res \<longleftrightarrow> res = op_reply (prepare op 0 zero_sqe)"
proof -
  have "op_reply (hd (entries_of a (mk_op op tmo))) = op_reply (prepare op 0 zero_sqe)" for a
    by (cases op; cases tmo) (simp_all add: op_reply_def entries_of_def mk_op_def mk_awaitable_def with_timeout_def primary_entry_def
        prepare_primary_def set_link_def del: prepare_primary_entry)
  then show ?thesis by (simp add: reply_allowed_def)
qed

theorem operation_tests_pass_witness:
  "let os = reply_os op_reply; r = fresh_ring 8; k0 = sim0; buf = 64; path = \<lparr>sv_data = 1, sv_size = 3\<rparr>; missing = \<lparr>sv_data = 99, sv_size = 3\<rparr>
   in test_recv 10 buf os r k0 \<and> test_recv_eof 12 buf os r k0 \<and> test_recv_bad_fd buf os r k0
    \<and> test_send 11 buf os r k0 \<and> test_send_bad_fd buf os r k0 \<and> test_accept 18 os r k0
    \<and> test_accept_flags (\<lambda>fd. 2050) (\<lambda>fd. 1) 18 os r k0 \<and> test_close 15 os r k0 \<and> test_close_bad_fd os r k0 \<and> test_write_read 15 buf buf os r k0
    \<and> test_read_bad_fd buf os r k0 \<and> test_write_bad_fd buf os r k0 \<and> test_open path os r k0 \<and> test_open_missing missing os r k0
    \<and> test_stat path os r k0 \<and> test_stat_missing missing os r k0 \<and> test_connect 15 (replicate 16 0) os r k0
    \<and> test_connect_copied 15 (replicate 16 0) os r k0 \<and> test_connect_refused 20 (replicate 16 1) os r k0
    \<and> test_poll_in 10 os r k0 \<and> test_poll_out 11 os r k0 \<and> test_poll_closed 12 os r k0 \<and> test_poll_bad_fd os r k0
    \<and> test_two_polls 10 14 os r k0 \<and> test_timeout_not_fired 10 buf os r k0 \<and> test_poll_timeout 13 os r k0
    \<and> test_connect_timeout 20 (replicate 16 1) os r k0 \<and> test_two_timeouts 14 buf 13 os r k0"
  unfolding Let_def
  by (rule operation_tests_pass [OF reply.test_bed_axioms])
     (auto simp: op_reply_allowed op_reply_def Open_default_def Stat_default_def O_NONBLOCK_def FD_CLOEXEC_def SOCK_NONBLOCK_def SOCK_CLOEXEC_def)

text \<open>
  C34: The section for an exhausted submission queue does not return. The second \<open>spawn\<close> throws \<open>SQFull\<close>
  as the section expects, but \<open>shutdown()\<close> then loops forever, on every kernel: arming the eventfd read
  has overwritten the only entry of the ring.
\<close>

theorem sq_exhausted_test_hangs:
  assumes "uring_kernel os infl" "infl k = {#}" "0 \<le> fst (os_eventfd os k)" "\<And>n k. os_can_grow os n k"
  shows "test_sq_exhausted rfd buf1 buf2 os k = None"
proof -
  let ?c1 = "CoAwait (Recv rfd buf1 1 0) None (\<lambda>n. co_return_void)" and ?c2 = "CoAwait (Recv rfd buf2 4 0) None (\<lambda>n. co_return_void)"
  obtain s :: "(unit, 'a) sched" where c: "Scheduler_ctor os (fresh_ring 0) k = Inr s"
    using assms(3) by (cases "os_eventfd os k") (simp add: Scheduler_ctor_def)
  have ok: "sched_inv (live_q infl s) s" "ring s = fresh_ring 0"
    using uring_kernel.ctor_safe [OF assms(1) c] ring_ok_fresh [of 0] assms(2) c
    by (auto simp: safe_def Scheduler_ctor_def split: prod.splits if_splits)
  have "has_capacity (ring s) 1" using ok(2) ring_ok_fresh(1) [of 0] has_capacity_1 [of "fresh_ring 0"] by (simp add: ring_ok_def)
  from spawn_one [OF ok(1) _ assms(4) this, of ?c1]
  obtain s1 where s1: "spawn_call os ?c1 s = (None, s1)" by auto
  note f = uring_kernel.one_entry_forgotten [OF assms(1) c assms(2) _ s1, simplified]
  let ?s2 = "s1\<lparr>frames := frames s1 @ [(new_frame TVoid ?c2)\<lparr>fr_destroyed := True\<rparr>]\<rparr>"
  have s2: "spawn_call os ?c2 s1 = (Some (IOExc SQFull), ?s2)"
    using spawn_full [of s1 os ?c2] capacity_spawn [OF f(3)] f(2) by simp
  have "forgotten infl (?s2\<lparr>shutting_down := True\<rparr>)"
    using forgotten_grow [OF f(1) [of True], of "[(new_frame TVoid ?c2)\<lparr>fr_destroyed := True\<rparr>]"] f(4)
    by (simp add: forgotten_def live_q_def frame_done_def)
  then have "shutdown os no_jobs ?s2 = None"
    unfolding shutdown_def by (rule uring_kernel.forgotten_hangs [OF assms(1)])
  then show ?thesis using c s1 s2 by (simp add: test_sq_exhausted_def Let_def)
qed

theorem sq_exhausted_test_hangs_witness: "test_sq_exhausted 4 64 68 sim_os sim0 = None"
  by (rule sq_exhausted_test_hangs [OF sim.uring_kernel_axioms]) (simp_all add: sim_os_def)


end
