(* ===== verification/Job_Tests.thy ===== *)
theory Job_Tests
  imports Operation_Tests
begin

text \<open>
  The jobs of \<^verbatim>\<open>tests2/multi_threaded.cpp\<close> and \<^verbatim>\<open>tests2/runtime_write.cpp\<close>: coroutines that open a
  file, read or write it and close it, and count what they have done in shared counters. An
  addition to a counter is an effect; its value is the number of those effects. The theorem is
  about any number of jobs on one scheduler, on every kernel.
\<close>

section \<open>Reading\<close>

text \<open>\<open>buf\<close>: the address of the job's 4096-byte buffer, 1024 words.\<close>

definition read_one_file :: "string_view \<Rightarrow> u64 \<Rightarrow> co" where
  "read_one_file path buf =
     CoAwait (Open_default path O_RDONLY) None (\<lambda>fd.
       let completed = CoAct (''completed'', 1) co_return_void
       in if fd \<ge> 0
          then CoAwait (Read fd \<lparr>sp_data = buf, sp_size = 4096 div 4\<rparr> 0) None (\<lambda>n.
                 let close_op = CoAwait (Close fd) None (\<lambda>_. completed)
                 in if n \<ge> 0 then CoAct (''succeeded'', 1) close_op else close_op)
          else completed)"

text \<open>The same with counters per worker.\<close>

definition read_one_file_on_worker :: "string_view \<Rightarrow> u64 \<Rightarrow> nat \<Rightarrow> co" where
  "read_one_file_on_worker path buf worker_idx =
     CoAwait (Open_default path O_RDONLY) None (\<lambda>fd.
       let completed = CoAct (''completed'', int worker_idx) co_return_void
       in if fd \<ge> 0
          then CoAwait (Read fd \<lparr>sp_data = buf, sp_size = 4096 div 4\<rparr> 0) None (\<lambda>n.
                 let close_op = CoAwait (Close fd) None (\<lambda>_. completed)
                 in if n \<ge> 0 then CoAct (''succeeded'', int worker_idx) close_op else close_op)
          else completed)"

section \<open>Writing\<close>

definition O_WRONLY :: int where "O_WRONLY = 1"
definition O_CREAT :: int where "O_CREAT = 64"
definition O_TRUNC :: int where "O_TRUNC = 512"

definition write_random_file :: "string_view \<Rightarrow> span \<Rightarrow> co" where
  "write_random_file path data =
     CoAwait (Open_default path (O_CREAT OR O_WRONLY OR O_TRUNC)) None (\<lambda>fd.
       let completed = CoAct (''completed'', 1) co_return_void
       in if fd \<ge> 0
          then CoAwait (Write fd data 0) None (\<lambda>_. CoAwait (Close fd) None (\<lambda>_. completed))
          else completed)"

text \<open>
  \<open>completion_order[job_idx] = order_counter.fetch_add(1)\<close> takes a place in a sequence; the number it
  stores is that place.
\<close>

definition write_random_sized_file :: "string_view \<Rightarrow> span \<Rightarrow> nat \<Rightarrow> co" where
  "write_random_sized_file path data job_idx =
     CoAwait (Open_default path (O_CREAT OR O_WRONLY OR O_TRUNC)) None (\<lambda>fd.
       let completed = CoAct (''order'', int job_idx) (CoAct (''completed'', 1) co_return_void)
       in if fd \<ge> 0
          then CoAwait (Write fd data 0) None (\<lambda>_. CoAwait (Close fd) None (\<lambda>_. completed))
          else completed)"

fun position :: "int \<Rightarrow> int list \<Rightarrow> int" where
  "position j [] = -1"
| "position j (x # xs) = (if x = j then 0 else let p = position j xs in if p < 0 then -1 else p + 1)"

definition completion_order :: "event list \<Rightarrow> nat \<Rightarrow> int" where
  "completion_order l job_idx = position (int job_idx) (pushed ''order'' l)"

definition counter :: "string \<Rightarrow> event list \<Rightarrow> nat" where
  "counter x l = length (filter (\<lambda>ev. fst ev = x) l)"

section \<open>Lemmas\<close>

lemma interleaves_mset: "interleaves ps l \<Longrightarrow> mset l = sum_list (map mset ps)"
proof (induction rule: interleaves.induct)
  case (none n)
  then show ?case by (induction n) simp_all
next
  case (one ps l i x)
  have "sum_list (map mset (ps[i := ps ! i @ [x]])) = sum_list (map mset ps) + {#x#}"
    using one.hyps(2)
  proof (induction ps arbitrary: i)
    case (Cons p ps)
    then show ?case by (cases i) auto
  qed simp
  then show ?case using one.IH by simp
qed

lemma counter_mset: "counter x l = size (filter_mset (\<lambda>ev. fst ev = x) (mset l))"
  by (simp add: counter_def flip: mset_filter)

lemma counter_interleaves: "interleaves ps l \<Longrightarrow> counter x l = sum_list (map (counter x) ps)"
proof -
  have "size (filter_mset P (sum_list (map mset ps))) = sum_list (map (\<lambda>p. size (filter_mset P (mset p))) ps)"
    for P :: "event \<Rightarrow> bool" and ps by (induction ps) simp_all
  then show "interleaves ps l \<Longrightarrow> counter x l = sum_list (map (counter x) ps)"
    by (simp add: counter_mset [abs_def] interleaves_mset)
qed

lemma pushed_mset: "mset (pushed x l) = image_mset snd (filter_mset (\<lambda>ev. fst ev = x) (mset l))"
  by (induction l) (auto simp: pushed_def)

lemma pushed_interleaves: "interleaves ps l \<Longrightarrow> mset (pushed x l) = sum_list (map (\<lambda>p. mset (pushed x p)) ps)"
proof -
  have "image_mset snd (filter_mset P (sum_list (map mset ps))) = sum_list (map (\<lambda>p. image_mset snd (filter_mset P (mset p))) ps)"
    for P :: "event \<Rightarrow> bool" and ps by (induction ps) simp_all
  then show "interleaves ps l \<Longrightarrow> mset (pushed x l) = sum_list (map (\<lambda>p. mset (pushed x p)) ps)"
    by (simp add: pushed_mset interleaves_mset)
qed

lemma position_nonneg: "j \<in> set xs \<Longrightarrow> 0 \<le> position j xs"
  by (induction xs) (auto simp: Let_def)

lemma read_one_file_run:
  "blocks allowed (read_one_file path buf) l out \<Longrightarrow> counter ''completed'' l = 1 \<and> counter ''succeeded'' l \<le> 1"
  by (auto simp: read_one_file_def blocks_simps counter_def Let_def split: if_splits)

lemma write_sized_run:
  "blocks allowed (write_random_sized_file path data j) l out \<Longrightarrow> counter ''completed'' l = 1 \<and> pushed ''order'' l = [int j]"
  by (auto simp: write_random_sized_file_def blocks_simps counter_def pushed_def Let_def split: if_splits)

section \<open>Properties\<close>

text \<open>
  No job is lost. With fewer than 128 jobs on one scheduler, on every kernel, whatever opens,
  reads and writes fail: \<open>shutdown()\<close> returns with every read job completed once and at most as many
  successes as jobs; and every write job of the ordering test completed once, with a place of its own
  in the completion order.
\<close>

theorem jobs_complete:
  assumes "test_bed os infl delay sent allowed r k0" "length files < 128" "n < 128"
  shows "passes (spawn_and_shutdown os r k0 (map (\<lambda>(path, buf). read_one_file path buf) files))
      (\<lambda>l. counter ''completed'' l = length files \<and> counter ''succeeded'' l \<le> length files)
    \<and> passes (spawn_and_shutdown os r k0 (map (\<lambda>i. write_random_sized_file (paths i) (datas i) i) [0..<n]))
      (\<lambda>l. counter ''completed'' l = n \<and> mset (pushed ''order'' l) = mset (map int [0..<n]) \<and> (\<forall>i < n. 0 \<le> completion_order l i))"
proof
  let ?cs = "map (\<lambda>(path, buf). read_one_file path buf) files"
  obtain s' ps where s': "spawn_and_shutdown os r k0 ?cs = Some (Inr s')" "interleaves ps (log s')"
    "list_all2 (\<lambda>c p. \<exists>out. blocks allowed c p out) ?cs ps"
    by (rule test_bed.program [OF assms(1), of ?cs]) (use assms(2) in auto)
  have "list_all2 (\<lambda>f p. counter ''completed'' p = 1 \<and> counter ''succeeded'' p \<le> 1) files ps"
    using s'(3) by (auto simp: list_all2_map1 elim!: list_all2_mono dest: read_one_file_run split: prod.splits)
  then have "sum_list (map (counter ''completed'') ps) = length files \<and> sum_list (map (counter ''succeeded'') ps) \<le> length files"
    by (induction rule: list_all2_induct) auto
  then show "passes (spawn_and_shutdown os r k0 ?cs)
      (\<lambda>l. counter ''completed'' l = length files \<and> counter ''succeeded'' l \<le> length files)"
    using s'(1) counter_interleaves [OF s'(2)] by (simp add: passes_def)
next
  let ?cs = "map (\<lambda>i. write_random_sized_file (paths i) (datas i) i) [0..<n]"
  obtain s' ps where s': "spawn_and_shutdown os r k0 ?cs = Some (Inr s')" "interleaves ps (log s')"
    "list_all2 (\<lambda>c p. \<exists>out. blocks allowed c p out) ?cs ps"
    by (rule test_bed.program [OF assms(1), of ?cs]) (use assms(3) in auto)
  have a: "list_all2 (\<lambda>i p. counter ''completed'' p = 1 \<and> pushed ''order'' p = [int i]) [0..<n] ps"
    using s'(3) by (auto simp: list_all2_map1 elim!: list_all2_mono dest: write_sized_run)
  have "sum_list (map (counter ''completed'') ps) = length is \<and> sum_list (map (\<lambda>p. mset (pushed ''order'' p)) ps) = mset (map int is)"
    if "list_all2 (\<lambda>i p. counter ''completed'' p = 1 \<and> pushed ''order'' p = [int i]) is ps" for "is"
    using that by (induction rule: list_all2_induct) auto
  from this [OF a] have o: "mset (pushed ''order'' (log s')) = mset (map int [0..<n])" and c: "counter ''completed'' (log s') = n"
    using pushed_interleaves [OF s'(2)] counter_interleaves [OF s'(2)] by simp_all
  have "set (pushed ''order'' (log s')) = int ` {0..<n}" using arg_cong [OF o, of set_mset] by simp
  then have "\<forall>i < n. 0 \<le> completion_order (log s') i" by (auto simp: completion_order_def intro!: position_nonneg)
  then show "passes (spawn_and_shutdown os r k0 ?cs)
      (\<lambda>l. counter ''completed'' l = n \<and> mset (pushed ''order'' l) = mset (map int [0..<n]) \<and> (\<forall>i < n. 0 \<le> completion_order l i))"
    using s'(1) c o by (simp add: passes_def)
qed

theorem jobs_complete_witness:
  "passes (spawn_and_shutdown (reply_os op_reply) (fresh_ring 8) sim0
      (map (\<lambda>(path, buf). read_one_file path buf) [(\<lparr>sv_data = 1, sv_size = 3\<rparr>, 64), (\<lparr>sv_data = 99, sv_size = 3\<rparr>, 4160)]))
    (\<lambda>l. counter ''completed'' l = 2)"
  using jobs_complete [OF reply.test_bed_axioms [of op_reply], of "[(\<lparr>sv_data = 1, sv_size = 3\<rparr>, 64), (\<lparr>sv_data = 99, sv_size = 3\<rparr>, 4160)]" 0]
  by (auto simp: passes_def split: option.splits sum.splits)

end
