(* ===== verification/Driver_Tests.thy ===== *)
theory Driver_Tests
  imports Handoff Job_Tests
begin

text \<open>
  The drivers of \<^verbatim>\<open>tests2/multi_threaded.cpp\<close> and \<^verbatim>\<open>tests2/runtime_write.cpp\<close>: client threads post jobs, the
  main thread polls a counter until every job has completed, then stops the scheduler or the runtime.
  The order of the posts and of the rounds of the threads before the polling begins is a schedule;
  from then on every thread makes a round between two polls. A deadline is the number of polls the
  test allows itself: \<open>None\<close> is the test's time-out. Shared counters are effects of the jobs.
\<close>

section \<open>Polling\<close>

fun poll_until :: "('s \<Rightarrow> bool) \<Rightarrow> ('s \<Rightarrow> exn option \<times> 's) list \<Rightarrow> 's \<Rightarrow> (exn option \<times> 's) option" where
  "poll_until ready [] s = (if ready s then Some (None, s) else None)"
| "poll_until ready (f # fs) s =
     (if ready s then Some (None, s)
      else case f s of (Some e, s') \<Rightarrow> Some (Some e, s') | (None, s') \<Rightarrow> poll_until ready fs s')"

primrec repeated :: "nat \<Rightarrow> ('s \<Rightarrow> exn option \<times> 's) \<Rightarrow> 's \<Rightarrow> exn option \<times> 's" where
  "repeated 0 f s = (None, s)"
| "repeated (Suc n) f s = (case f s of (Some e, s') \<Rightarrow> (Some e, s') | (None, s') \<Rightarrow> repeated n f s')"

lemma poll_repeated:
  "repeated n f s = (None, s') \<Longrightarrow> ready s' \<Longrightarrow> n \<le> N \<Longrightarrow>
    \<exists>k s''. repeated k f s = (None, s'') \<and> ready s'' \<and> poll_until ready (replicate N f) s = Some (None, s'')"
proof (induction n arbitrary: s N)
  case 0
  then show ?case by (intro exI [of _ 0] exI [of _ s]) (cases N, auto)
next
  case (Suc n)
  obtain N' where N: "N = Suc N'" "n \<le> N'" using Suc.prems(3) by (cases N) auto
  obtain s1 where s1: "f s = (None, s1)" "repeated n f s1 = (None, s')" using Suc.prems(1) by (auto split: prod.splits option.splits)
  show ?case
  proof (cases "ready s")
    case True
    then show ?thesis using N by (intro exI [of _ 0] exI [of _ s]) simp
  next
    case False
    obtain k s'' where "repeated k f s1 = (None, s'')" "ready s''" "poll_until ready (replicate N' f) s1 = Some (None, s'')"
      using Suc.IH [OF s1(2) Suc.prems(2) N(2)] by blast
    then show ?thesis using s1(1) N(1) False by (intro exI [of _ "Suc k"] exI [of _ s'']) simp
  qed
qed

lemma repeated_rounds: "repeated n (thread_round os invoke) s = run_schedule os invoke (replicate n None) s"
  by (induction n arbitrary: s) (auto split: prod.splits option.splits)

lemma repeated_sweeps: "repeated n (rt_run os invoke (sweep m)) rt = rt_run os invoke (sweeps n m) rt"
  by (induction n arbitrary: rt) (auto simp: sweeps_def rt_run_append split: prod.splits option.splits)

section \<open>Drivers\<close>

text \<open>
  What one client thread posts: with \<open>step\<close> threads, thread \<open>i\<close> takes every \<open>step\<close>-th file from the
  \<open>i\<close>-th on. In the stress test every thread posts \<open>per\<close> times and walks round a few files.
\<close>

function client_posts :: "nat \<Rightarrow> 'a list \<Rightarrow> nat \<Rightarrow> 'a list" where
  "client_posts step files i = (if i < length files \<and> 0 < step then files ! i # client_posts step files (i + step) else [])"
  by pat_completeness auto
termination
  by (relation "measure (\<lambda>(step, files, i). length files - i)") auto

declare client_posts.simps [simp del]

definition client_threads :: "nat \<Rightarrow> 'a list \<Rightarrow> 'a list list" where
  "client_threads n files = map (client_posts n files) [0..<n]"

definition stress_threads :: "nat \<Rightarrow> nat \<Rightarrow> 'a list \<Rightarrow> 'a list list" where
  "stress_threads n per files = map (\<lambda>t. map (\<lambda>i. files ! ((t + i) mod length files)) [0..<per]) [0..<n]"

text \<open>
  \<open>Concurrent /etc reads from multiple threads\<close> and \<open>Many threads hammering a single Scheduler::post\<close>:
  the threads' posts come in any interleaving with each other and with the rounds of the thread that
  runs the scheduler; \<open>expected\<close> is the number of posts.
\<close>

definition read_job :: "string_view \<times> u64 \<Rightarrow> co" where
  "read_job = (\<lambda>(path, buf). read_one_file path buf)"

definition test_concurrent_reads :: "'k os \<Rightarrow> ring \<Rightarrow> 'k \<Rightarrow> nat \<Rightarrow> (string_view \<times> u64) option list
    \<Rightarrow> nat \<Rightarrow> nat \<Rightarrow> (exn + (string_view \<times> u64, 'k) sched) option" where
  "test_concurrent_reads os r k expected evs deadline rounds =
     (case Scheduler_ctor os r k of
        Inl e \<Rightarrow> Some (Inl (IOExc e))
      | Inr s \<Rightarrow>
          let runner = spawn_jobs os read_job
          in case run_schedule os runner evs s of
            (Some e, _) \<Rightarrow> Some (Inl e)
          | (None, s1) \<Rightarrow>
             (case poll_until (\<lambda>s. expected \<le> counter ''completed'' (log s)) (replicate deadline (thread_round os runner)) s1 of
                None \<Rightarrow> None
              | Some (Some e, _) \<Rightarrow> Some (Inl e)
              | Some (None, s2) \<Rightarrow>
                  (case stop_and_join os runner rounds True s2 of
                     None \<Rightarrow> None
                   | Some (Some e, _) \<Rightarrow> Some (Inl e)
                   | Some (None, s3) \<Rightarrow> Some (Inr s3))))"

text \<open>The checks at the end of either test, on the counters.\<close>

definition reads_checked :: "nat \<Rightarrow> event list \<Rightarrow> bool" where
  "reads_checked expected l \<longleftrightarrow> counter ''completed'' l = expected \<and> 0 < counter ''succeeded'' l"

text \<open>A counter that the jobs of all workers add to.\<close>

definition rt_total :: "string \<Rightarrow> ('j, 'k) runtime \<Rightarrow> nat" where
  "rt_total x rt = sum_list (map (\<lambda>w. counter x (log w)) (workers (kst (dispatcher rt))))"

text \<open>A running runtime is given jobs, waited for and stopped.\<close>

definition drive :: "'k os \<Rightarrow> ('j wjob \<Rightarrow> co) \<Rightarrow> nat \<Rightarrow> 'j rt_event list \<Rightarrow> nat \<Rightarrow> nat \<Rightarrow> nat list
    \<Rightarrow> ('j, 'k) runtime \<Rightarrow> (exn + ('j, 'k) runtime) option" where
  "drive os job n evs deadline rounds wrounds rt =
     (let invoke = spawn_jobs os job; workers_n = length (workers (kst (dispatcher rt)))
      in case rt_run os invoke evs rt of
        (Some e, _) \<Rightarrow> Some (Inl e)
      | (None, rt1) \<Rightarrow>
         (case poll_until (\<lambda>rt. n \<le> rt_total ''completed'' rt) (replicate deadline (rt_run os invoke (sweep workers_n))) rt1 of
            None \<Rightarrow> None
          | Some (Some e, _) \<Rightarrow> Some (Inl e)
          | Some (None, rt2) \<Rightarrow>
              (case Runtime_stop os invoke rounds wrounds rt2 of
                 None \<Rightarrow> None
               | Some (Some e, _) \<Rightarrow> Some (Inl e)
               | Some (None, rt3) \<Rightarrow> Some (Inr rt3))))"

definition new_runtime :: "'k os \<Rightarrow> ring \<Rightarrow> 'k \<Rightarrow> (ring \<times> 'k) list \<Rightarrow> exn + ('j, 'k) runtime" where
  "new_runtime os r k rings =
     (case Runtime_ctor os r k rings of
        Inl e \<Rightarrow> Inl (IOExc e)
      | Inr rt0 \<Rightarrow> (case Runtime_start rt0 of (Some e, _) \<Rightarrow> Inl e | (None, rt) \<Rightarrow> Inr rt))"

text \<open>
  \<open>Runtime writes random data to a file in /tmp\<close>, with one worker and one file, and \<open>... to per-worker
  files with multiple workers\<close>, with eight of each: up to and including \<open>stop()\<close>. What the tests then
  read back from the files is not modelled.
\<close>

definition test_runtime_writes :: "'k os \<Rightarrow> ring \<Rightarrow> 'k \<Rightarrow> (ring \<times> 'k) list \<Rightarrow> (string_view \<times> span) list
    \<Rightarrow> (string_view \<times> span) rt_event list \<Rightarrow> nat \<Rightarrow> nat \<Rightarrow> nat list \<Rightarrow> (exn + (string_view \<times> span, 'k) runtime) option" where
  "test_runtime_writes os r k rings files evs deadline rounds wrounds =
     (case new_runtime os r k rings of
        Inl e \<Rightarrow> Some (Inl e)
      | Inr rt \<Rightarrow> drive os (\<lambda>((path, data), _). write_random_file path data) (length files) evs deadline rounds wrounds rt)"

text \<open>
  \<open>Runtime handles jobs with random write sizes that may complete out of order\<close>, up to and including
  \<open>stop()\<close>. The test waits without a deadline; \<open>deadline\<close> then is how many of its polls are looked at.
\<close>

definition test_runtime_order :: "'k os \<Rightarrow> ring \<Rightarrow> 'k \<Rightarrow> (ring \<times> 'k) list \<Rightarrow> (nat \<Rightarrow> string_view) \<Rightarrow> (nat \<Rightarrow> span) \<Rightarrow> nat
    \<Rightarrow> nat rt_event list \<Rightarrow> nat \<Rightarrow> nat \<Rightarrow> nat list \<Rightarrow> (exn + (nat, 'k) runtime) option" where
  "test_runtime_order os r k rings paths datas jobs evs deadline rounds wrounds =
     (case new_runtime os r k rings of
        Inl e \<Rightarrow> Some (Inl e)
      | Inr rt \<Rightarrow> drive os (\<lambda>(i, _). write_random_sized_file (paths i) (datas i) i) jobs evs deadline rounds wrounds rt)"

text \<open>
  \<open>One scheduler hands off work to multiple worker schedulers\<close>: the parts of a runtime put together by
  hand, the workers first, every thread running from the start.
\<close>

definition handoff_nodes :: "'k os \<Rightarrow> ring \<Rightarrow> 'k \<Rightarrow> (ring \<times> 'k) list \<Rightarrow> exn + ('j, 'k) runtime" where
  "handoff_nodes os r k rings =
     (case make_workers os rings of
        Inl e \<Rightarrow> Inl (IOExc e)
      | Inr ws \<Rightarrow>
          (case Scheduler_ctor (disp_os os) r \<lparr>wd_kernel = k, next_worker = 0, workers = ws\<rparr> of
             Inl e \<Rightarrow> Inl (IOExc e)
           | Inr d \<Rightarrow> Inr \<lparr>dispatcher = d, dispatcher_runner = True, worker_runners = replicate (length ws) True, rt_st = Running\<rparr>))"

definition worker_read_job :: "(string_view \<times> u64) wjob \<Rightarrow> co" where
  "worker_read_job = (\<lambda>((path, buf), idx). read_one_file_on_worker path buf idx)"

definition test_handoff :: "'k os \<Rightarrow> ring \<Rightarrow> 'k \<Rightarrow> (ring \<times> 'k) list \<Rightarrow> (string_view \<times> u64) list
    \<Rightarrow> (string_view \<times> u64) rt_event list \<Rightarrow> nat \<Rightarrow> nat \<Rightarrow> nat list \<Rightarrow> (exn + (string_view \<times> u64, 'k) runtime) option" where
  "test_handoff os r k rings files evs deadline rounds wrounds =
     (case handoff_nodes os r k rings of
        Inl e \<Rightarrow> Some (Inl e)
      | Inr rt \<Rightarrow> drive os worker_read_job (length files) evs deadline rounds wrounds rt)"

text \<open>The checks at its end: all files dealt with, some by every worker, and some read.\<close>

definition handoff_checked :: "nat \<Rightarrow> ('j, 'k) runtime \<Rightarrow> bool" where
  "handoff_checked expected rt \<longleftrightarrow> rt_total ''completed'' rt = expected
     \<and> (\<forall>w \<in> set (workers (kst (dispatcher rt))). 0 < counter ''completed'' (log w)) \<and> 0 < rt_total ''succeeded'' rt"

section \<open>Counting\<close>

definition answers_total :: "answers \<Rightarrow> bool" where
  "answers_total allowed \<longleftrightarrow> (\<forall>op tmo. \<exists>r. allowed op tmo r)"

definition counts_once :: "answers \<Rightarrow> co \<Rightarrow> bool" where
  "counts_once allowed c \<longleftrightarrow> (\<forall>l out. blocks allowed c l out \<longrightarrow> counter ''completed'' l = 1)"

lemma blocks_total: "answers_total allowed \<Longrightarrow> \<exists>l out. blocks allowed c l out"
proof (induction c)
  case (CoAwait op tmo k)
  then show ?case unfolding answers_total_def by (metis blocks.await rangeI)
next
  case (CoAwaitTask ty c k)
  then show ?case by (metis blocks.task rangeI)
qed (blast intro: blocks.intros)+

lemma counter_append [simp]: "counter x (l @ l') = counter x l + counter x l'"
  by (simp add: counter_def)

lemma thread_counter:
  assumes "thread_ok allowed sent s t" "counts_once allowed (th_body t)" "answers_total allowed"
  shows "counter ''completed'' (th_log t) \<le> 1"
proof (cases "waiting s (th_handle t)")
  case True
  then obtain op tmo f where f: "\<forall>r l out. allowed op tmo r \<longrightarrow> blocks allowed (f r) l out \<longrightarrow> blocks allowed (th_body t) (th_log t @ l) out"
    using assms(1) by (auto simp: thread_ok_def)
  obtain r l out where "allowed op tmo r" "blocks allowed (f r) l out"
    using assms(3) blocks_total [OF assms(3)] unfolding answers_total_def by metis
  then have "counter ''completed'' (th_log t @ l) = 1" using f assms(2) unfolding counts_once_def by blast
  then show ?thesis by simp
next
  case False
  then show ?thesis using assms(1,2) by (auto simp: thread_ok_def counts_once_def)
qed

lemma sum_list_bound: "(\<And>x. x \<in> set xs \<Longrightarrow> f x \<le> 1) \<Longrightarrow> sum_list (map f xs) \<le> length xs" for f :: "'a \<Rightarrow> nat"
  by (induction xs) force+

lemma conf_counter:
  assumes "conf allowed sent s ts" "\<And>t. t \<in> set ts \<Longrightarrow> counts_once allowed (th_body t)" "answers_total allowed"
  shows "counter ''completed'' (log s) \<le> length ts"
proof -
  have "counter ''completed'' (log s) = sum_list (map (counter ''completed'') (map th_log ts))"
    by (rule counter_interleaves) (use assms(1) in \<open>simp add: conf_def\<close>)
  also have "\<dots> \<le> length ts"
    using assms thread_counter [of allowed sent s] sum_list_bound [of ts "\<lambda>t. counter ''completed'' (th_log t)"]
    by (auto simp: conf_def comp_def)
  finally show ?thesis .
qed

lemma ran_counter:
  assumes "ran_all allowed cs s" "\<And>c. c \<in> set cs \<Longrightarrow> counts_once allowed c"
  shows "counter ''completed'' (log s) = length cs"
proof -
  obtain ps where ps: "interleaves ps (log s)" "list_all2 (\<lambda>c p. \<exists>out. blocks allowed c p out) cs ps"
    using assms(1) by (auto simp: ran_all_def)
  have "sum_list (map (counter ''completed'') ps) = length cs"
    using ps(2) assms(2)
  proof (induction rule: list_all2_induct)
    case (Cons c cs p ps)
    have "counts_once allowed c" using Cons.prems by simp
    then show ?case using Cons.IH Cons.prems Cons.hyps(1) by (auto simp: counts_once_def)
  qed simp
  then show ?thesis using counter_interleaves [OF ps(1)] by simp
qed

lemma jobs_count_once:
  "counts_once allowed (read_one_file path buf)" "counts_once allowed (read_one_file_on_worker path buf i)"
  "counts_once allowed (write_random_file path data)" "counts_once allowed (write_random_sized_file path data i)"
  by (auto simp: counts_once_def read_one_file_def read_one_file_on_worker_def write_random_file_def write_random_sized_file_def
      blocks_simps counter_def Let_def split: if_splits)

lemma once_read_job: "counts_once allowed (read_job f)"
  using jobs_count_once(1) by (simp add: read_job_def split: prod.split)

text \<open>A file that can be opened and read.\<close>

definition readable :: "answers \<Rightarrow> string_view \<times> u64 \<Rightarrow> bool" where
  "readable allowed f \<longleftrightarrow> (case f of (path, buf) \<Rightarrow>
     \<forall>fd. allowed (Open_default path O_RDONLY) None fd \<longrightarrow> 0 \<le> fd
       \<and> (\<forall>n. allowed (Read fd \<lparr>sp_data = buf, sp_size = 4096 div 4\<rparr> 0) None n \<longrightarrow> 0 \<le> n))"

lemma read_job_run:
  assumes "blocks allowed (read_job f) l out"
  shows "counter ''succeeded'' l \<le> 1" "readable allowed f \<Longrightarrow> counter ''succeeded'' l = 1"
  using assms by (auto simp: read_job_def readable_def read_one_file_def blocks_simps counter_def Let_def split: if_splits prod.splits)

lemma ran_reads:
  assumes "ran_all allowed (map read_job files) s"
  shows "counter ''completed'' (log s) = length files" "counter ''succeeded'' (log s) \<le> length files"
    "\<exists>f \<in> set files. readable allowed f \<Longrightarrow> 0 < counter ''succeeded'' (log s)"
proof -
  have "counts_once allowed c" if "c \<in> set (map read_job files)" for c using that once_read_job by auto
  from ran_counter [OF assms this] show "counter ''completed'' (log s) = length files" by simp
  obtain ps where ps: "interleaves ps (log s)" "list_all2 (\<lambda>f p. \<exists>out. blocks allowed (read_job f) p out) files ps"
    using assms by (auto simp: ran_all_def list_all2_map1)
  have "list_all2 (\<lambda>f p. counter ''succeeded'' p \<le> 1 \<and> (readable allowed f \<longrightarrow> counter ''succeeded'' p = 1)) files ps"
    by (rule list_all2_mono [OF ps(2)]) (use read_job_run in blast)
  then have "sum_list (map (counter ''succeeded'') ps) \<le> length files
      \<and> ((\<exists>f \<in> set files. readable allowed f) \<longrightarrow> 0 < sum_list (map (counter ''succeeded'') ps))"
    by (induction rule: list_all2_induct) auto
  then show "counter ''succeeded'' (log s) \<le> length files" "\<exists>f \<in> set files. readable allowed f \<Longrightarrow> 0 < counter ''succeeded'' (log s)"
    using counter_interleaves [OF ps(1)] by auto
qed

lemma ran_worker_reads:
  assumes "ran_all allowed (map worker_read_job js) s" "j \<in> set js" "readable allowed (fst j)"
  shows "0 < counter ''succeeded'' (log s)"
proof -
  obtain ps where ps: "interleaves ps (log s)"
    "list_all2 (\<lambda>j p. \<exists>out. blocks allowed (worker_read_job j) p out) js ps"
    using assms(1) by (auto simp: ran_all_def list_all2_map1)
  have one: "0 < counter ''succeeded'' p" if "readable allowed (fst j)" "blocks allowed (worker_read_job j) p out" for j p out
    using that by (cases j) (auto simp: worker_read_job_def readable_def read_one_file_on_worker_def blocks_simps counter_def Let_def split: if_splits)
  have "0 < sum_list (map (counter ''succeeded'') ps)"
    using ps(2) assms(2,3) by (induction rule: list_all2_induct) (auto dest: one)
  then show ?thesis using counter_interleaves [OF ps(1)] by simp
qed

section \<open>Client threads\<close>

lemma mset_client_posts:
  "0 < k \<Longrightarrow> mset (client_posts k xs i) = image_mset ((!) xs) (mset_set {j. i \<le> j \<and> j < length xs \<and> j mod k = i mod k})"
proof (induction k xs i rule: client_posts.induct)
  case (1 k xs i)
  show ?case
  proof (cases "i < length xs")
    case True
    have "i + k \<le> j" if "i \<le> j" "j mod k = i mod k" "j \<noteq> i" for j
    proof -
      have "k dvd j - i" using that by (metis mod_eq_dvd_iff_nat)
      then have "k \<le> j - i" using that by (intro dvd_imp_le) auto
      then show ?thesis using that(1) by simp
    qed
    then have "{j. i \<le> j \<and> j < length xs \<and> j mod k = i mod k}
        = insert i {j. i + k \<le> j \<and> j < length xs \<and> j mod k = (i + k) mod k}" (is "?A = insert i ?B")
      using True by auto
    moreover have "i \<notin> ?B" "finite ?B" using "1.prems" by auto
    ultimately have "mset_set ?A = add_mset i (mset_set ?B)" by simp
    then show ?thesis using 1 True by (subst client_posts.simps) simp
  next
    case False
    then have e: "{j. i \<le> j \<and> j < length xs \<and> j mod k = i mod k} = {}" by auto
    show ?thesis using False by (subst client_posts.simps) (simp add: e)
  qed
qed

lemma mset_client_threads:
  assumes "0 < k"
  shows "mset (concat (client_threads k xs)) = mset xs"
proof -
  have one: "mset (client_posts k xs i) = image_mset ((!) xs) (filter_mset (\<lambda>j. j mod k = i) (mset [0..<length xs]))" if "i < k" for i
  proof -
    have "{j. i \<le> j \<and> j < length xs \<and> j mod k = i mod k} = {j \<in> {0..<length xs}. j mod k = i}" using that by auto
    then have "mset_set {j. i \<le> j \<and> j < length xs \<and> j mod k = i mod k} = filter_mset (\<lambda>j. j mod k = i) (mset_set {0..<length xs})" by simp
    then show ?thesis by (simp add: mset_client_posts [OF assms])
  qed
  have single: "sum_list (map (\<lambda>i. if x = i then {#y#} else {#}) [0..<n]) = (if x < n then {#y#} else {#})" for x n and y :: nat
    by (induction n) auto
  have all: "sum_list (map (\<lambda>i. filter_mset (\<lambda>j. j mod k = i) (mset ys)) [0..<k]) = mset ys" for ys :: "nat list"
  proof (induction ys)
    case (Cons y ys)
    have "sum_list (map (\<lambda>i. filter_mset (\<lambda>j. j mod k = i) (mset (y # ys))) [0..<k])
        = sum_list (map (\<lambda>i. (if y mod k = i then {#y#} else {#}) + filter_mset (\<lambda>j. j mod k = i) (mset ys)) [0..<k])"
      by (intro arg_cong [where f = sum_list] map_cong) auto
    then show ?case using Cons single [of "y mod k"] assms by (simp add: sum_list_addf)
  next
    case Nil
    have "sum_list (map (\<lambda>i. {#}) is) = ({#} :: nat multiset)" for "is" :: "nat list" by (induction "is") simp_all
    then show ?case by simp
  qed
  have push: "sum_list (map (\<lambda>i. image_mset ((!) xs) (M i)) is) = image_mset ((!) xs) (sum_list (map M is))" for M and "is" :: "nat list"
    by (induction "is") simp_all
  have "mset (concat (client_threads k xs)) = sum_list (map (\<lambda>i. mset (client_posts k xs i)) [0..<k])"
    by (simp add: client_threads_def mset_concat comp_def)
  also have "\<dots> = sum_list (map (\<lambda>i. image_mset ((!) xs) (filter_mset (\<lambda>j. j mod k = i) (mset [0..<length xs]))) [0..<k])"
    by (intro arg_cong [where f = sum_list] map_cong) (simp_all add: one)
  also have "\<dots> = image_mset ((!) xs) (mset [0..<length xs])" by (simp only: push all)
  also have "\<dots> = mset xs" by (metis mset_map map_nth)
  finally show ?thesis .
qed

lemma client_schedule:
  assumes "0 < k" "interleaves (client_threads k xs) l"
  shows "mset l = mset xs" "length l = length xs" "set l = set xs"
proof -
  show m: "mset l = mset xs" using interleaves_mset [OF assms(2)] mset_client_threads [OF assms(1), of xs] by (simp add: mset_concat)
  show "length l = length xs" "set l = set xs" using m mset_eq_length mset_eq_setD by blast+
qed

section \<open>One scheduler\<close>

context waking_bed
begin

lemma busy_counter:
  assumes "busy prog cs s" "\<And>c. c \<in> set cs \<Longrightarrow> counts_once allowed c" "answers_total allowed"
  shows "counter ''completed'' (log s) + length (inbox s) \<le> length cs"
proof -
  obtain ts where ts: "conf allowed sent s ts" "map th_body ts @ map prog (inbox s) = cs" using assms(1) by (auto simp: busy_def)
  have "counter ''completed'' (log s) \<le> length ts"
    by (rule conf_counter [OF ts(1) _ assms(3)]) (use ts(2) assms(2) in auto)
  moreover have "length cs = length ts + length (inbox s)" using arg_cong [OF ts(2), of length] by simp
  ultimately show ?thesis by simp
qed

lemma busy_ran:
  assumes "busy prog cs s" "tasks s = []" "inbox s = []"
  shows "ran_all allowed cs s"
proof -
  have "ub_flag s = None" using assms(1) sched_inv_calm by (fastforce simp: busy_def safe_def calm_def)
  moreover obtain ps where "interleaves ps (log s)" "list_all2 (\<lambda>c p. \<exists>out. blocks allowed c p out) cs ps"
    by (rule busy_done [OF assms])
  ultimately show ?thesis using assms(2,3) by (auto simp: ran_all_def)
qed

lemma small_read_job: "first_small (read_job f)"
  by (simp add: read_job_def read_one_file_def split: prod.split)

lemma concurrent_reads:
  assumes tot: "answers_total allowed" and len: "length (posts evs) = expected" and n: "2 * expected < unat (sq_entries r)"
  shows "\<exists>N. \<forall>n \<ge> N. \<exists>s'. test_concurrent_reads os r k0 expected evs n rounds = Some (Inr s')
    \<and> ran_all allowed (map read_job (posts evs)) s'"
proof -
  let ?inv = "spawn_jobs os read_job" and ?cs = "map read_job (posts evs)"
  let ?ready = "\<lambda>s. expected \<le> counter ''completed'' (log s)"
  have once: "\<And>c. c \<in> set ?cs \<Longrightarrow> counts_once allowed c" using once_read_job by auto
  obtain s0 where c: "Scheduler_ctor os r k0 = Inr (s0 :: (string_view \<times> u64, 'k) sched)"
    using eventfd_ok by (cases "os_eventfd os k0") (simp add: Scheduler_ctor_def)
  obtain s1 where s1: "run_schedule os ?inv evs s0 = (None, s1)" "busy read_job ?cs s1"
    using busy_schedule [of read_job "[]" s0 evs, OF small_read_job ctor_busy(1) [OF c]] n ctor_busy(2) [OF c] len by auto
  obtain N where N: "\<And>n. N \<le> n \<Longrightarrow> \<exists>s'. run_schedule os ?inv (replicate n None) s1 = (None, s') \<and> busy read_job ?cs s' \<and> tasks s' = [] \<and> inbox s' = []"
    using busy_run [of read_job, OF small_read_job s1(2)] by blast
  obtain s' where s': "repeated N (thread_round os ?inv) s1 = (None, s')" "busy read_job ?cs s'" "tasks s' = []" "inbox s' = []"
    using N [of N] by (auto simp: repeated_rounds)
  have "?ready s'" using ran_counter [OF busy_ran [OF s'(2-4)] once] len by simp
  have "\<exists>s3. test_concurrent_reads os r k0 expected evs n rounds = Some (Inr s3) \<and> ran_all allowed ?cs s3" if "N \<le> n" for n
  proof -
    note n = that
    obtain k s2 where s2: "repeated k (thread_round os ?inv) s1 = (None, s2)" "?ready s2"
      "poll_until ?ready (replicate n (thread_round os ?inv)) s1 = Some (None, s2)"
      using poll_repeated [OF s'(1), of ?ready, OF \<open>?ready s'\<close> n] by blast
    have "2 * length ?cs < unat (sq_entries (ring s1))" using s1(2) by (simp add: busy_def)
    then have b: "busy read_job ?cs s2"
      using busy_schedule [of read_job ?cs s1 "replicate k None", OF small_read_job s1(2)] s2(1) by (simp add: repeated_rounds posts_def)
    have "counter ''completed'' (log s2) + length (inbox s2) \<le> expected" using busy_counter [OF b once tot] len by simp
    then have "length (inbox s2) = 0" using s2(2) by linarith
    then have "started read_job ?cs s2" using b by (simp add: started_def)
    from started_stop [of read_job, OF small_read_job this] obtain s3 where
      "stop_and_join os ?inv rounds True s2 = Some (None, s3)" "ran_all allowed ?cs s3" by blast
    then show ?thesis using c s1(1) s2(3) by (simp add: test_concurrent_reads_def Let_def)
  qed
  then show ?thesis by blast
qed

lemma reads_pass:
  assumes "answers_total allowed" "length (posts evs) = expected" "expected < 128"
  shows "\<exists>N. \<forall>deadline \<ge> N. passes (test_concurrent_reads os r k0 expected evs deadline rounds)
    (\<lambda>l. counter ''completed'' l = expected \<and> counter ''succeeded'' l \<le> expected
      \<and> ((\<exists>f \<in> set (posts evs). readable allowed f) \<longrightarrow> 0 < counter ''succeeded'' l))"
proof -
  have n: "2 * expected < unat (sq_entries r)" using default_size assms(3) by simp
  obtain N where N: "\<And>n. N \<le> n \<Longrightarrow> \<exists>s'. test_concurrent_reads os r k0 expected evs n rounds = Some (Inr s')
      \<and> ran_all allowed (map read_job (posts evs)) s'"
    using concurrent_reads [OF assms(1,2) n] by blast
  have "passes (test_concurrent_reads os r k0 expected evs n rounds)
    (\<lambda>l. counter ''completed'' l = expected \<and> counter ''succeeded'' l \<le> expected
      \<and> ((\<exists>f \<in> set (posts evs). readable allowed f) \<longrightarrow> 0 < counter ''succeeded'' l))" if n: "N \<le> n" for n
  proof -
    obtain s' where s': "test_concurrent_reads os r k0 expected evs n rounds = Some (Inr s')" "ran_all allowed (map read_job (posts evs)) s'"
      using N [OF n] by blast
    then show ?thesis using ran_reads [OF s'(2)] assms(2) by (simp add: passes_def)
  qed
  then show ?thesis by blast
qed

end

section \<open>A runtime\<close>

lemma sum_share: "0 < n \<Longrightarrow> sum_list (map (\<lambda>i. length (share c n i js)) [0..<n]) = length js"
proof (induction js arbitrary: c)
  case (Cons j js)
  have one: "sum_list (map (\<lambda>i. if x = i then 1 else 0) [0..<n]) = (if x < n then 1 else (0 :: nat))" for x
    by (induction n) auto
  have "sum_list (map (\<lambda>i. length (share c n i (j # js))) [0..<n])
      = sum_list (map (\<lambda>i. (if unat c mod n = i then 1 else 0) + length (share (c + 1) n i js)) [0..<n])"
    by (intro arg_cong [where f = sum_list] map_cong) auto
  also have "\<dots> = 1 + length js"
    using Cons one [of "unat c mod n"] by (simp add: sum_list_addf)
  finally show ?case by simp
qed simp

lemma length_share_le: "length (share c n i js) \<le> length js"
  by (induction js arbitrary: c) (auto simp: le_SucI)

lemma posts_sweeps: "rt_posts (sweeps k n :: 'j rt_event list) = []"
proof -
  have app: "rt_posts (xs @ ys) = rt_posts xs @ rt_posts ys" for xs ys :: "'j rt_event list" by (induction xs) simp_all
  have "rt_posts (map WorkerRound is :: 'j rt_event list) = []" for "is" by (induction "is") simp_all
  then have "rt_posts (sweep n :: 'j rt_event list) = []" by (simp add: sweep_def)
  then show "rt_posts (sweeps k n :: 'j rt_event list) = []" by (induction k) (simp_all add: sweeps_def app)
qed

lemma sum_list_le: "(\<And>x. x \<in> set xs \<Longrightarrow> f x \<le> g x) \<Longrightarrow> sum_list (map f xs) \<le> sum_list (map g xs)" for f g :: "'a \<Rightarrow> nat"
  by (induction xs) (auto intro: add_mono)

lemma rt_total_nth: "length (workers (kst (dispatcher rt))) = n \<Longrightarrow>
    rt_total x rt = sum_list (map (\<lambda>i. counter x (log (workers (kst (dispatcher rt)) ! i))) [0..<n])"
  unfolding rt_total_def by (metis (no_types, lifting) map_nth map_map comp_apply map_cong)

lemma rt_total_ran:
  assumes "list_all2 (ran_all allowed) css (workers (kst (dispatcher rt)))" "\<And>c. c \<in> \<Union> (set ` set css) \<Longrightarrow> counts_once allowed c"
  shows "rt_total ''completed'' rt = sum_list (map length css)"
proof -
  have "sum_list (map (\<lambda>w. counter ''completed'' (log w)) ws) = sum_list (map length css)"
    if "list_all2 (ran_all allowed) css ws" "\<And>c. c \<in> \<Union> (set ` set css) \<Longrightarrow> counts_once allowed c" for ws :: "('a wjob, 'b) sched list"
    using that
  proof (induction rule: list_all2_induct)
    case (Cons cs css w ws)
    have "counter ''completed'' (log w) = length cs" by (rule ran_counter [OF Cons.hyps(1)]) (use Cons.prems in auto)
    then show ?case using Cons.IH Cons.prems by simp
  qed simp
  then show ?thesis unfolding rt_total_def using assms by blast
qed

context runtime_bed
begin

text \<open>When as many jobs have completed as were posted, all have been handed over and started.\<close>

lemma rt_total_all:
  assumes t: "tending prog js m (dispatcher rt)" and once: "\<And>j. counts_once allowed (prog j)" and tot: "answers_total allowed"
    and n: "length js \<le> rt_total ''completed'' rt"
  shows "m = length js" "\<And>i. i < length rings \<Longrightarrow> inbox (workers (kst (dispatcher rt)) ! i) = []"
proof -
  let ?n = "length rings" and ?w = "\<lambda>i. workers (kst (dispatcher rt)) ! i"
  have h: "length (workers (kst (dispatcher rt))) = ?n" "m \<le> length js" "\<And>i. i < ?n \<Longrightarrow> busy prog (map prog (wshare i (take m js))) (?w i)"
    using t by (simp_all add: tending_def handed_def given_def)
  have b: "counter ''completed'' (log (?w i)) + length (inbox (?w i)) \<le> length (wshare i (take m js))" if "i < ?n" for i
    using busy_counter [OF h(3) [OF that] _ tot] once by fastforce
  have "sum_list (map (\<lambda>i. counter ''completed'' (log (?w i)) + length (inbox (?w i))) [0..<?n])
      \<le> sum_list (map (\<lambda>i. length (wshare i (take m js))) [0..<?n])"
    by (rule sum_list_le) (use b in auto)
  also have "\<dots> = m" using sum_share [of ?n 0 "take m js"] some_worker h(2) by simp
  finally have s: "rt_total ''completed'' rt + sum_list (map (\<lambda>i. length (inbox (?w i))) [0..<?n]) \<le> m"
    using rt_total_nth [OF h(1)] by (simp add: sum_list_addf)
  then show "m = length js" using n h(2) by simp
  have "sum_list (map (\<lambda>i. length (inbox (?w i))) [0..<?n]) = 0" using s n h(2) by linarith
  then show "inbox (?w i) = []" if "i < ?n" for i using that by (auto simp: sum_list_eq_0_iff)
qed

lemma drive_done:
  fixes evs :: "'j rt_event list" and rt :: "('j, 'k) runtime"
  assumes small: "\<And>j. first_small (prog j)" and once: "\<And>j. counts_once allowed (prog j)" and tot: "answers_total allowed"
    and room: "roomy (rt_posts evs)" and l: "length wrounds = length rings"
    and rt: "tending prog [] 0 (dispatcher rt)" "rt_st rt = Running" "length (worker_runners rt) = length rings"
  shows "\<exists>N. \<forall>n \<ge> N. \<exists>rt'. drive os prog (length (rt_posts evs)) evs n rounds wrounds rt = Some (Inr rt')
    \<and> rt_st rt' = Stopped \<and> rt_total ''completed'' rt' = length (rt_posts evs)
    \<and> list_all2 (ran_all allowed) (map (\<lambda>i. map prog (wshare i (rt_posts evs))) [0..<length rings]) (workers (kst (dispatcher rt')))"
proof -
  let ?js = "rt_posts evs" and ?inv = "spawn_jobs os prog" and ?ready = "\<lambda>rt. length (rt_posts evs) \<le> rt_total ''completed'' rt"
  let ?css = "map (\<lambda>i. map prog (wshare i (rt_posts evs))) [0..<length rings]" and ?sweep = "rt_run os (spawn_jobs os prog) (sweep (length rings))"
  have total: "rt_total ''completed'' rt' = length ?js" if "list_all2 (ran_all allowed) ?css (workers (kst (dispatcher rt')))" for rt' :: "('j, 'k) runtime"
  proof -
    have "rt_total ''completed'' rt' = sum_list (map length ?css)" by (rule rt_total_ran [OF that]) (use once in auto)
    then show ?thesis using sum_share [of "length rings" 0 ?js] some_worker by (simp add: comp_def)
  qed
  obtain rt1 m1 where r1: "rt_run os ?inv evs rt = (None, rt1)" "tending prog ?js m1 (dispatcher rt1)"
    using rt_schedule [of prog "[]" 0 rt evs, OF small rt(1)] room by auto
  obtain N rt2 where r2: "repeated N ?sweep rt1 = (None, rt2)" "tending prog ?js (length ?js) (dispatcher rt2)"
    "\<forall>i < length rings. tasks (workers (kst (dispatcher rt2)) ! i) = [] \<and> inbox (workers (kst (dispatcher rt2)) ! i) = []"
    using eventually_done [of prog, OF small room r1(2)] unfolding repeated_sweeps by blast
  have ran: "ran_all allowed (map prog (wshare i ?js)) (workers (kst (dispatcher rt2)) ! i)" if "i < length rings" for i
    by (rule busy_ran [of prog]) (use r2(2,3) that in \<open>auto simp: tending_def handed_def given_def\<close>)
  have "list_all2 (ran_all allowed) ?css (workers (kst (dispatcher rt2)))"
    using r2(2) ran by (simp add: list_all2_conv_all_nth tending_def handed_def)
  from total [OF this] have ready: "?ready rt2" by simp
  have w: "length (workers (kst (dispatcher rt))) = length rings" using rt(1) by (simp add: tending_def handed_def)
  have "\<exists>rt4. drive os prog (length ?js) evs n rounds wrounds rt = Some (Inr rt4) \<and> rt_st rt4 = Stopped
      \<and> rt_total ''completed'' rt4 = length ?js \<and> list_all2 (ran_all allowed) ?css (workers (kst (dispatcher rt4)))" if n: "N \<le> n" for n
  proof -
    obtain k rt3 where r3: "repeated k ?sweep rt1 = (None, rt3)" "?ready rt3" "poll_until ?ready (replicate n ?sweep) rt1 = Some (None, rt3)"
      using poll_repeated [OF r2(1), of ?ready, OF ready n] by blast
    have run: "rt_run os ?inv (sweeps k (length rings)) rt1 = (None, rt3)" using r3(1) by (simp add: repeated_sweeps)
    have "rt_posts (sweeps k (length rings) :: 'j rt_event list) = []" by (rule posts_sweeps)
    then obtain m3 where t3: "tending prog ?js m3 (dispatcher rt3)"
      using rt_schedule [of prog ?js m1 rt1 "sweeps k (length rings)", OF small r1(2)] run room by auto
    note all = rt_total_all [OF t3 once tot r3(2)]
    have t: "tending prog ?js (length ?js) (dispatcher rt3)" using t3 all(1) by simp
    have "rt_run os ?inv (evs @ sweeps k (length rings)) rt = (None, rt3)" using r1(1) run by (simp add: rt_run_append)
    then have "rt_st rt3 = Running" "length (worker_runners rt3) = length rings" using rt_run_fields rt(2,3) by fastforce+
    from tending_stop [OF small room t all(2) this(1) l this(2), of rounds] obtain rt4 where
      r4: "Runtime_stop os ?inv rounds wrounds rt3 = Some (None, rt4)" "rt_st rt4 = Stopped"
        "list_all2 (ran_all allowed) ?css (workers (kst (dispatcher rt4)))" by blast
    then show ?thesis using r1(1) r3(3) total [OF r4(3)] w by (simp add: drive_def Let_def)
  qed
  then show ?thesis by blast
qed

lemma new_runtime_ok:
  fixes prog :: "'j wjob \<Rightarrow> co"
  obtains rt where "new_runtime os r k0 rings = Inr rt" "tending prog [] 0 (dispatcher rt)" "rt_st rt = Running"
    "length (worker_runners rt) = length rings"
proof -
  obtain d :: "('j, ('j, 'k) world) sched" and ws :: "('j wjob, 'k) sched list" where
    "Scheduler_ctor (disp_os os) r \<lparr>wd_kernel = k0, next_worker = 0, workers = []\<rparr> = Inr d" "make_workers os rings = Inr ws"
    using schedulers_made by blast
  then obtain rt0 :: "('j, 'k) runtime" where c: "Runtime_ctor os r k0 rings = Inr rt0" by (simp add: Runtime_ctor_def)
  then obtain rt where st: "Runtime_start rt0 = (None, rt)" by (auto simp: Runtime_ctor_def Runtime_start_def split: sum.splits)
  show thesis by (rule that [OF _ start_tending [OF c st]]) (simp add: new_runtime_def c st)
qed

lemma handoff_nodes_ok:
  fixes prog :: "'j wjob \<Rightarrow> co"
  obtains rt where "handoff_nodes os r k0 rings = Inr rt" "tending prog [] 0 (dispatcher rt)" "rt_st rt = Running"
    "length (worker_runners rt) = length rings"
proof -
  obtain ws :: "('j wjob, 'k) sched list" where ws: "make_workers os rings = Inr ws" using schedulers_made(2) by blast
  obtain d :: "('j, ('j, 'k) world) sched" where
    d: "Scheduler_ctor (disp_os os) r \<lparr>wd_kernel = k0, next_worker = 0, workers = ws\<rparr> = Inr d"
    using schedulers_made(1) by blast
  have "workers (kst d) = ws" using d by (auto simp: Scheduler_ctor_def disp_os_def split: prod.splits if_splits)
  then have "(kst d)\<lparr>workers := ws\<rparr> = kst d" by (cases "kst d") simp
  then have "tending prog [] 0 d" using new_tending [OF d ws, of prog] by simp
  then show thesis using that ws d make_workers_nth [OF ws] by (auto simp: handoff_nodes_def)
qed

lemma roomy_few: "length js < 128 \<Longrightarrow> roomy js"
  using roomy_default length_share_le order.strict_trans1 by blast

end

section \<open>What the workers have done\<close>

lemma mset_share: "0 < n \<Longrightarrow> mset (concat (map (\<lambda>i. map fst (share c n i js)) [0..<n])) = mset js"
proof (induction js arbitrary: c)
  case Nil
  then show ?case by (simp add: mset_concat comp_def)
next
  case (Cons j js)
  have one: "sum_list (map (\<lambda>i. if x = i then {#j#} else {#}) [0..<n]) = (if x < n then {#j#} else {#})" for x
    by (induction n) auto
  have "sum_list (map (\<lambda>i. mset (map fst (share c n i (j # js)))) [0..<n])
      = sum_list (map (\<lambda>i. (if unat c mod n = i then {#j#} else {#}) + mset (map fst (share (c + 1) n i js))) [0..<n])"
    by (intro arg_cong [where f = sum_list] map_cong) auto
  also have "\<dots> = {#j#} + mset js"
    using Cons.IH [of "c + 1"] Cons.prems one [of "unat c mod n"] by (simp add: sum_list_addf mset_concat comp_def)
  finally show ?case by (simp add: mset_concat comp_def)
qed

lemma ran_order:
  assumes "ran_all allowed (map (\<lambda>(i, x). write_random_sized_file (paths i) (datas i) i) js) s"
  shows "mset (pushed ''order'' (log s)) = mset (map (\<lambda>j. int (fst j)) js)"
proof -
  obtain ps where ps: "interleaves ps (log s)"
    "list_all2 (\<lambda>j p. \<exists>out. blocks allowed (case j of (i, x) \<Rightarrow> write_random_sized_file (paths i) (datas i) i) p out) js ps"
    using assms by (auto simp: ran_all_def list_all2_map1)
  have "sum_list (map (\<lambda>p. mset (pushed ''order'' p)) ps) = mset (map (\<lambda>j. int (fst j)) js)"
    using ps(2) by (induction rule: list_all2_induct) (auto dest: write_sized_run)
  then show ?thesis using pushed_interleaves [OF ps(1)] by simp
qed

lemma ran_orders:
  assumes "list_all2 (ran_all allowed) (map (\<lambda>i. map (\<lambda>(i, x). write_random_sized_file (paths i) (datas i) i) (share 0 n i js)) [0..<n]) ws" "0 < n"
  shows "mset (concat (map (\<lambda>w. pushed ''order'' (log w)) ws)) = mset (map int js)"
proof -
  have "sum_list (map (\<lambda>w. mset (pushed ''order'' (log w))) ws) = sum_list (map (\<lambda>js. mset (map (\<lambda>j. int (fst j)) js)) jss)"
    if "list_all2 (ran_all allowed) (map (map (\<lambda>(i, x). write_random_sized_file (paths i) (datas i) i)) jss) ws" for jss
    using that by (induction jss arbitrary: ws) (auto simp: list_all2_Cons1 ran_order)
  from this [of "map (\<lambda>i. share 0 n i js) [0..<n]"] assms(1)
  have "mset (concat (map (\<lambda>w. pushed ''order'' (log w)) ws)) = mset (concat (map (map int) (map (\<lambda>i. map fst (share 0 n i js)) [0..<n])))"
    by (simp add: mset_concat comp_def)
  also have "\<dots> = image_mset int (mset (concat (map (\<lambda>i. map fst (share 0 n i js)) [0..<n])))"
    by (simp only: map_concat [symmetric] mset_map)
  also have "\<dots> = image_mset int (mset js)" by (simp only: mset_share [OF assms(2)])
  finally show ?thesis by simp
qed

lemma rt_total_reads:
  assumes ran: "list_all2 (ran_all allowed) (map (\<lambda>i. map worker_read_job (share 0 n i js)) [0..<n])
      (workers (kst (dispatcher rt)))" and n: "0 < n" and f: "\<exists>f \<in> set js. readable allowed f"
  shows "0 < rt_total ''succeeded'' rt"
proof -
  let ?ws = "workers (kst (dispatcher rt))"
  obtain f where f: "f \<in> set js" "readable allowed f" using f by blast
  have "set (concat (map (\<lambda>i. map fst (share 0 n i js)) [0..<n])) = set js" using mset_share [OF n] by (metis mset_eq_setD)
  then have "f \<in> (\<Union>i \<in> {0..<n}. fst ` set (share 0 n i js))" using f(1) by simp
  then obtain i j where i: "i < n" "j \<in> set (share 0 n i js)" "fst j = f" by auto
  have "ran_all allowed (map worker_read_job (share 0 n i js)) (?ws ! i)"
    using list_all2_nthD [OF ran, of i] i(1) by simp
  from ran_worker_reads [OF this i(2)] have "0 < counter ''succeeded'' (log (?ws ! i))" using i(3) f(2) by simp
  moreover have "?ws ! i \<in> set ?ws" using list_all2_lengthD [OF ran] i(1) by simp
  then have "counter ''succeeded'' (log (?ws ! i)) \<le> rt_total ''succeeded'' rt" unfolding rt_total_def by (intro member_le_sum_list) auto
  ultimately show ?thesis by linarith
qed

text \<open>With at least as many jobs as workers every worker has some.\<close>

lemma share_some:
  assumes "i < n" "n \<le> length js" "length js < 2 ^ 64"
  shows "share 0 n i js \<noteq> []"
proof -
  have "length (share 0 n i js) + (n - 1 - i) div n = (length js + (n - 1 - i)) div n"
    using length_share [OF assms(1), of 0 js] assms(3) by simp
  moreover have "(n - 1 - i) div n = 0" using assms(1) by simp
  moreover have "n div n \<le> (length js + (n - 1 - i)) div n" by (rule div_le_mono) (use assms in simp)
  ultimately show ?thesis using assms(1) by auto
qed

section \<open>Properties\<close>

text \<open>
  C35: The test of concurrent reads, checks included. The client threads post their parts of fewer than
  128 files, of which at least one can be opened and read. Whole posts and whole rounds of the
  scheduler's thread follow each other in any order, and any other open or read may fail. For every
  such order there is a number of polls such that, whenever the test's deadline allows for that many,
  the polling ends, the scheduler stops, every job has completed exactly once and the number of
  successes is not zero.
\<close>

theorem concurrent_reads_pass:
  assumes "waking_bed os infl delay sent allowed r k signalled latency" "answers_total allowed"
    and "length files < 128" "0 < threads" "interleaves (client_threads threads files) (posts evs)"
    and "f \<in> set files" "readable allowed f"
  shows "\<exists>N. \<forall>deadline \<ge> N. passes (test_concurrent_reads os r k (length files) evs deadline rounds) (reads_checked (length files))"
proof -
  obtain N where N: "\<forall>deadline \<ge> N. passes (test_concurrent_reads os r k (length files) evs deadline rounds)
    (\<lambda>l. counter ''completed'' l = length files \<and> counter ''succeeded'' l \<le> length files
      \<and> ((\<exists>f \<in> set (posts evs). readable allowed f) \<longrightarrow> 0 < counter ''succeeded'' l))"
    using waking_bed.reads_pass [OF assms(1,2) client_schedule(2) [OF assms(4,5)] assms(3)] by blast
  have "\<exists>f \<in> set (posts evs). readable allowed f" using client_schedule(3) [OF assms(4,5)] assms(6,7) by blast
  then have "passes (test_concurrent_reads os r k (length files) evs n rounds) (reads_checked (length files))" if "N \<le> n" for n
    using N [rule_format, OF that] by (auto simp: passes_def reads_checked_def split: option.splits sum.splits)
  then show ?thesis by blast
qed

theorem concurrent_reads_pass_witness:
  "\<exists>deadline. passes (test_concurrent_reads prompt_os (fresh_ring 8) sim0 2
      [Some (\<lparr>sv_data = 99, sv_size = 3\<rparr>, 4160), None, Some (\<lparr>sv_data = 1, sv_size = 3\<rparr>, 64)] deadline 2)
    (reads_checked 2)"
proof -
  let ?f = "(\<lparr>sv_data = 1, sv_size = 3\<rparr>, 64 :: u64)" and ?g = "(\<lparr>sv_data = 99, sv_size = 3\<rparr>, 4160 :: u64)"
  have t: "answers_total (reply_allowed (\<lambda>e. 5))" by (simp add: answers_total_def reply_allowed_const)
  have r: "readable (reply_allowed (\<lambda>e. 5)) ?f" by (simp add: readable_def reply_allowed_const)
  have c: "client_threads 2 [?f, ?g] = [[?f], [?g]]"
    by (simp add: client_threads_def client_posts.simps [of 2] upt_rec)
  have "interleaves [[?f], [?g]] [?g, ?f]"
    using interleaves.one [OF interleaves.one [OF interleaves.none [of 2], of 1 ?g], of 0 ?f] by (simp add: numeral_2_eq_2)
  then have i: "interleaves (client_threads 2 [?f, ?g]) (posts [Some ?g, None, Some ?f])" by (simp add: c)
  obtain deadline where "passes (test_concurrent_reads prompt_os (fresh_ring 8) sim0 (length [?f, ?g]) [Some ?g, None, Some ?f] deadline 2)
      (reads_checked (length [?f, ?g]))"
    using concurrent_reads_pass [OF reply.waking_bed_axioms [of "\<lambda>e. 5"] t _ _ i _ r, of 2] by auto
  then show ?thesis by (auto simp: numeral_2_eq_2)
qed

text \<open>The stress test, with as many posts as the ring is known to hold.\<close>

lemma stress_passes:
  assumes "waking_bed os infl delay sent allowed r k signalled latency" "answers_total allowed"
    and "threads * per < 128" "interleaves (stress_threads threads per files) (posts evs)"
  shows "\<exists>N. \<forall>deadline \<ge> N. passes (test_concurrent_reads os r k (threads * per) evs deadline rounds)
    (\<lambda>l. counter ''completed'' l = threads * per \<and> counter ''succeeded'' l \<le> threads * per
      \<and> ((\<exists>f \<in> set (posts evs). readable allowed f) \<longrightarrow> 0 < counter ''succeeded'' l))"
proof -
  have "size (sum_list (map mset pss)) = sum_list (map length pss)" for pss :: "(string_view \<times> u64) list list"
    by (induction pss) simp_all
  from this [of "stress_threads threads per files"] have "size (sum_list (map mset (stress_threads threads per files))) = threads * per"
    by (simp only: stress_threads_def map_map comp_def length_map length_upt sum_list_triv) simp
  then have "length (posts evs) = threads * per" using interleaves_mset [OF assms(4)] by (metis size_mset)
  from waking_bed.reads_pass [OF assms(1,2) this assms(3)] show ?thesis .
qed

text \<open>
  C36: The tests of \<open>Runtime\<close>, up to and including \<open>stop()\<close>. With any number of workers and fewer than
  128 jobs, for every schedule of whole posts and rounds of the threads there is a number of polls such
  that, whenever the deadline allows for that many, the polling ends and \<open>stop()\<close> returns; every write
  job has then completed exactly once, and in the ordering test every job has taken exactly one place
  in the completion order. As in the code, a job whose open or write failed counts as completed: what
  the tests find when they read the files back afterwards is not part of this.
\<close>

theorem runtime_writes_complete:
  assumes bed: "runtime_bed os infl delay sent allowed r k signalled latency rings" and tot: "answers_total allowed"
    and l: "length wrounds = length rings" and writes: "length (rt_posts evs) < 128" and order: "rt_posts evs' = [0..<jobs]" "jobs < 128"
  shows "\<exists>N. \<forall>deadline \<ge> N.
    (\<exists>rt'. test_runtime_writes os r k rings (rt_posts evs) evs deadline rounds wrounds = Some (Inr rt')
      \<and> rt_st rt' = Stopped \<and> rt_total ''completed'' rt' = length (rt_posts evs))
    \<and> (\<exists>rt'. test_runtime_order os r k rings paths datas jobs evs' deadline rounds wrounds = Some (Inr rt')
      \<and> rt_st rt' = Stopped \<and> rt_total ''completed'' rt' = jobs
      \<and> mset (concat (map (\<lambda>w. pushed ''order'' (log w)) (workers (kst (dispatcher rt'))))) = mset (map int [0..<jobs]))"
proof -
  let ?w = "\<lambda>((path, data), _ :: nat). write_random_file path data"
  let ?o = "\<lambda>(i, _ :: nat). write_random_sized_file (paths i) (datas i) i"
  have pos: "0 < length rings" using runtime_bed.some_worker [OF bed] by simp
  have w: "\<And>j. first_small (?w j)" "\<And>j. counts_once allowed (?w j)" and o: "\<And>j. first_small (?o j)" "\<And>j. counts_once allowed (?o j)"
    using jobs_count_once by (auto simp: write_random_file_def write_random_sized_file_def split: prod.split)
  obtain rt where rt: "new_runtime os r k rings = Inr rt" "runtime_bed.tending infl sent allowed signalled rings ?w [] 0 (dispatcher rt)"
    "rt_st rt = Running" "length (worker_runners rt) = length rings"
    by (rule runtime_bed.new_runtime_ok [OF bed])
  note room = runtime_bed.roomy_few [OF bed]
  obtain N1 where N1: "\<forall>n \<ge> N1. \<exists>rt'. drive os ?w (length (rt_posts evs)) evs n rounds wrounds rt = Some (Inr rt')
      \<and> rt_st rt' = Stopped \<and> rt_total ''completed'' rt' = length (rt_posts evs)"
    using runtime_bed.drive_done [OF bed w tot room [OF writes] l rt(2-4)] by blast
  obtain rt2 where rt2: "new_runtime os r k rings = Inr rt2" "runtime_bed.tending infl sent allowed signalled rings ?o [] 0 (dispatcher rt2)"
    "rt_st rt2 = Running" "length (worker_runners rt2) = length rings"
    by (rule runtime_bed.new_runtime_ok [OF bed])
  have order': "length (rt_posts evs') < 128" using order by simp
  obtain N2 where N2: "\<forall>n \<ge> N2. \<exists>rt'. drive os ?o (length (rt_posts evs')) evs' n rounds wrounds rt2 = Some (Inr rt')
      \<and> rt_st rt' = Stopped \<and> rt_total ''completed'' rt' = length (rt_posts evs')
      \<and> list_all2 (ran_all allowed) (map (\<lambda>i. map ?o (share 0 (length rings) i (rt_posts evs'))) [0..<length rings]) (workers (kst (dispatcher rt')))"
    using runtime_bed.drive_done [OF bed o tot room [OF order'] l rt2(2-4)] by blast
  show ?thesis
  proof (intro exI [of _ "max N1 N2"] allI impI conjI)
    fix deadline assume d: "max N1 N2 \<le> deadline"
    show "\<exists>rt'. test_runtime_writes os r k rings (rt_posts evs) evs deadline rounds wrounds = Some (Inr rt')
        \<and> rt_st rt' = Stopped \<and> rt_total ''completed'' rt' = length (rt_posts evs)"
      using N1 [rule_format, of deadline] d rt(1) by (simp add: test_runtime_writes_def)
    obtain rt' where r: "drive os ?o jobs evs' deadline rounds wrounds rt2 = Some (Inr rt')" "rt_st rt' = Stopped"
      "rt_total ''completed'' rt' = jobs"
      "list_all2 (ran_all allowed) (map (\<lambda>i. map ?o (share 0 (length rings) i [0..<jobs])) [0..<length rings]) (workers (kst (dispatcher rt')))"
      using N2 [rule_format, of deadline] d order(1) by auto
    then show "\<exists>rt'. test_runtime_order os r k rings paths datas jobs evs' deadline rounds wrounds = Some (Inr rt')
        \<and> rt_st rt' = Stopped \<and> rt_total ''completed'' rt' = jobs
        \<and> mset (concat (map (\<lambda>w. pushed ''order'' (log w)) (workers (kst (dispatcher rt'))))) = mset (map int [0..<jobs])"
      using ran_orders [OF r(4) pos] rt2(1) by (simp add: test_runtime_order_def)
  qed
qed

theorem runtime_writes_complete_witness:
  "\<exists>deadline rt'. test_runtime_order prompt_os (fresh_ring 8) sim0 (replicate 4 (fresh_ring 8, sim0))
      (\<lambda>i. \<lparr>sv_data = 1, sv_size = 3\<rparr>) (\<lambda>i. \<lparr>sp_data = 64, sp_size = 16\<rparr>) 3 (map RtPost [0..<3]) deadline 1 [0, 0, 1, 1] = Some (Inr rt')
    \<and> rt_total ''completed'' rt' = 3"
proof -
  have b: "runtime_bed prompt_os sim_uds ks_count (\<lambda>k. set (ks_infl k)) (reply_allowed (\<lambda>e. 5)) (fresh_ring 8) sim0 (\<lambda>k. 0 < ks_count k) (\<lambda>k. 0)
      (replicate 4 (fresh_ring 8, sim0))"
    using reply.runtime_bed_axioms [of "\<lambda>e. 5" 3] by (simp add: eval_nat_numeral)
  have t: "answers_total (reply_allowed (\<lambda>e. 5))" by (simp add: answers_total_def reply_allowed_const)
  have p: "rt_posts (map RtPost js) = js" for js :: "nat list" by (induction js) simp_all
  obtain N where "\<forall>deadline \<ge> N. \<exists>rt'. test_runtime_order prompt_os (fresh_ring 8) sim0 (replicate 4 (fresh_ring 8, sim0))
      (\<lambda>i. \<lparr>sv_data = 1, sv_size = 3\<rparr>) (\<lambda>i. \<lparr>sp_data = 64, sp_size = 16\<rparr>) 3 (map RtPost [0..<3]) deadline 1 [0, 0, 1, 1] = Some (Inr rt')
    \<and> rt_total ''completed'' rt' = 3"
    using runtime_writes_complete [OF b t, of "[0, 0, 1, 1]" "[]" "map RtPost [0..<3]" 3 1 "\<lambda>i. \<lparr>sv_data = 1, sv_size = 3\<rparr>" "\<lambda>i. \<lparr>sp_data = 64, sp_size = 16\<rparr>"] p [of "[0..<3]"]
    by fastforce
  then show ?thesis by blast
qed

text \<open>
  C37: The hand-off test, checks included. One scheduler hands the jobs of the client threads to workers
  in turn: fewer than 128 files, at least as many as there are workers, at least one that can be opened
  and read. For every schedule of whole posts and rounds of the threads there is a number of polls such
  that, whenever the test's deadline allows for that many, the polling ends, everything stops, every
  file has been dealt with exactly once, every worker has had at least one, and the number of successes
  is not zero.
\<close>

theorem handoff_passes:
  assumes bed: "runtime_bed os infl delay sent allowed r k signalled latency rings" and tot: "answers_total allowed"
    and l: "length wrounds = length rings" and files: "0 < clients" "interleaves (client_threads clients files) (rt_posts evs)"
      "length rings \<le> length files" "length files < 128" and f: "f \<in> set files" "readable allowed f"
  shows "\<exists>N. \<forall>deadline \<ge> N. \<exists>rt'. test_handoff os r k rings files evs deadline rounds wrounds = Some (Inr rt')
    \<and> handoff_checked (length files) rt'"
proof -
  let ?p = worker_read_job
  note len = client_schedule(2) [OF files(1,2)] and posted = client_schedule(3) [OF files(1,2)]
  have p: "\<And>j. first_small (?p j)" "\<And>j. counts_once allowed (?p j)"
    using jobs_count_once by (auto simp: worker_read_job_def read_one_file_on_worker_def split: prod.split)
  obtain rt where rt: "handoff_nodes os r k rings = Inr rt" "runtime_bed.tending infl sent allowed signalled rings ?p [] 0 (dispatcher rt)"
    "rt_st rt = Running" "length (worker_runners rt) = length rings"
    by (rule runtime_bed.handoff_nodes_ok [OF bed])
  have pos: "0 < length rings" using runtime_bed.some_worker [OF bed] by simp
  have few: "length (rt_posts evs) < 128" using len files(4) by simp
  let ?css = "map (\<lambda>i. map ?p (share 0 (length rings) i (rt_posts evs))) [0..<length rings]"
  obtain N where N: "\<forall>n \<ge> N. \<exists>rt'. drive os ?p (length (rt_posts evs)) evs n rounds wrounds rt = Some (Inr rt')
      \<and> rt_st rt' = Stopped \<and> rt_total ''completed'' rt' = length (rt_posts evs) \<and> list_all2 (ran_all allowed) ?css (workers (kst (dispatcher rt')))"
    using runtime_bed.drive_done [OF bed p tot runtime_bed.roomy_few [OF bed few] l rt(2-4)] by blast
  have some: "0 < counter ''completed'' (log w)" if ran: "list_all2 (ran_all allowed) ?css ws" and w: "w \<in> set ws" for ws w
  proof -
    obtain i where i: "i < length rings" "w = ws ! i" using ran w by (auto simp: in_set_conv_nth dest: list_all2_lengthD)
    have "ran_all allowed (map ?p (share 0 (length rings) i (rt_posts evs))) w"
      using list_all2_nthD [OF ran, of i] i by simp
    then have "counter ''completed'' (log w) = length (share 0 (length rings) i (rt_posts evs))"
      using ran_counter p(2) by fastforce
    then show ?thesis using share_some [OF i(1), of "rt_posts evs"] files len by simp
  qed
  show ?thesis
  proof (intro exI [of _ N] allI impI)
    fix deadline assume "N \<le> deadline"
    then obtain rt' where r: "drive os ?p (length (rt_posts evs)) evs deadline rounds wrounds rt = Some (Inr rt')"
      "rt_total ''completed'' rt' = length (rt_posts evs)" "list_all2 (ran_all allowed) ?css (workers (kst (dispatcher rt')))"
      using N by blast
    moreover have "\<exists>f \<in> set (rt_posts evs). readable allowed f" using f posted by blast
    ultimately show "\<exists>rt'. test_handoff os r k rings files evs deadline rounds wrounds = Some (Inr rt')
      \<and> handoff_checked (length files) rt'"
      using some [OF r(3)] rt_total_reads [OF r(3) pos] rt(1) len by (simp add: test_handoff_def handoff_checked_def)
  qed
qed

theorem handoff_passes_witness:
  "\<exists>deadline rt'. test_handoff prompt_os (fresh_ring 8) sim0 (replicate 2 (fresh_ring 8, sim0))
      [(\<lparr>sv_data = 1, sv_size = 3\<rparr>, 64), (\<lparr>sv_data = 99, sv_size = 3\<rparr>, 4160)]
      [RtPost (\<lparr>sv_data = 1, sv_size = 3\<rparr>, 64), DispatcherRound, RtPost (\<lparr>sv_data = 99, sv_size = 3\<rparr>, 4160)] deadline 1 [0, 3] = Some (Inr rt')
    \<and> handoff_checked 2 rt'"
proof -
  let ?f = "(\<lparr>sv_data = 1, sv_size = 3\<rparr>, 64 :: u64)" and ?g = "(\<lparr>sv_data = 99, sv_size = 3\<rparr>, 4160 :: u64)"
  have b: "runtime_bed prompt_os sim_uds ks_count (\<lambda>k. set (ks_infl k)) (reply_allowed (\<lambda>e. 5)) (fresh_ring 8) sim0 (\<lambda>k. 0 < ks_count k) (\<lambda>k. 0)
      (replicate 2 (fresh_ring 8, sim0))"
    using reply.runtime_bed_axioms [of "\<lambda>e. 5" 1] by (simp add: numeral_2_eq_2)
  have t: "answers_total (reply_allowed (\<lambda>e. 5))" by (simp add: answers_total_def reply_allowed_const)
  have f: "readable (reply_allowed (\<lambda>e. 5)) ?f" by (simp add: readable_def reply_allowed_const)
  have c: "client_threads 1 [?f, ?g] = [[?f, ?g]]" by (simp add: client_threads_def client_posts.simps [of "Suc 0"])
  have "interleaves [[?f, ?g]] [?f, ?g]"
    using interleaves.one [OF interleaves.one [OF interleaves.none [of 1], of 0 ?f], of 0 ?g] by simp
  then have m: "interleaves (client_threads 1 [?f, ?g]) (rt_posts [RtPost ?f, DispatcherRound, RtPost ?g])" unfolding c by simp
  obtain N where "\<forall>deadline \<ge> N. \<exists>rt'. test_handoff prompt_os (fresh_ring 8) sim0 (replicate 2 (fresh_ring 8, sim0))
      [?f, ?g] [RtPost ?f, DispatcherRound, RtPost ?g] deadline 1 [0, 3] = Some (Inr rt') \<and> handoff_checked (length [?f, ?g]) rt'"
    using handoff_passes [OF b t _ _ m _ _ _ f, of "[0, 3]" 1] by fastforce
  then have "\<exists>deadline rt'. test_handoff prompt_os (fresh_ring 8) sim0 (replicate 2 (fresh_ring 8, sim0))
      [?f, ?g] [RtPost ?f, DispatcherRound, RtPost ?g] deadline 1 [0, 3] = Some (Inr rt') \<and> handoff_checked (length [?f, ?g]) rt'"
    by blast
  then show ?thesis by (simp add: numeral_2_eq_2)
qed

end
