(* ===== verification/Test_Files.thy ===== *)
theory Test_Files
  imports Main "HOL-Library.Word"
begin

unbundle bit_operations_syntax

text \<open>
  What the test programs do with files outside the library: \<open>list_etc_files\<close> of
  \<^verbatim>\<open>tests2/multi_threaded.cpp\<close>, which picks the files to read, and the loop of
  \<^verbatim>\<open>tests2/runtime_write.cpp\<close> that reads a written file back. The directory, \<open>lstat\<close> and \<open>read\<close> are
  arguments. The loops are shown equal to what they compute.
\<close>

section \<open>Listing files\<close>

definition S_ISREG :: "32 word \<Rightarrow> bool" where
  "S_ISREG mode \<longleftrightarrow> mode AND 0xF000 = 0x8000"

text \<open>The loop over \<open>readdir\<close>, from the list of the names still to come and the files found so far.\<close>

fun list_loop :: "(string \<Rightarrow> 32 word option) \<Rightarrow> string \<Rightarrow> nat \<Rightarrow> string list \<Rightarrow> string list \<Rightarrow> string list" where
  "list_loop lstat dir_path max_files [] files = files"
| "list_loop lstat dir_path max_files (name # entries) files =
     (if length files \<ge> max_files then files
      else if name = ''.'' \<or> name = ''..'' then list_loop lstat dir_path max_files entries files
      else
        let full_path = dir_path @ ''/'' @ name
        in case lstat full_path of
             None \<Rightarrow> list_loop lstat dir_path max_files entries files
           | Some st_mode \<Rightarrow>
               if \<not> S_ISREG st_mode then list_loop lstat dir_path max_files entries files
               else list_loop lstat dir_path max_files entries (files @ [full_path]))"

text \<open>\<open>None\<close>: the directory cannot be opened.\<close>

definition list_etc_files :: "string list option \<Rightarrow> (string \<Rightarrow> 32 word option) \<Rightarrow> string \<Rightarrow> nat \<Rightarrow> string list" where
  "list_etc_files opendir lstat dir_path max_files =
     (case opendir of None \<Rightarrow> [] | Some entries \<Rightarrow> list_loop lstat dir_path max_files entries [])"

definition regular :: "(string \<Rightarrow> 32 word option) \<Rightarrow> string \<Rightarrow> bool" where
  "regular lstat path \<longleftrightarrow> (case lstat path of None \<Rightarrow> False | Some m \<Rightarrow> S_ISREG m)"

lemma list_loop_spec:
  "length files \<le> max_files \<Longrightarrow> list_loop lstat dir_path max_files entries files =
     take max_files (files @ filter (regular lstat) (map (\<lambda>name. dir_path @ ''/'' @ name) (filter (\<lambda>name. name \<noteq> ''.'' \<and> name \<noteq> ''..'') entries)))"
proof (induction lstat dir_path max_files entries files rule: list_loop.induct)
  case (2 lstat dir_path max_files name entries files)
  then show ?case
    by (cases "lstat (dir_path @ ''/'' @ name)") (auto simp: regular_def Let_def)
qed simp

text \<open>
  The files listed are the first \<open>max_files\<close> regular files of the directory, in directory order, the
  two dot entries left out.
\<close>

theorem list_etc_files_spec:
  "list_etc_files opendir lstat dir_path max_files = (case opendir of None \<Rightarrow> [] | Some entries \<Rightarrow>
     take max_files (filter (regular lstat) (map (\<lambda>name. dir_path @ ''/'' @ name) (filter (\<lambda>name. name \<noteq> ''.'' \<and> name \<noteq> ''..'') entries))))"
  by (simp add: list_etc_files_def list_loop_spec split: option.split)

section \<open>Reading back\<close>

text \<open>\<open>read offset n\<close>: the result of \<open>::read\<close> for \<open>n\<close> bytes when \<open>offset\<close> bytes have been read.\<close>

function read_back :: "(nat \<Rightarrow> nat \<Rightarrow> int) \<Rightarrow> nat \<Rightarrow> nat \<Rightarrow> nat" where
  "read_back read file_size total_read =
     (if total_read < file_size
      then let n = read total_read (file_size - total_read)
           in if n \<le> 0 then total_read else read_back read file_size (total_read + nat n)
      else total_read)"
  by pat_completeness auto
termination
  by (relation "measure (\<lambda>(read, file_size, total_read). file_size - total_read)") auto

declare read_back.simps [simp del]

text \<open>
  The loop always ends. With a \<open>read\<close> that never gives more than was asked it stays within the
  buffer, and it fills the buffer exactly when \<open>read\<close> gives something as long as bytes are missing.
\<close>

theorem read_back_bounds:
  "(\<And>off n. read off n \<le> int n) \<Longrightarrow> so_far \<le> file_size \<Longrightarrow> read_back read file_size so_far \<le> file_size"
proof (induction read file_size so_far rule: read_back.induct)
  case (1 read file_size so_far)
  have "nat (read so_far (file_size - so_far)) \<le> file_size - so_far" using "1.prems"(1) [of so_far "file_size - so_far"] by simp
  then show ?case using 1 by (subst read_back.simps) (auto simp: Let_def)
qed

theorem read_back_complete:
  "(\<And>off n. read off n \<le> int n) \<Longrightarrow> (\<And>off. off < file_size \<Longrightarrow> 0 < read off (file_size - off)) \<Longrightarrow> so_far \<le> file_size \<Longrightarrow>
   read_back read file_size so_far = file_size"
proof (induction read file_size so_far rule: read_back.induct)
  case (1 read file_size so_far)
  have "nat (read so_far (file_size - so_far)) \<le> file_size - so_far" using "1.prems"(1) [of so_far "file_size - so_far"] by simp
  moreover have "so_far < file_size \<longrightarrow> \<not> read so_far (file_size - so_far) \<le> 0" using "1.prems"(2) [of so_far] by force
  ultimately show ?case using 1 by (subst read_back.simps) (auto simp: Let_def)
qed

end
