(* ===== verification/Interleaving.thy ===== *)
theory Interleaving
  imports Posting
begin

text \<open>
  Threads at the granularity of \<^verbatim>\<open>inbox_mutex_\<close>. \<open>Posting\<close> interleaves whole calls of \<open>post\<close> with whole
  rounds of the loop. Here the statements are interleaved: locking the mutex, pushing to or swapping
  the inbox, unlocking, writing to the eventfd, waiting in \<open>io_uring_enter\<close>, running one callable,
  handling one completion. The other threads are clients that call \<open>post\<close> any number of times and the
  one that requests the stop, which sets the flag of the stop token and then runs the stop callback of
  \<open>Scheduler::run\<close>. A schedule is a list of actors; a thread that cannot move when its turn comes, since
  it waits for the mutex or has returned, leaves the state as it is.
\<close>

section \<open>State\<close>

text \<open>
  A client is before \<open>lock_guard\<close>, in the critical section before and after \<open>inbox_.push\<close>, or before the
  \<open>write\<close>; or \<open>post\<close> has thrown.
\<close>

datatype client_pc = CIdle | CLocked | CPushed | CWrite | CThrown

record 'j client =
  cl_pc :: client_pc
  cl_jobs :: "'j list"

datatype holder = HClient nat | HLoop

datatype stopper = NotRequested | Requested | Written

text \<open>
  Where the thread in \<open>run\<close> is: at the test of the stop token, blocked in \<open>io_uring_enter\<close>, at the head
  of \<open>drain\<close>'s loop over the completions, in \<open>drain_inbox\<close> (before the lock, before and after the swap,
  before the next callable, and the four places of the branch that puts a callable back), at \<open>reap\<close>,
  returned, or ended by an exception.
\<close>

datatype 'j loop_pc = LTop | LWait | LCqes | LLock | LSwap | LUnlock | LRun
  | LRetryLock 'j | LRetryPush 'j | LRetryUnlock | LRetryWrite | LReap | LStopped | LThrown exn

text \<open>The local variables of \<open>drain\<close> and \<open>drain_inbox\<close>.\<close>

record 'j looper =
  lp_pc :: "'j loop_pc"
  lp_mask :: u32
  lp_current :: u32
  lp_tail :: u32
  lp_local :: "'j list"

text \<open>\<open>pushed_jobs\<close> is the history of the inbox: every job a client has pushed, in order.\<close>

record ('j, 'k) conc =
  sys :: "('j, 'k) sched"
  inbox_mutex :: "holder option"
  posters :: "'j client list"
  stop_src :: stopper
  looper :: "'j looper"
  pushed_jobs :: "'j list"

definition conc_start :: "'j list list \<Rightarrow> ('j, 'k) sched \<Rightarrow> ('j, 'k) conc" where
  "conc_start jss s = \<lparr>sys = s, inbox_mutex = None, posters = map (\<lambda>js. \<lparr>cl_pc = CIdle, cl_jobs = js\<rparr>) jss,
     stop_src = NotRequested, looper = \<lparr>lp_pc = LTop, lp_mask = 0, lp_current = 0, lp_tail = 0, lp_local = []\<rparr>,
     pushed_jobs = []\<rparr>"

section \<open>Steps\<close>

definition poster_goto :: "nat \<Rightarrow> client_pc \<Rightarrow> ('j, 'k) conc \<Rightarrow> ('j, 'k) conc" where
  "poster_goto i p c = c\<lparr>posters := (posters c)[i := (posters c ! i)\<lparr>cl_pc := p\<rparr>]\<rparr>"

text \<open>A client thread in \<open>Scheduler::post\<close>.\<close>

definition client_step :: "'k os \<Rightarrow> nat \<Rightarrow> ('j, 'k) conc \<Rightarrow> ('j, 'k) conc option" where
  "client_step os i c =
     (if length (posters c) \<le> i then None
      else let p = posters c ! i in
        case cl_pc p of
          CIdle \<Rightarrow> if cl_jobs p = [] \<or> inbox_mutex c \<noteq> None then None
                   else Some (poster_goto i CLocked (c\<lparr>inbox_mutex := Some (HClient i)\<rparr>))
        | CLocked \<Rightarrow>
            let j = hd (cl_jobs p) in
            Some (c\<lparr>sys := (sys c)\<lparr>inbox := inbox (sys c) @ [j]\<rparr>, pushed_jobs := pushed_jobs c @ [j],
                    posters := (posters c)[i := \<lparr>cl_pc = CPushed, cl_jobs = tl (cl_jobs p)\<rparr>]\<rparr>)
        | CPushed \<Rightarrow> Some (poster_goto i CWrite (c\<lparr>inbox_mutex := None\<rparr>))
        | CWrite \<Rightarrow> (case poke_eventfd os (sys c) of (ok, s') \<Rightarrow>
                       Some (poster_goto i (if ok then CIdle else CThrown) (c\<lparr>sys := s'\<rparr>)))
        | CThrown \<Rightarrow> None)"

text \<open>\<open>request_stop\<close>, then the stop callback registered by \<open>run\<close>, which ignores the result of its \<open>write\<close>.\<close>

definition stop_step :: "'k os \<Rightarrow> ('j, 'k) conc \<Rightarrow> ('j, 'k) conc option" where
  "stop_step os c =
     (case stop_src c of
        NotRequested \<Rightarrow> Some (c\<lparr>stop_src := Requested\<rparr>)
      | Requested \<Rightarrow> Some (c\<lparr>sys := snd (poke_eventfd os (sys c)), stop_src := Written\<rparr>)
      | Written \<Rightarrow> None)"

definition loop_goto :: "'j loop_pc \<Rightarrow> ('j, 'k) conc \<Rightarrow> ('j, 'k) conc" where
  "loop_goto p c = c\<lparr>looper := (looper c)\<lparr>lp_pc := p\<rparr>\<rparr>"

text \<open>The call has returned: \<open>drain\<close> loads head, tail and mask.\<close>

definition load_cq :: "('j, 'k) conc \<Rightarrow> ('j, 'k) conc" where
  "load_cq c = (let r = ring (sys c) in
     c\<lparr>looper := (looper c)\<lparr>lp_pc := LCqes, lp_mask := cq_mask r, lp_current := cq_head r, lp_tail := cq_tail r\<rparr>\<rparr>)"

text \<open>\<open>++current\<close> and the store of the head.\<close>

definition next_cqe :: "('j, 'k) conc \<Rightarrow> ('j, 'k) conc" where
  "next_cqe c = (let s = sys c; cur = lp_current (looper c) + 1 in
     c\<lparr>sys := s\<lparr>ring := store_cq_head cur (ring s)\<rparr>, looper := (looper c)\<lparr>lp_pc := LCqes, lp_current := cur\<rparr>\<rparr>)"

text \<open>
  Entering the kernel blocks until there is a completion, unless the scheduler is shutting down or
  the kernel has taken fewer entries than it was given: then the call returns at once. A turn of a
  thread that is blocked there lets the kernel look again.
\<close>

definition step_top :: "'k os \<Rightarrow> ('j, 'k) conc \<Rightarrow> ('j, 'k) conc" where
  "step_top os c =
     (if stop_src c \<noteq> NotRequested then loop_goto LStopped c
      else let s = submit_staged os (sys c) in
        if shutting_down s \<or> sq_head (ring s) \<noteq> sq_tail (ring s) then load_cq (c\<lparr>sys := s\<rparr>)
        else loop_goto LWait (c\<lparr>sys := s\<rparr>))"

definition step_wait :: "'k os \<Rightarrow> ('j, 'k) conc \<Rightarrow> ('j, 'k) conc" where
  "step_wait os c =
     (if cq_head (ring (sys c)) \<noteq> cq_tail (ring (sys c)) then load_cq c
      else c\<lparr>sys := io_uring_enter os 0 1 (sys c)\<rparr>)"

definition step_cqe :: "'k os \<Rightarrow> ('j, 'k) invoke \<Rightarrow> ('j, 'k) conc \<Rightarrow> ('j, 'k) conc" where
  "step_cqe os invoke c =
     (let l = looper c; s = sys c; cqe = cq_cqes (ring s) ! unat (lp_current l AND lp_mask l) in
      if lp_current l = lp_tail l then loop_goto LReap c
      else if cqe_user_data cqe = EventfdBuf then loop_goto LLock (c\<lparr>sys := s\<lparr>eventfd_armed := False\<rparr>\<rparr>)
      else case process_cqe os invoke cqe s of
        (None, s') \<Rightarrow> next_cqe (c\<lparr>sys := s'\<rparr>)
      | (Some e, s') \<Rightarrow> loop_goto (LThrown e) (c\<lparr>sys := s'\<rparr>))"

definition step_run :: "('j, 'k) invoke \<Rightarrow> ('j, 'k) conc \<Rightarrow> ('j, 'k) conc" where
  "step_run invoke c =
     (case lp_local (looper c) of
        [] \<Rightarrow> next_cqe c
      | j # rest \<Rightarrow>
          (case invoke j (sys c) of (res, s') \<Rightarrow>
             let c' = c\<lparr>sys := s', looper := (looper c)\<lparr>lp_local := rest\<rparr>\<rparr> in
             case res of
               None \<Rightarrow> c'
             | Some (IOExc st) \<Rightarrow> if st = SQFull then loop_goto (LRetryLock j) c' else c'
             | Some (UserExc e) \<Rightarrow> loop_goto (LThrown (UserExc e)) c'))"

definition take_mutex :: "'j loop_pc \<Rightarrow> ('j, 'k) conc \<Rightarrow> ('j, 'k) conc option" where
  "take_mutex p c = (if inbox_mutex c \<noteq> None then None else Some (loop_goto p (c\<lparr>inbox_mutex := Some HLoop\<rparr>)))"

text \<open>The thread in \<open>run\<close>: the test of the stop token, \<open>drain\<close>, \<open>drain_inbox\<close> and \<open>reap\<close>.\<close>

definition loop_step :: "'k os \<Rightarrow> ('j, 'k) invoke \<Rightarrow> ('j, 'k) conc \<Rightarrow> ('j, 'k) conc option" where
  "loop_step os invoke c =
     (let s = sys c; l = looper c in
      case lp_pc l of
        LTop \<Rightarrow> Some (step_top os c)
      | LWait \<Rightarrow> Some (step_wait os c)
      | LCqes \<Rightarrow> Some (step_cqe os invoke c)
      | LLock \<Rightarrow> take_mutex LSwap c
      | LSwap \<Rightarrow> Some (c\<lparr>sys := s\<lparr>inbox := []\<rparr>, looper := l\<lparr>lp_pc := LUnlock, lp_local := inbox s\<rparr>\<rparr>)
      | LUnlock \<Rightarrow> Some (loop_goto LRun (c\<lparr>inbox_mutex := None\<rparr>))
      | LRun \<Rightarrow> Some (step_run invoke c)
      | LRetryLock j \<Rightarrow> take_mutex (LRetryPush j) c
      | LRetryPush j \<Rightarrow> Some (loop_goto LRetryUnlock (c\<lparr>sys := s\<lparr>inbox := inbox s @ [j]\<rparr>\<rparr>))
      | LRetryUnlock \<Rightarrow> Some (loop_goto LRetryWrite (c\<lparr>inbox_mutex := None\<rparr>))
      | LRetryWrite \<Rightarrow> Some (loop_goto LRun (c\<lparr>sys := snd (poke_eventfd os s)\<rparr>))
      | LReap \<Rightarrow> Some (loop_goto LTop (c\<lparr>sys := reap s\<rparr>))
      | LStopped \<Rightarrow> None
      | LThrown e \<Rightarrow> None)"

text \<open>A signal handler runs: a blocked \<open>io_uring_enter\<close> fails with \<open>EINTR\<close>, which \<open>drain\<close> does not look at.\<close>

definition signal_step :: "('j, 'k) conc \<Rightarrow> ('j, 'k) conc option" where
  "signal_step c = (if lp_pc (looper c) = LWait then Some (load_cq c) else None)"

datatype actor = Client nat | Stop | Loop | Signal

primrec conc_step :: "'k os \<Rightarrow> ('j, 'k) invoke \<Rightarrow> actor \<Rightarrow> ('j, 'k) conc \<Rightarrow> ('j, 'k) conc option" where
  "conc_step os invoke (Client i) c = client_step os i c"
| "conc_step os invoke Stop c = stop_step os c"
| "conc_step os invoke Loop c = loop_step os invoke c"
| "conc_step os invoke Signal c = signal_step c"

fun conc_run :: "'k os \<Rightarrow> ('j, 'k) invoke \<Rightarrow> actor list \<Rightarrow> ('j, 'k) conc \<Rightarrow> ('j, 'k) conc" where
  "conc_run os invoke [] c = c"
| "conc_run os invoke (a # as) c = conc_run os invoke as (case conc_step os invoke a c of None \<Rightarrow> c | Some c' \<Rightarrow> c')"

lemma conc_run_append [simp]: "conc_run os invoke (as @ bs) c = conc_run os invoke bs (conc_run os invoke as c)"
  by (induction as arbitrary: c) auto


section \<open>Uninterrupted calls\<close>

text \<open>
  When no other thread moves, the statements of \<open>post\<close> and of a round of the loop have together the
  effect of the calls of \<open>Scheduler\<close> and \<open>Posting\<close>.
\<close>

abbreviation turns :: "'k os \<Rightarrow> ('j, 'k) invoke \<Rightarrow> nat \<Rightarrow> ('j, 'k) conc \<Rightarrow> ('j, 'k) conc" where
  "turns os invoke n c \<equiv> conc_run os invoke (replicate n Loop) c"

lemma turns_add: "turns os invoke (n + m) c = turns os invoke m (turns os invoke n c)"
  by (simp add: replicate_add)

lemma turns_Suc: "turns os invoke (Suc n) c = turns os invoke n (case loop_step os invoke c of None \<Rightarrow> c | Some c' \<Rightarrow> c')"
  by simp

text \<open>\<open>leads os invoke c c'\<close>: turns of the loop lead from \<open>c\<close> to \<open>c'\<close>.\<close>

definition leads :: "'k os \<Rightarrow> ('j, 'k) invoke \<Rightarrow> ('j, 'k) conc \<Rightarrow> ('j, 'k) conc \<Rightarrow> bool" where
  "leads os invoke c c' \<longleftrightarrow> (\<exists>n. turns os invoke n c = c')"

lemma leads_refl [simp]: "leads os invoke c c"
  unfolding leads_def by (rule exI [of _ 0]) simp

lemma leads_step: "loop_step os invoke c = Some c1 \<Longrightarrow> leads os invoke c1 c' \<Longrightarrow> leads os invoke c c'"
  unfolding leads_def by (metis turns_Suc option.simps(5))

lemma leads_one: "loop_step os invoke c = Some c' \<Longrightarrow> leads os invoke c c'"
  by (rule leads_step [OF _ leads_refl])

lemma leads_trans: "leads os invoke c c1 \<Longrightarrow> leads os invoke c1 c2 \<Longrightarrow> leads os invoke c c2"
  unfolding leads_def by (metis turns_add)

lemmas loop_steps = loop_step_def take_mutex_def loop_goto_def Let_def

lemma retry_leads:
  assumes "lp_pc (looper c) = LRetryLock j" "inbox_mutex c = None"
  shows "leads os invoke c (c\<lparr>sys := snd (poke_eventfd os ((sys c)\<lparr>inbox := inbox (sys c) @ [j]\<rparr>)), looper := (looper c)\<lparr>lp_pc := LRun\<rparr>\<rparr>)"
proof -
  have "turns os invoke 4 c = c\<lparr>sys := snd (poke_eventfd os ((sys c)\<lparr>inbox := inbox (sys c) @ [j]\<rparr>)), looper := (looper c)\<lparr>lp_pc := LRun\<rparr>\<rparr>"
    using assms by (simp add: numeral_eq_Suc loop_steps)
  then show ?thesis unfolding leads_def ..
qed

definition after :: "exn option \<Rightarrow> 'j loop_pc \<Rightarrow> 'j loop_pc" where
  "after e p = (case e of None \<Rightarrow> p | Some x \<Rightarrow> LThrown x)"

lemma after_simps [simp]: "after None p = p" "after (Some x) p = LThrown x"
  by (simp_all add: after_def)

lemma drain_local_leads:
  assumes "lp_pc (looper c) = LRun" "lp_local (looper c) = js" "inbox_mutex c = None" "drain_local os invoke js (sys c) = (e, s')"
  shows "\<exists>l. leads os invoke c (c\<lparr>sys := s', looper := l\<rparr>) \<and> lp_pc l = after e LRun
    \<and> (e = None \<longrightarrow> l = (looper c)\<lparr>lp_local := []\<rparr>)"
  using assms
proof (induction js arbitrary: c)
  case Nil
  then have "c = c\<lparr>sys := s', looper := (looper c)\<lparr>lp_local := []\<rparr>\<rparr>" by simp
  then show ?case using Nil by (metis drain_local.simps(1) prod.inject after_simps(1) leads_refl looper.surjective looper.update_convs(5))
next
  case (Cons j js)
  obtain res s1 where i: "invoke j (sys c) = (res, s1)" by fastforce
  let ?c1 = "c\<lparr>sys := s1, looper := (looper c)\<lparr>lp_local := js\<rparr>\<rparr>"
  have go: ?case if "loop_step os invoke c = Some ?c1" "drain_local os invoke js s1 = (e, s')"
    using Cons.IH [of ?c1] Cons.prems(1,3) that(2) leads_step [OF that(1)] by fastforce
  consider "res = None" | st where "res = Some (IOExc st)" "st \<noteq> SQFull" | "res = Some (IOExc SQFull)" | x where "res = Some (UserExc x)"
    by (metis exn.exhaust option.exhaust)
  then show ?case
  proof cases
    case 1
    show ?thesis by (rule go) (use 1 Cons.prems i in \<open>simp_all add: loop_steps step_run_def\<close>)
  next
    case 2
    show ?thesis by (rule go) (use 2 Cons.prems i in \<open>simp_all add: loop_steps step_run_def\<close>)
  next
    case 3
    let ?c2 = "loop_goto (LRetryLock j) ?c1"
    let ?c3 = "?c2\<lparr>sys := snd (poke_eventfd os ((sys ?c2)\<lparr>inbox := inbox (sys ?c2) @ [j]\<rparr>)), looper := (looper ?c2)\<lparr>lp_pc := LRun\<rparr>\<rparr>"
    have "loop_step os invoke c = Some ?c2" using 3 Cons.prems i by (simp add: loop_steps step_run_def)
    moreover have "leads os invoke ?c2 ?c3" using Cons.prems(3) by (intro retry_leads) (simp_all add: loop_goto_def)
    ultimately have "leads os invoke c ?c3" by (rule leads_step)
    moreover have "lp_pc (looper ?c3) = LRun" "lp_local (looper ?c3) = js" "inbox_mutex ?c3 = None"
      "drain_local os invoke js (sys ?c3) = (e, s')"
      using Cons.prems 3 i by (simp_all add: loop_goto_def)
    note IH = Cons.IH [OF this]
    ultimately show ?thesis using leads_trans Cons.prems(1) by (fastforce simp: loop_goto_def)
  next
    case 4
    then have "loop_step os invoke c = Some (loop_goto (LThrown (UserExc x)) ?c1)" "e = Some (UserExc x)" "s' = s1"
      using Cons.prems i by (auto simp: loop_steps step_run_def)
    then show ?thesis using leads_one by (fastforce simp: loop_goto_def)
  qed
qed

lemma drain_cqes_leads:
  assumes "lp_pc (looper c) = LCqes" "inbox_mutex c = None" "lp_local (looper c) = []"
    and "lp_mask (looper c) = msk" "lp_current (looper c) = cur" "lp_tail (looper c) = tail"
    and "drain_cqes os invoke msk cur tail (sys c) = (e, s')"
  shows "\<exists>l. leads os invoke c (c\<lparr>sys := s', looper := l\<rparr>) \<and> lp_pc l = after e LReap \<and> (e = None \<longrightarrow> lp_local l = [])"
  using assms
proof (induction "dist cur tail" arbitrary: c cur rule: less_induct)
  case less
  note pc = less.prems(1-6) and d = less.prems(7) [unfolded drain_cqes.simps [of os invoke msk cur]]
  show ?case
  proof (cases "cur = tail")
    case True
    then have "loop_step os invoke c = Some (c\<lparr>sys := s', looper := (looper c)\<lparr>lp_pc := LReap\<rparr>\<rparr>)" "e = None"
      using pc d by (simp_all add: loop_steps step_cqe_def)
    then show ?thesis using leads_one pc(3) by fastforce
  next
    case False
    let ?cqe = "cq_cqes (ring (sys c)) ! unat (cur AND msk)"
    obtain e1 s1 where p: "process_cqe os invoke ?cqe (sys c) = (e1, s1)" by fastforce
    have stop: ?thesis if "e1 = Some x" "leads os invoke c (c\<lparr>sys := s1, looper := l\<rparr>)" "lp_pc l = LThrown x" for x l
    proof -
      have "s' = s1" "e = Some x" using d False p that(1) by simp_all
      then show ?thesis using that(2,3) by auto
    qed
    have go: ?thesis if "e1 = None" "leads os invoke c (next_cqe (c\<lparr>sys := s1, looper := l\<rparr>))"
      "l = (looper c)\<lparr>lp_pc := lp_pc l, lp_local := []\<rparr>" for l
    proof -
      let ?c1 = "next_cqe (c\<lparr>sys := s1, looper := l\<rparr>)"
      have l: "lp_mask l = msk" "lp_current l = cur" "lp_tail l = tail" "lp_local l = []"
        using pc by (subst that(3), simp)+
      have "drain_cqes os invoke msk (cur + 1) tail (sys ?c1) = (e, s')"
        using d False p that(1) l by (simp add: next_cqe_def Let_def)
      with less.hyps [of "cur + 1" ?c1] l pc False obtain l' where
        "leads os invoke ?c1 (?c1\<lparr>sys := s', looper := l'\<rparr>)" "lp_pc l' = after e LReap" "e = None \<longrightarrow> lp_local l' = []"
        by (auto simp: next_cqe_def Let_def dist_pop_less)
      then show ?thesis using leads_trans [OF that(2)] by (auto simp: next_cqe_def Let_def)
    qed
    show ?thesis
    proof (cases "cqe_user_data ?cqe = EventfdBuf")
      case True
      let ?s0 = "(sys c)\<lparr>eventfd_armed := False, inbox := []\<rparr>" and ?l = "(looper c)\<lparr>lp_pc := LRun, lp_local := inbox (sys c)\<rparr>"
      let ?c1 = "c\<lparr>sys := ?s0, looper := ?l\<rparr>"
      have "turns os invoke 4 c = ?c1" using pc False True by (simp add: numeral_eq_Suc loop_steps step_cqe_def)
      then have c1: "leads os invoke c ?c1" unfolding leads_def ..
      have "drain_local os invoke (inbox (sys c)) (sys ?c1) = (e1, s1)" using p True by (simp add: process_cqe_def drain_inbox_def)
      from drain_local_leads [OF _ _ _ this] pc(2) obtain l where
        l: "leads os invoke ?c1 (?c1\<lparr>sys := s1, looper := l\<rparr>)" "lp_pc l = after e1 LRun"
          "e1 = None \<longrightarrow> l = ?l\<lparr>lp_local := []\<rparr>" by auto
      have c2: "leads os invoke c (c\<lparr>sys := s1, looper := l\<rparr>)" using leads_trans [OF c1 l(1)] by simp
      show ?thesis
      proof (cases e1)
        case None
        have "loop_step os invoke (c\<lparr>sys := s1, looper := l\<rparr>) = Some (next_cqe (c\<lparr>sys := s1, looper := l\<rparr>))"
          using l(2,3) None by (simp add: loop_steps step_run_def)
        from go [OF None leads_trans [OF c2 leads_one [OF this]]] l(3) None show ?thesis by simp
      qed (use stop c2 l(2) in auto)
    next
      case other: False
      show ?thesis
      proof (cases e1)
        case None
        have "loop_step os invoke c = Some (next_cqe (c\<lparr>sys := s1, looper := looper c\<rparr>))"
          using pc False other p None by (simp add: loop_steps step_cqe_def)
        from go [OF None leads_one [OF this]] pc(3) show ?thesis by simp
      next
        case (Some x)
        have "loop_step os invoke c = Some (c\<lparr>sys := s1, looper := (looper c)\<lparr>lp_pc := LThrown x\<rparr>\<rparr>)"
          using pc False other p Some by (simp add: loop_steps step_cqe_def)
        from stop [OF Some leads_one [OF this]] show ?thesis by simp
      qed
    qed
  qed
qed

text \<open>From the load of the completion ring to the next test of the stop token.\<close>

lemma served_leads:
  assumes "inbox_mutex c = None" "lp_local (looper c) = []"
    and "drain_cqes os invoke (cq_mask (ring (sys c))) (cq_head (ring (sys c))) (cq_tail (ring (sys c))) (sys c) = (e, s1)"
  shows "\<exists>l. leads os invoke (load_cq c) (c\<lparr>sys := if e = None then reap s1 else s1, looper := l\<rparr>) \<and> lp_pc l = after e LTop
    \<and> (e = None \<longrightarrow> lp_local l = [])"
proof -
  from drain_cqes_leads [of "load_cq c" _ _ _ os invoke e s1, OF _ _ _ HOL.refl HOL.refl HOL.refl] assms obtain l where
    l: "leads os invoke (load_cq c) (c\<lparr>sys := s1, looper := l\<rparr>)" "lp_pc l = after e LReap" "e = None \<longrightarrow> lp_local l = []"
    by (auto simp: load_cq_def Let_def)
  show ?thesis
  proof (cases e)
    case None
    then have "loop_step os invoke (c\<lparr>sys := s1, looper := l\<rparr>) = Some (c\<lparr>sys := reap s1, looper := l\<lparr>lp_pc := LTop\<rparr>\<rparr>)"
      using l(2) by (simp add: loop_steps)
    from leads_trans [OF l(1) leads_one [OF this]] l(3) None show ?thesis by fastforce
  qed (use l in auto)
qed

definition blocked :: "('j, 'k) sched \<Rightarrow> bool" where
  "blocked s \<longleftrightarrow> \<not> shutting_down s \<and> sq_head (ring s) = sq_tail (ring s) \<and> cq_head (ring s) = cq_tail (ring s)"

lemma round_leads:
  assumes c: "lp_pc (looper c) = LTop" "inbox_mutex c = None" "lp_local (looper c) = []" "stop_src c = NotRequested"
    and r: "thread_round os invoke (sys c) = (e, s')" "\<not> blocked (submit_staged os (sys c))"
  shows "\<exists>l. leads os invoke c (c\<lparr>sys := s', looper := l\<rparr>) \<and> lp_pc l = after e LTop \<and> (e = None \<longrightarrow> lp_local l = [])"
proof -
  let ?s1 = "submit_staged os (sys c)"
  obtain s2 where d: "drain_cqes os invoke (cq_mask (ring ?s1)) (cq_head (ring ?s1)) (cq_tail (ring ?s1)) ?s1 = (e, s2)"
    "s' = (if e = None then reap s2 else s2)"
    using r(1) by (auto simp: thread_round_def drain_submit Let_def split: prod.splits option.splits)
  show ?thesis
  proof (cases "shutting_down ?s1 \<or> sq_head (ring ?s1) \<noteq> sq_tail (ring ?s1)")
    case True
    then have "loop_step os invoke c = Some (load_cq (c\<lparr>sys := ?s1\<rparr>))" using c by (simp add: loop_steps step_top_def)
    with served_leads [of "c\<lparr>sys := ?s1\<rparr>"] c d show ?thesis using leads_step by fastforce
  next
    case False
    let ?c1 = "loop_goto LWait (c\<lparr>sys := ?s1\<rparr>)"
    have "loop_step os invoke c = Some ?c1" using c False by (auto simp: loop_step_def step_top_def Let_def)
    moreover have "loop_step os invoke ?c1 = Some (load_cq ?c1)"
      using False r(2) by (auto simp: loop_steps step_wait_def blocked_def)
    moreover have "\<exists>l. leads os invoke (load_cq ?c1) (c\<lparr>sys := s', looper := l\<rparr>) \<and> lp_pc l = after e LTop \<and> (e = None \<longrightarrow> lp_local l = [])"
      using served_leads [of ?c1] c d by (simp add: loop_goto_def)
    ultimately show ?thesis using leads_step by metis
  qed
qed

text \<open>When the kernel has nothing, the round of \<open>Posting\<close> does nothing more, and the thread stays blocked.\<close>

lemma blocked_round:
  assumes "blocked (submit_staged os s)"
  shows "thread_round os invoke s = (None, reap (submit_staged os s))"
  using assms by (simp add: thread_round_def drain_submit Let_def blocked_def drain_cqes.simps)

lemma blocked_leads:
  assumes "lp_pc (looper c) = LTop" "stop_src c = NotRequested" "blocked (submit_staged os (sys c))"
  shows "loop_step os invoke c = Some (loop_goto LWait (c\<lparr>sys := submit_staged os (sys c)\<rparr>))"
  using assms by (simp add: loop_step_def step_top_def blocked_def Let_def)

text \<open>
  A blocked thread that gets a turn is in the situation of a thread at the head of the loop with the
  read armed and nothing to submit.
\<close>

lemma poll_submit:
  assumes "blocked s" "eventfd_armed s"
  shows "io_uring_enter os 0 1 s = submit_staged os s"
  using assms by (simp add: submit_staged_def blocked_def)

lemma wait_leads:
  assumes c: "lp_pc (looper c) = LWait" "inbox_mutex c = None" "lp_local (looper c) = []"
    and b: "blocked (sys c)" "eventfd_armed (sys c)"
    and r: "thread_round os invoke (sys c) = (e, s')" "cq_head (ring (submit_staged os (sys c))) \<noteq> cq_tail (ring (submit_staged os (sys c)))"
  shows "\<exists>l. leads os invoke c (c\<lparr>sys := s', looper := l\<rparr>) \<and> lp_pc l = after e LTop \<and> (e = None \<longrightarrow> lp_local l = [])"
proof -
  let ?s1 = "submit_staged os (sys c)" and ?c1 = "c\<lparr>sys := submit_staged os (sys c)\<rparr>"
  obtain s2 where d: "drain_cqes os invoke (cq_mask (ring ?s1)) (cq_head (ring ?s1)) (cq_tail (ring ?s1)) ?s1 = (e, s2)"
    "s' = (if e = None then reap s2 else s2)"
    using r(1) by (auto simp: thread_round_def drain_submit Let_def split: prod.splits option.splits)
  have "loop_step os invoke c = Some ?c1" using c(1) b poll_submit [OF b]
    by (simp add: loop_step_def step_wait_def blocked_def Let_def)
  moreover have "loop_step os invoke ?c1 = Some (load_cq ?c1)"
    using c(1) r(2) by (simp add: loop_step_def step_wait_def Let_def)
  moreover have "\<exists>l. leads os invoke (load_cq ?c1) (c\<lparr>sys := s', looper := l\<rparr>) \<and> lp_pc l = after e LTop \<and> (e = None \<longrightarrow> lp_local l = [])"
    using served_leads [of ?c1] c d by simp
  ultimately show ?thesis using leads_step by metis
qed

lemma post_turns:
  assumes "i < length (posters c)" "posters c ! i = \<lparr>cl_pc = CIdle, cl_jobs = j # js\<rparr>" "inbox_mutex c = None"
    "post os j (sys c) = (e, s')"
  shows "conc_run os invoke (replicate 4 (Client i)) c = c\<lparr>sys := s', pushed_jobs := pushed_jobs c @ [j],
    posters := (posters c)[i := \<lparr>cl_pc = if e = None then CIdle else CThrown, cl_jobs = js\<rparr>]\<rparr>"
  using assms by (auto simp: numeral_eq_Suc client_step_def poster_goto_def post_def Let_def split: prod.splits if_splits)


section \<open>Mutual exclusion\<close>

fun client_critical :: "client_pc \<Rightarrow> bool" where
  "client_critical CLocked = True"
| "client_critical CPushed = True"
| "client_critical p = False"

fun loop_critical :: "'j loop_pc \<Rightarrow> bool" where
  "loop_critical LSwap = True"
| "loop_critical LUnlock = True"
| "loop_critical (LRetryPush j) = True"
| "loop_critical LRetryUnlock = True"
| "loop_critical p = False"

text \<open>The mutex is held by exactly the thread that is in a critical section, and \<open>post\<close> has what it pushes.\<close>

definition coherent :: "('j, 'k) conc \<Rightarrow> bool" where
  "coherent c \<longleftrightarrow>
     (\<forall>i. inbox_mutex c = Some (HClient i) \<longleftrightarrow> i < length (posters c) \<and> client_critical (cl_pc (posters c ! i)))
   \<and> (inbox_mutex c = Some HLoop \<longleftrightarrow> loop_critical (lp_pc (looper c)))
   \<and> (\<forall>i < length (posters c). cl_pc (posters c ! i) = CLocked \<longrightarrow> cl_jobs (posters c ! i) \<noteq> [])"

lemma client_stepE:
  assumes "client_step os i c = Some c'"
  obtains (lock) "i < length (posters c)" "cl_pc (posters c ! i) = CIdle" "cl_jobs (posters c ! i) \<noteq> []" "inbox_mutex c = None"
      "c' = poster_goto i CLocked (c\<lparr>inbox_mutex := Some (HClient i)\<rparr>)"
  | (push) j js where "i < length (posters c)" "cl_pc (posters c ! i) = CLocked" "j = hd (cl_jobs (posters c ! i))" "js = tl (cl_jobs (posters c ! i))"
      "c' = c\<lparr>sys := (sys c)\<lparr>inbox := inbox (sys c) @ [j]\<rparr>, pushed_jobs := pushed_jobs c @ [j],
        posters := (posters c)[i := \<lparr>cl_pc = CPushed, cl_jobs = js\<rparr>]\<rparr>"
  | (unlock) "i < length (posters c)" "cl_pc (posters c ! i) = CPushed" "c' = poster_goto i CWrite (c\<lparr>inbox_mutex := None\<rparr>)"
  | (signal) ok s' where "i < length (posters c)" "cl_pc (posters c ! i) = CWrite" "poke_eventfd os (sys c) = (ok, s')"
      "c' = poster_goto i (if ok then CIdle else CThrown) (c\<lparr>sys := s'\<rparr>)"
  using assms by (cases "cl_pc (posters c ! i)") (auto simp: client_step_def Let_def split: if_splits prod.splits)

lemma client_coherent:
  assumes "client_step os i c = Some c'" "coherent c"
  shows "coherent c'"
  using assms(1)
proof (cases rule: client_stepE)
  case lock
  have "\<not> client_critical (cl_pc (posters c ! k))" if "k < length (posters c)" for k
    using assms(2) that lock(4) by (auto simp: coherent_def)
  then show ?thesis using assms(2) lock by (auto simp: coherent_def poster_goto_def nth_list_update)
next
  case (push j js)
  then have "client_critical (cl_pc (posters c' ! k)) = client_critical (cl_pc (posters c ! k))" if "k < length (posters c)" for k
    using that by (auto simp: nth_list_update)
  then show ?thesis using assms(2) push by (auto simp: coherent_def nth_list_update)
next
  case unlock
  then have "inbox_mutex c = Some (HClient i)" using assms(2) by (auto simp: coherent_def)
  then have "client_critical (cl_pc (posters c ! k)) \<longleftrightarrow> k = i" if "k < length (posters c)" for k
    using assms(2) that by (auto simp: coherent_def)
  moreover have "\<not> loop_critical (lp_pc (looper c))" using \<open>inbox_mutex c = Some (HClient i)\<close> assms(2) by (auto simp: coherent_def)
  ultimately show ?thesis using assms(2) unlock by (auto simp: coherent_def poster_goto_def nth_list_update)
next
  case (signal ok s')
  then have "client_critical (cl_pc (posters c' ! k)) = client_critical (cl_pc (posters c ! k))" if "k < length (posters c)" for k
    using that by (auto simp: poster_goto_def nth_list_update)
  then show ?thesis using assms(2) signal by (auto simp: coherent_def poster_goto_def nth_list_update)
qed

lemma stop_coherent: "stop_step os c = Some c' \<Longrightarrow> coherent c \<Longrightarrow> coherent c'"
  by (auto simp: stop_step_def coherent_def split: stopper.splits)

lemma load_next_fields [simp]:
  "posters (load_cq c) = posters c" "inbox_mutex (load_cq c) = inbox_mutex c" "sys (load_cq c) = sys c"
  "stop_src (load_cq c) = stop_src c" "pushed_jobs (load_cq c) = pushed_jobs c" "lp_pc (looper (load_cq c)) = LCqes"
  "lp_local (looper (load_cq c)) = lp_local (looper c)"
  "posters (next_cqe c) = posters c" "inbox_mutex (next_cqe c) = inbox_mutex c" "stop_src (next_cqe c) = stop_src c"
  "pushed_jobs (next_cqe c) = pushed_jobs c" "lp_pc (looper (next_cqe c)) = LCqes" "lp_local (looper (next_cqe c)) = lp_local (looper c)"
  by (simp_all add: load_cq_def next_cqe_def Let_def)

lemma loop_goto_fields [simp]:
  "posters (loop_goto p c) = posters c" "inbox_mutex (loop_goto p c) = inbox_mutex c" "sys (loop_goto p c) = sys c"
  "stop_src (loop_goto p c) = stop_src c" "pushed_jobs (loop_goto p c) = pushed_jobs c" "lp_pc (looper (loop_goto p c)) = p"
  "lp_local (looper (loop_goto p c)) = lp_local (looper c)"
  by (simp_all add: loop_goto_def)

lemma top_fields:
  "posters (step_top os c) = posters c" "inbox_mutex (step_top os c) = inbox_mutex c" "stop_src (step_top os c) = stop_src c"
  by (simp_all add: step_top_def Let_def)

lemmas step_defs = step_top_def step_wait_def step_cqe_def step_run_def take_mutex_def

text \<open>What a turn of the loop never touches.\<close>

lemma loop_step_frame:
  "loop_step os invoke c = Some c' \<Longrightarrow> posters c' = posters c \<and> stop_src c' = stop_src c \<and> pushed_jobs c' = pushed_jobs c"
  by (cases "lp_pc (looper c)")
    (auto simp: loop_step_def step_defs Let_def split: if_splits prod.splits option.splits exn.splits list.splits)

lemma loop_mutex:
  "loop_step os invoke c = Some c' \<Longrightarrow> inbox_mutex c = Some HLoop \<longleftrightarrow> loop_critical (lp_pc (looper c)) \<Longrightarrow>
   (inbox_mutex c' = Some HLoop \<longleftrightarrow> loop_critical (lp_pc (looper c')))
   \<and> (\<forall>i. inbox_mutex c' = Some (HClient i) \<longleftrightarrow> inbox_mutex c = Some (HClient i))"
  by (cases "lp_pc (looper c)")
    (auto simp: loop_step_def step_defs Let_def split: if_splits prod.splits option.splits exn.splits list.splits)

lemma loop_coherent: "loop_step os invoke c = Some c' \<Longrightarrow> coherent c \<Longrightarrow> coherent c'"
  using loop_step_frame [of os invoke c c'] loop_mutex [of os invoke c c'] by (simp add: coherent_def)

lemma signal_coherent: "signal_step c = Some c' \<Longrightarrow> coherent c \<Longrightarrow> coherent c'"
  by (auto simp: signal_step_def coherent_def split: if_splits)

lemma coherent_step: "conc_step os invoke a c = Some c' \<Longrightarrow> coherent c \<Longrightarrow> coherent c'"
  by (cases a) (auto dest: client_coherent stop_coherent loop_coherent signal_coherent)

lemma coherent_start: "coherent (conc_start jss s)"
  by (simp add: coherent_def conc_start_def)


section \<open>Wake-ups\<close>

text \<open>
  \<open>swapped\<close>: the loop handles a completion of the eventfd read and has taken the inbox, so that this
  completion does no more for what comes into the inbox. \<open>handling\<close>: it handles such a completion.
\<close>

fun swapped :: "'j loop_pc \<Rightarrow> bool" where
  "swapped LUnlock = True"
| "swapped LRun = True"
| "swapped (LRetryLock j) = True"
| "swapped (LRetryPush j) = True"
| "swapped LRetryUnlock = True"
| "swapped LRetryWrite = True"
| "swapped p = False"

definition handling :: "'j loop_pc \<Rightarrow> bool" where
  "handling p \<longleftrightarrow> p = LLock \<or> p = LSwap \<or> swapped p"

lemma handling_simps [simp]:
  "handling LLock" "handling LSwap" "handling LUnlock" "handling LRun" "handling (LRetryLock j)" "handling (LRetryPush j)"
  "handling LRetryUnlock" "handling LRetryWrite" "\<not> handling LTop" "\<not> handling LWait" "\<not> handling LCqes" "\<not> handling LReap"
  "\<not> handling LStopped" "\<not> handling (LThrown e)"
  by (simp_all add: handling_def)

definition write_due :: "client_pc \<Rightarrow> bool" where
  "write_due p \<longleftrightarrow> p = CPushed \<or> p = CWrite"

lemma write_due_simps [simp]: "write_due CPushed" "write_due CWrite" "\<not> write_due CIdle" "\<not> write_due CLocked" "\<not> write_due CThrown"
  by (simp_all add: write_due_def)

text \<open>
  The wake-up for what is in the inbox: the eventfd is signalled, the completion of its read waits and
  has not been used, or a thread that has pushed is about to write.
\<close>

definition wake_due :: "('k \<Rightarrow> bool) \<Rightarrow> ('j, 'k) conc \<Rightarrow> bool" where
  "wake_due signalled c \<longleftrightarrow> signalled (kst (sys c))
     \<or> wake_ready (sys c) \<and> \<not> swapped (lp_pc (looper c))
     \<or> (\<exists>i < length (posters c). write_due (cl_pc (posters c ! i)))
     \<or> lp_pc (looper c) = LRetryUnlock \<or> lp_pc (looper c) = LRetryWrite"

text \<open>The local variables of \<open>drain\<close> agree with the ring, and a completion being handled is at its front.\<close>

definition cursor_ok :: "'j looper \<Rightarrow> ring \<Rightarrow> bool" where
  "cursor_ok l r \<longleftrightarrow>
     (lp_pc l = LCqes \<or> handling (lp_pc l) \<longrightarrow> lp_mask l = cq_mask r \<and> lp_current l = cq_head r \<and> lp_tail l = cq_tail r)
   \<and> (handling (lp_pc l) \<longrightarrow> cq_head r \<noteq> cq_tail r \<and> cqe_user_data (cq_front r) = EventfdBuf)
   \<and> (lp_pc l = LTop \<or> lp_pc l = LReap \<longrightarrow> cq_head r = cq_tail r)
   \<and> (lp_pc l = LWait \<longrightarrow> sq_head r = sq_tail r)
   \<and> (\<not> swapped (lp_pc l) \<longrightarrow> lp_local l = [])"

definition conc_inv :: "('k \<Rightarrow> ptr multiset) \<Rightarrow> ('k \<Rightarrow> bool) \<Rightarrow> ('j, 'k) conc \<Rightarrow> bool" where
  "conc_inv infl signalled c \<longleftrightarrow> safe infl (sys c) \<and> coherent c \<and> cursor_ok (looper c) (ring (sys c))
     \<and> (inbox (sys c) \<noteq> [] \<longrightarrow> wake_due signalled c)
     \<and> reads_out infl (sys c) = (if eventfd_armed (sys c) \<or> handling (lp_pc (looper c)) then 1 else 0)
     \<and> (handling (lp_pc (looper c)) \<longrightarrow> \<not> eventfd_armed (sys c))
     \<and> (lp_pc (looper c) = LWait \<longrightarrow> eventfd_armed (sys c) \<and> \<not> shutting_down (sys c)
          \<and> (stop_src c = Written \<longrightarrow> signalled (kst (sys c)) \<or> wake_ready (sys c)))
     \<and> (\<forall>e. lp_pc (looper c) \<noteq> LThrown e)"

text \<open>
  The states reached by statements of the threads in any order, every statement of the code included.
  As in \<open>reach\<close>, a flag records whether every \<open>drain\<close> so far was entered with the eventfd read armed or
  with a slot for it.
\<close>

definition slot_for_read :: "actor \<Rightarrow> ('j, 'k) conc \<Rightarrow> bool" where
  "slot_for_read a c \<longleftrightarrow> (a = Loop \<and> lp_pc (looper c) = LTop \<longrightarrow> eventfd_armed (sys c) \<or> has_capacity (ring (sys c)) 1)"

inductive creach :: "'k os \<Rightarrow> ('j, 'k) invoke \<Rightarrow> ('j, 'k) conc \<Rightarrow> bool \<Rightarrow> ('j, 'k) conc \<Rightarrow> bool"
  for os :: "'k os" and invoke :: "('j, 'k) invoke" and c0 :: "('j, 'k) conc" where
  start: "creach os invoke c0 True c0"
| step: "creach os invoke c0 ok c \<Longrightarrow> conc_step os invoke a c = Some c' \<Longrightarrow> creach os invoke c0 (ok \<and> slot_for_read a c) c'"

context eventfd_kernel
begin

text \<open>A step of another thread changes the inbox and signals the eventfd, nothing else.\<close>

lemma outside_inv:
  assumes inv: "conc_inv infl signalled c" and "coherent c'" "looper c' = looper c"
    and s: "sys c' = (sys c)\<lparr>inbox := b, kst := k\<rparr>" "infl k = infl (kst (sys c))"
    and k: "signalled (kst (sys c)) \<longrightarrow> signalled k" "stop_src c' = Written \<longrightarrow> stop_src c = Written \<or> signalled k"
    and b: "b \<noteq> [] \<longrightarrow> wake_due signalled c'"
  shows "conc_inv infl signalled c'"
proof -
  have "safe infl (sys c')" using inv s by (intro safe_cong [of "sys c'" "sys c"]) (simp_all add: conc_inv_def)
  moreover have "reads_out infl (sys c') = reads_out infl (sys c)" "wake_ready (sys c') = wake_ready (sys c)"
    using s by (simp_all add: reads_out_def live_q_def wake_ready_def)
  ultimately show ?thesis using assms by (auto simp: conc_inv_def)
qed

lemma poke_parts:
  assumes "poke_eventfd os s = (ok, s')"
  shows "s' = s\<lparr>inbox := inbox s, kst := kst s'\<rparr>" "infl (kst s') = infl (kst s)" "signalled (kst s')"
  using assms write_keeps write_signals by (auto simp: poke_eventfd_def split: prod.splits)

lemma client_inv:
  assumes st: "client_step os i c = Some c'" and inv: "conc_inv infl signalled c"
  shows "conc_inv infl signalled c'"
proof -
  have co: "coherent c'" using client_coherent [OF st] inv by (simp add: conc_inv_def)
  have due: "wake_due signalled c" if "inbox (sys c) \<noteq> []" using that inv by (simp add: conc_inv_def)
  have pend: "\<exists>k < length (posters c'). write_due (cl_pc (posters c' ! k))"
    if "i < length (posters c')" "write_due (cl_pc (posters c' ! i))" using that by blast
  show ?thesis using st
  proof (cases rule: client_stepE)
    case lock
    have "wake_due signalled c'" if "wake_due signalled c"
    proof -
      have "write_due (cl_pc (posters c' ! k))" if "write_due (cl_pc (posters c ! k))" for k
        using that lock(2,5) by (cases "k = i") (simp_all add: poster_goto_def)
      then show ?thesis using that lock(5) by (auto simp: wake_due_def poster_goto_def)
    qed
    then show ?thesis
      using due lock by (intro outside_inv [OF inv co, where b = "inbox (sys c)" and k = "kst (sys c)"]) (auto simp: poster_goto_def)
  next
    case (push j js)
    then have "wake_due signalled c'" using pend by (simp add: wake_due_def)
    then show ?thesis
      using push by (intro outside_inv [OF inv co, where b = "inbox (sys c) @ [j]" and k = "kst (sys c)"]) simp_all
  next
    case unlock
    then have "wake_due signalled c'" using pend by (simp add: wake_due_def poster_goto_def)
    then show ?thesis
      using unlock by (intro outside_inv [OF inv co, where b = "inbox (sys c)" and k = "kst (sys c)"]) (simp_all add: poster_goto_def)
  next
    case (signal ok s')
    note p = poke_parts [OF signal(3)]
    then have "wake_due signalled c'" using signal by (simp add: wake_due_def poster_goto_def)
    then show ?thesis
      using signal p by (intro outside_inv [OF inv co, where b = "inbox (sys c)" and k = "kst s'"]) (simp_all add: poster_goto_def)
  qed
qed

lemma stop_inv:
  assumes st: "stop_step os c = Some c'" and inv: "conc_inv infl signalled c"
  shows "conc_inv infl signalled c'"
proof -
  have co: "coherent c'" using stop_coherent [OF st] inv by (simp add: conc_inv_def)
  have due: "wake_due signalled c" if "inbox (sys c) \<noteq> []" using that inv by (simp add: conc_inv_def)
  show ?thesis
  proof (cases "stop_src c")
    case NotRequested
    then have "c' = c\<lparr>stop_src := Requested\<rparr>" using st by (simp add: stop_step_def)
    then show ?thesis
      using due by (intro outside_inv [OF inv co, where b = "inbox (sys c)" and k = "kst (sys c)"]) (simp_all add: wake_due_def)
  next
    case Requested
    obtain ok s' where p: "poke_eventfd os (sys c) = (ok, s')" by fastforce
    then have "c' = c\<lparr>sys := s', stop_src := Written\<rparr>" using st Requested by (simp add: stop_step_def)
    then show ?thesis
      using poke_parts [OF p] by (intro outside_inv [OF inv co, where b = "inbox (sys c)" and k = "kst s'"]) (simp_all add: wake_due_def)
  qed (use st in \<open>simp add: stop_step_def\<close>)
qed

lemma enter_fields [simp]:
  "inbox (io_uring_enter os n mc s) = inbox s" "eventfd_armed (io_uring_enter os n mc s) = eventfd_armed s"
  "shutting_down (io_uring_enter os n mc s) = shutting_down s" "tasks (io_uring_enter os n mc s) = tasks s"
  by (simp_all add: io_uring_enter_def Let_def split_beta)

lemma enter_reads: "safe infl s \<Longrightarrow> reads_out infl (io_uring_enter os n mc s) = reads_out infl s"
  by (simp add: reads_out_def enter_flow(2))

lemma submit_effect:
  assumes safe: "safe infl s" and out: "reads_out infl s = (if eventfd_armed s then 1 else 0)"
    and slot: "eventfd_armed s \<or> has_capacity (ring s) 1"
  shows "safe infl (submit_staged os s)" "reads_out infl (submit_staged os s) = 1" "eventfd_armed (submit_staged os s)"
    "inbox (submit_staged os s) = inbox s" "shutting_down (submit_staged os s) = shutting_down s"
    "signalled (kst s) \<or> wake_ready s \<Longrightarrow> signalled (kst (submit_staged os s)) \<or> wake_ready (submit_staged os s)"
proof -
  let ?s0 = "if \<not> eventfd_armed s then arm_eventfd_read s else s"
  have s0: "safe infl ?s0" by (rule armed_safe [OF safe slot])
  have "sq_ok (ring s)" using safe sched_inv_calm by (fastforce simp: safe_def calm_def ring_ok_def)
  then have room: "eventfd_armed s \<or> sq_len (ring s) < unat (sq_entries (ring s))" using slot has_capacity_1 by blast
  have e: "safe infl (s\<lparr>inbox := []\<rparr>)" using keeps_safe_safe [OF keeps_safe_flags(1) safe] .
  have "attentive infl signalled (arm_eventfd_read (s\<lparr>inbox := []\<rparr>))" if "\<not> eventfd_armed s"
    using arm_attentive [OF e] room that out by (simp add: attentive_def reads_out_def live_q_def)
  then have "reads_out infl ?s0 = 1" using out by (auto simp: attentive_def reads_out_def live_q_def arm_stages)
  then show "reads_out infl (submit_staged os s) = 1" by (simp add: submit_staged_def Let_def enter_reads [OF s0])
  show "safe infl (submit_staged os s)" using enter_safe [OF s0] by (simp add: submit_staged_def Let_def)
  show "eventfd_armed (submit_staged os s)" "inbox (submit_staged os s) = inbox s" "shutting_down (submit_staged os s) = shutting_down s"
    by (simp_all add: submit_staged_def Let_def arm_stages)
  have "kst ?s0 = kst s" "wake_ready ?s0 = wake_ready s" by (simp_all add: arm_stages wake_ready_def)
  then show "signalled (kst s) \<or> wake_ready s \<Longrightarrow> signalled (kst (submit_staged os s)) \<or> wake_ready (submit_staged os s)"
    using enter_signal [OF s0] by (simp add: submit_staged_def Let_def)
qed

text \<open>The completion of the eventfd read leaves the ring.\<close>

lemma advance_wake:
  assumes safe: "safe infl s" and front: "cq_head (ring s) \<noteq> cq_tail (ring s)" "cqe_user_data (cq_front (ring s)) = EventfdBuf"
  shows "safe infl (s\<lparr>ring := cq_advance (ring s)\<rparr>)"
    "reads_out infl s = Suc (reads_out infl (s\<lparr>ring := cq_advance (ring s)\<rparr>))"
proof -
  let ?s' = "s\<lparr>ring := cq_advance (ring s)\<rparr>"
  have inv: "sched_inv (live_q infl s) s" using safe by (simp add: safe_def)
  have ok: "cq_ok (ring s)" using sched_inv_calm [OF inv] by (simp add: calm_def ring_ok_def)
  have "cq_ready (ring s) = cq_front (ring s) # tl (cq_ready (ring s))"
    using cq.nonempty_iff [OF ok] cq.front_hd [OF ok] front(1) by simp
  then have "mset (map cqe_user_data (cq_ready (ring s))) = add_mset EventfdBuf (mset (map cqe_user_data (cq_ready (cq_advance (ring s)))))"
    using cq_ready_advance [OF front(1)] front(2) by (metis image_mset_add_mset mset.simps(2) mset_map)
  then have lq: "live_q infl s = add_mset EventfdBuf (live_q infl ?s')" by (simp add: live_q_def)
  have q: "sched_inv (live_q infl ?s') s" using sched_inv_drop [of EventfdBuf "live_q infl ?s'" s] inv lq by simp
  have "calm ?s'" using sched_inv_calm [OF inv] cq.good_advance [of "ring s"] front(1)
    by (simp add: calm_def ring_ok_def cq_advance_def)
  moreover have sq: "sq_uds (cq_advance (ring s)) = sq_uds (ring s)" by (simp add: sq_uds_def cq_advance_def)
  ultimately show "safe infl ?s'" unfolding safe_def by (intro sched_inv_sum [OF q]) simp_all
  show "reads_out infl s = Suc (reads_out infl ?s')" by (simp add: reads_out_def lq sq)
qed

lemma enter_nothing:
  "sq_head (ring (io_uring_enter os 0 mc s)) = sq_head (ring s)" "sq_tail (ring (io_uring_enter os 0 mc s)) = sq_tail (ring s)"
proof -
  have f: "sq_head (fold post_cqe cs r) = sq_head r \<and> sq_tail (fold post_cqe cs r) = sq_tail r" for cs r
    by (induction cs arbitrary: r) (simp_all add: post_cqe_def)
  obtain resp k' where e: "os_enter os [] mc (unat (cq_entries (ring s)) - cq_len (ring s)) (kst s) = (resp, k')" by fastforce
  from enter_taken [OF e] have "er_taken resp = 0" by simp
  then show "sq_head (ring (io_uring_enter os 0 mc s)) = sq_head (ring s)" "sq_tail (ring (io_uring_enter os 0 mc s)) = sq_tail (ring s)"
    using e f by (simp_all add: io_uring_enter_def consume_sq_def)
qed

lemma top_inv:
  assumes inv: "conc_inv infl signalled c" and pc: "lp_pc (looper c) = LTop"
    and slot: "eventfd_armed (sys c) \<or> has_capacity (ring (sys c)) 1" and co: "coherent (step_top os c)"
  shows "conc_inv infl signalled (step_top os c)"
proof (cases "stop_src c = NotRequested")
  case True
  have "safe infl (sys c)" "reads_out infl (sys c) = (if eventfd_armed (sys c) then 1 else 0)"
    using inv pc by (simp_all add: conc_inv_def)
  note s = submit_effect [OF this slot]
  have "wake_due signalled (step_top os c)" if "wake_due signalled c"
    using that s(6) pc True by (auto simp: step_top_def wake_due_def Let_def)
  then show ?thesis using inv co pc s(1-5) True
    by (auto simp: conc_inv_def step_top_def Let_def cursor_ok_def load_cq_def loop_goto_def)
next
  case False
  then show ?thesis using inv co pc by (auto simp: conc_inv_def step_top_def cursor_ok_def loop_goto_def wake_due_def)
qed

lemma load_inv:
  assumes inv: "conc_inv infl signalled c" and pc: "lp_pc (looper c) = LWait" and co: "coherent (load_cq c)"
  shows "conc_inv infl signalled (load_cq c)"
proof -
  have "wake_due signalled (load_cq c)" if "wake_due signalled c" using that pc by (auto simp: wake_due_def)
  then show ?thesis using inv co pc by (auto simp: conc_inv_def cursor_ok_def) (simp_all add: load_cq_def Let_def)
qed

lemma wait_inv:
  assumes inv: "conc_inv infl signalled c" and pc: "lp_pc (looper c) = LWait" and co: "coherent (step_wait os c)"
  shows "conc_inv infl signalled (step_wait os c)"
proof (cases "cq_head (ring (sys c)) = cq_tail (ring (sys c))")
  case True
  let ?s = "io_uring_enter os 0 1 (sys c)"
  have c': "step_wait os c = c\<lparr>sys := ?s\<rparr>" using True by (simp add: step_wait_def)
  have safe: "safe infl (sys c)" using inv by (simp add: conc_inv_def)
  have "wake_due signalled (c\<lparr>sys := ?s\<rparr>)" if "wake_due signalled c"
    using that enter_signal [OF safe] pc by (auto simp: wake_due_def)
  moreover have "sq_head (ring ?s) = sq_tail (ring ?s)"
    using inv pc enter_nothing [of 1 "sys c"] by (simp add: conc_inv_def cursor_ok_def)
  ultimately show ?thesis
    using inv co pc enter_safe [OF safe] enter_reads [OF safe] enter_signal [OF safe] unfolding c'
    by (auto simp: conc_inv_def cursor_ok_def)
qed (use load_inv [OF inv pc] co in \<open>simp add: step_wait_def\<close>)

text \<open>Handling one completion other than the wake-up.\<close>

lemma other_inv:
  assumes jobs: "jobs_ok infl invoke" and inv: "conc_inv infl signalled c" and pc: "lp_pc (looper c) = LCqes"
    and ne: "cq_head (ring (sys c)) \<noteq> cq_tail (ring (sys c))" and ud: "cqe_user_data (cq_front (ring (sys c))) \<noteq> EventfdBuf"
    and p: "process_cqe os invoke (cq_front (ring (sys c))) (sys c) = (e, s1)" and co: "coherent (next_cqe (c\<lparr>sys := s1\<rparr>))"
  shows "e = None" "conc_inv infl signalled (next_cqe (c\<lparr>sys := s1\<rparr>))"
proof -
  let ?s = "sys c" and ?f = "cq_front (ring (sys c))" and ?s2 = "s1\<lparr>ring := cq_advance (ring s1)\<rparr>"
  have safe: "safe infl ?s" using inv by (simp add: conc_inv_def)
  note st = cqe_step [OF jobs safe ne p]
  have lq: "live_q infl ?s = add_mset (cqe_user_data ?f) (infl (kst ?s) + mset (map cqe_user_data (tl (cq_ready (ring ?s)))))"
    unfolding live_q_def by (subst st(5)) simp
  have "sched_inv (add_mset (cqe_user_data ?f) (infl (kst ?s) + mset (map cqe_user_data (tl (cq_ready (ring ?s)))))) ?s"
    using safe lq by (simp add: safe_def)
  note o = other_cqe [OF this ud p]
  then show "e = None" by simp
  have cs: "cq_head (ring s1) = lp_current (looper c)" "cq_tail (ring s1) = lp_tail (looper c)" "cq_mask (ring s1) = lp_mask (looper c)"
    using st(1) inv pc by (simp_all add: conc_inv_def cursor_ok_def cq_same_def)
  then have s2: "sys (next_cqe (c\<lparr>sys := s1\<rparr>)) = ?s2" by (simp add: next_cqe_def cq_advance_def Let_def)
  have sq: "sq_uds (cq_advance (ring s1)) = sq_uds (ring s1)" by (simp add: sq_uds_def cq_advance_def)
  have wr: "wake_ready ?s2 = wake_ready ?s" 
  proof -
    have "set (cq_ready (ring ?s)) = insert ?f (set (tl (cq_ready (ring ?s))))" by (metis st(5) list.simps(15))
    then show ?thesis using ud by (simp add: wake_ready_def st(4))
  qed
  have "live_q infl ?s2 = infl (kst ?s) + mset (map cqe_user_data (tl (cq_ready (ring ?s))))"
    using o by (simp add: live_q_def st(4))
  then have "reads_out infl ?s2 = reads_out infl ?s" using o ud by (simp add: reads_out_def lq sq)
  moreover have "wake_due signalled (next_cqe (c\<lparr>sys := s1\<rparr>))" if "wake_due signalled c"
    using that pc wr o by (auto simp: wake_due_def s2)
  moreover have "cursor_ok (looper (next_cqe (c\<lparr>sys := s1\<rparr>))) (ring ?s2)"
    using cs inv pc by (simp add: cursor_ok_def next_cqe_def cq_advance_def store_cq_head_def Let_def conc_inv_def)
  ultimately show "conc_inv infl signalled (next_cqe (c\<lparr>sys := s1\<rparr>))"
    using inv co pc st(3) o by (auto simp: conc_inv_def s2)
qed

lemma cqe_inv:
  assumes jobs: "jobs_ok infl invoke" and inv: "conc_inv infl signalled c" and pc: "lp_pc (looper c) = LCqes"
    and co: "coherent (step_cqe os invoke c)"
  shows "conc_inv infl signalled (step_cqe os invoke c)"
proof (cases "cq_head (ring (sys c)) = cq_tail (ring (sys c))")
  case True
  then have c': "step_cqe os invoke c = loop_goto LReap c" using inv pc by (simp add: conc_inv_def cursor_ok_def step_cqe_def Let_def)
  show ?thesis using inv co pc True unfolding c'
    by (auto simp: conc_inv_def cursor_ok_def wake_due_def)
next
  case ne: False
  have cur: "lp_current (looper c) \<noteq> lp_tail (looper c)"
    "cq_cqes (ring (sys c)) ! unat (lp_current (looper c) AND lp_mask (looper c)) = cq_front (ring (sys c))"
    using inv pc ne by (simp_all add: conc_inv_def cursor_ok_def cq_front_def)
  show ?thesis
  proof (cases "cqe_user_data (cq_front (ring (sys c))) = EventfdBuf")
    case True
    let ?s = "(sys c)\<lparr>eventfd_armed := False\<rparr>"
    have c': "step_cqe os invoke c = loop_goto LLock (c\<lparr>sys := ?s\<rparr>)" using cur True by (simp add: step_cqe_def Let_def)
    have safe: "safe infl (sys c)" using inv by (simp add: conc_inv_def)
    have "safe infl ?s" using keeps_safe_safe [OF keeps_safe_flags(2) safe] .
    moreover have "reads_out infl (sys c) = 1" using inv pc advance_wake(2) [OF safe ne True] by (auto simp: conc_inv_def split: if_splits)
    then have "reads_out infl ?s = 1" by (simp add: reads_out_def live_q_def)
    moreover have "wake_due signalled (step_cqe os invoke c)" if "wake_due signalled c"
      using that pc unfolding c' by (auto simp: wake_due_def wake_ready_def)
    ultimately show ?thesis using inv co pc ne True unfolding c' by (auto simp: conc_inv_def cursor_ok_def loop_goto_def)
  next
    case False
    obtain e s1 where p: "process_cqe os invoke (cq_front (ring (sys c))) (sys c) = (e, s1)" by fastforce
    have n: "step_cqe os invoke c = next_cqe (c\<lparr>sys := s1\<rparr>)" if "e = None"
      using cur False p that by (simp add: step_cqe_def Let_def)
    have "safe infl (sys c)" using inv by (simp add: conc_inv_def)
    note st = cqe_step [OF jobs this ne p]
    have "coherent (next_cqe (c\<lparr>sys := s1\<rparr>))" using inv pc by (simp add: conc_inv_def coherent_def)
    from other_inv [OF jobs inv pc ne False p this] n show ?thesis by simp
  qed
qed

lemma run_inv:
  assumes jobs: "jobs_ok infl invoke" "jobs_wake signalled invoke" and inv: "conc_inv infl signalled c" and pc: "lp_pc (looper c) = LRun"
    and co: "coherent (step_run invoke c)"
  shows "conc_inv infl signalled (step_run invoke c)"
proof (cases "lp_local (looper c)")
  case Nil
  have i: "safe infl (sys c)" "cq_head (ring (sys c)) \<noteq> cq_tail (ring (sys c))" "cqe_user_data (cq_front (ring (sys c))) = EventfdBuf"
    "reads_out infl (sys c) = 1" "\<not> eventfd_armed (sys c)" "lp_mask (looper c) = cq_mask (ring (sys c))"
    "lp_current (looper c) = cq_head (ring (sys c))" "lp_tail (looper c) = cq_tail (ring (sys c))"
    using inv pc by (simp_all add: conc_inv_def cursor_ok_def)
  have c': "step_run invoke c = next_cqe c" using Nil by (simp add: step_run_def)
  have s2: "sys (next_cqe c) = (sys c)\<lparr>ring := cq_advance (ring (sys c))\<rparr>" by (simp add: next_cqe_def cq_advance_def Let_def i)
  have "cursor_ok (looper (next_cqe c)) (cq_advance (ring (sys c)))"
    by (simp add: cursor_ok_def next_cqe_def cq_advance_def store_cq_head_def Let_def i Nil)
  moreover have "wake_due signalled (next_cqe c)" if "wake_due signalled c" using that pc by (auto simp: wake_due_def s2)
  ultimately show ?thesis using inv co pc advance_wake [OF i(1-3)] i(4,5) unfolding c' by (auto simp: conc_inv_def s2)
next
  case (Cons j rest)
  have safe: "safe infl (sys c)" using inv by (simp add: conc_inv_def)
  obtain e s1 where v: "invoke j (sys c) = (e, s1)" by fastforce
  have k: "keeps_safe infl (sys c) s1" using jobs(1) safe v unfolding jobs_ok_def safe_def by (metis snd_conv)
  have w: "\<forall>x. e \<noteq> Some (UserExc x)" "heeds signalled (sys c) s1"
    using jobs(2) safe v unfolding jobs_wake_def safe_def by (metis fst_conv, metis snd_conv)
  let ?c1 = "c\<lparr>sys := s1, looper := (looper c)\<lparr>lp_local := rest\<rparr>\<rparr>"
  have "loop_goto LRun ?c1 = ?c1" using pc by (cases "looper c") (simp add: loop_goto_def)
  then have "step_run invoke c = loop_goto LRun ?c1 \<or> step_run invoke c = loop_goto (LRetryLock j) ?c1"
    using Cons v w(1) by (auto simp: step_run_def Let_def split: option.split exn.split)
  then obtain q where q: "step_run invoke c = loop_goto q ?c1" "q = LRun \<or> q = LRetryLock j" by blast
  then have p: "handling q" "swapped q" "q \<noteq> LWait" "\<And>e. q \<noteq> LThrown e" "q \<noteq> LTop" "q \<noteq> LReap" by auto
  have r: "cq_same (ring (sys c)) (ring s1)" "shutting_down s1 = shutting_down (sys c)" using k by (simp_all add: keeps_safe_def same_loop_def)
  have "reads_out infl s1 = reads_out infl (sys c)"
    using w(2) k cq_same_abs [OF r(1)] by (simp add: reads_out_def live_q_def heeds_def keeps_safe_def)
  moreover have "safe infl s1" by (rule keeps_safe_safe [OF k safe])
  moreover have "inbox s1 \<noteq> [] \<longrightarrow> wake_due signalled (loop_goto q ?c1)"
    using w(2) inv pc by (auto simp: conc_inv_def wake_due_def heeds_def)
  moreover have "\<not> eventfd_armed s1" using w(2) inv pc by (simp add: heeds_def conc_inv_def)
  moreover have "cursor_ok (looper (loop_goto q ?c1)) (ring s1)"
    using inv pc r(1) p by (simp add: conc_inv_def cursor_ok_def loop_goto_def cq_same_def cq_front_def)
  ultimately show ?thesis
    using inv co pc p unfolding q(1) by (simp add: conc_inv_def)
qed

lemma reap_conc_inv:
  assumes inv: "conc_inv infl signalled c" and pc: "lp_pc (looper c) = LReap" and co: "coherent (loop_goto LTop (c\<lparr>sys := reap (sys c)\<rparr>))"
  shows "conc_inv infl signalled (loop_goto LTop (c\<lparr>sys := reap (sys c)\<rparr>))"
proof -
  have "sched_inv (live_q infl (sys c)) (sys c)" using inv by (simp add: conc_inv_def safe_def)
  note re = reap_effect [OF this] and ri = reap_inv [OF this]
  have "safe infl (reap (sys c))" using ri by (simp add: safe_def re live_q_def)
  moreover have "reads_out infl (reap (sys c)) = reads_out infl (sys c)" "wake_ready (reap (sys c)) = wake_ready (sys c)"
    by (simp_all add: re reads_out_def live_q_def wake_ready_def)
  ultimately show ?thesis using inv co pc
    by (auto simp: conc_inv_def wake_due_def cursor_ok_def) (auto simp: re)
qed

text \<open>Steps that move the loop within \<open>drain_inbox\<close> and change the inbox or the eventfd only.\<close>

lemma inbox_inv:
  assumes inv: "conc_inv infl signalled c" and co: "coherent c'"
    and s: "sys c' = (sys c)\<lparr>inbox := b, kst := k\<rparr>" "infl k = infl (kst (sys c))"
    and h: "handling (lp_pc (looper c))" "handling (lp_pc (looper c'))" "\<not> swapped (lp_pc (looper c')) \<longrightarrow> lp_local (looper c') = []"
    and l: "lp_mask (looper c') = lp_mask (looper c)" "lp_current (looper c') = lp_current (looper c)" "lp_tail (looper c') = lp_tail (looper c)"
    and due: "b \<noteq> [] \<longrightarrow> wake_due signalled c'"
  shows "conc_inv infl signalled c'"
proof -
  have "safe infl (sys c')" using inv s by (intro safe_cong [of "sys c'" "sys c"]) (simp_all add: conc_inv_def)
  moreover have "reads_out infl (sys c') = reads_out infl (sys c)" using s by (simp add: reads_out_def live_q_def)
  moreover have "cursor_ok (looper c') (ring (sys c'))"
    using inv s(1) h l by (auto simp: conc_inv_def cursor_ok_def)
  moreover have "lp_pc (looper c') \<noteq> LWait" "\<forall>e. lp_pc (looper c') \<noteq> LThrown e" using h(2) by auto
  ultimately show ?thesis using inv co s(1) h(1,2) due by (simp add: conc_inv_def)
qed

lemma loop_inv:
  assumes jobs: "jobs_ok infl invoke" "jobs_wake signalled invoke" and st: "loop_step os invoke c = Some c'"
    and inv: "conc_inv infl signalled c"
    and slot: "lp_pc (looper c) = LTop \<longrightarrow> eventfd_armed (sys c) \<or> has_capacity (ring (sys c)) 1"
  shows "conc_inv infl signalled c'"
proof -
  have co: "coherent c'" using loop_coherent [OF st] inv by (simp add: conc_inv_def)
  have due: "wake_due signalled c" if "inbox (sys c) \<noteq> []" using that inv by (simp add: conc_inv_def)
  note same = inbox_inv [OF inv co, where b = "inbox (sys c)" and k = "kst (sys c)"]
  show ?thesis
  proof (cases "lp_pc (looper c)")
    case LTop
    then show ?thesis using top_inv [OF inv LTop] slot st co by (simp add: loop_step_def Let_def)
  next
    case LWait
    then show ?thesis using wait_inv [OF inv LWait] st co by (simp add: loop_step_def Let_def)
  next
    case LCqes
    then show ?thesis using cqe_inv [OF jobs(1) inv LCqes] st co by (simp add: loop_step_def Let_def)
  next
    case LLock
    then have c': "c' = loop_goto LSwap (c\<lparr>inbox_mutex := Some HLoop\<rparr>)"
      using st by (auto simp: loop_step_def take_mutex_def Let_def split: if_splits)
    show ?thesis by (rule same) (use LLock inv due in \<open>auto simp: c' loop_goto_def wake_due_def conc_inv_def cursor_ok_def\<close>)
  next
    case LSwap
    then have c': "c' = c\<lparr>sys := (sys c)\<lparr>inbox := []\<rparr>, looper := (looper c)\<lparr>lp_pc := LUnlock, lp_local := inbox (sys c)\<rparr>\<rparr>"
      using st by (simp add: loop_step_def Let_def)
    show ?thesis by (rule inbox_inv [OF inv co, where b = "[]" and k = "kst (sys c)"]) (use LSwap in \<open>simp_all add: c'\<close>)
  next
    case LUnlock
    then have c': "c' = loop_goto LRun (c\<lparr>inbox_mutex := None\<rparr>)" using st by (simp add: loop_step_def Let_def)
    show ?thesis by (rule same) (use LUnlock due in \<open>auto simp: c' loop_goto_def wake_due_def\<close>)
  next
    case LRun
    then show ?thesis using run_inv [OF jobs inv LRun] st co by (simp add: loop_step_def Let_def)
  next
    case (LRetryLock j)
    then have c': "c' = loop_goto (LRetryPush j) (c\<lparr>inbox_mutex := Some HLoop\<rparr>)"
      using st by (auto simp: loop_step_def take_mutex_def Let_def split: if_splits)
    show ?thesis by (rule same) (use LRetryLock due in \<open>auto simp: c' loop_goto_def wake_due_def\<close>)
  next
    case (LRetryPush j)
    then have c': "c' = loop_goto LRetryUnlock (c\<lparr>sys := (sys c)\<lparr>inbox := inbox (sys c) @ [j]\<rparr>\<rparr>)" using st by (simp add: loop_step_def Let_def)
    show ?thesis
      by (rule inbox_inv [OF inv co, where b = "inbox (sys c) @ [j]" and k = "kst (sys c)"])
        (use LRetryPush in \<open>simp_all add: c' loop_goto_def wake_due_def\<close>)
  next
    case LRetryUnlock
    then have c': "c' = loop_goto LRetryWrite (c\<lparr>inbox_mutex := None\<rparr>)" using st by (simp add: loop_step_def Let_def)
    show ?thesis by (rule same) (use LRetryUnlock in \<open>auto simp: c' loop_goto_def wake_due_def\<close>)
  next
    case LRetryWrite
    obtain ok s' where p: "poke_eventfd os (sys c) = (ok, s')" by fastforce
    have c': "c' = loop_goto LRun (c\<lparr>sys := s'\<rparr>)" using st LRetryWrite p by (simp add: loop_step_def Let_def)
    show ?thesis
      by (rule inbox_inv [OF inv co, where b = "inbox (sys c)" and k = "kst s'"])
        (use LRetryWrite poke_parts [OF p] in \<open>simp_all add: c' loop_goto_def wake_due_def\<close>)
  next
    case LReap
    then show ?thesis using reap_conc_inv [OF inv LReap] st co by (simp add: loop_step_def Let_def)
  qed (use st in \<open>simp_all add: loop_step_def Let_def\<close>)
qed

lemma step_inv:
  assumes jobs: "jobs_ok infl invoke" "jobs_wake signalled invoke" and st: "conc_step os invoke a c = Some c'"
    and inv: "conc_inv infl signalled c"
    and slot: "slot_for_read a c"
  shows "conc_inv infl signalled c'"
proof (cases a)
  case Signal
  then have "c' = load_cq c" "lp_pc (looper c) = LWait" using st by (auto simp: signal_step_def split: if_splits)
  then show ?thesis using load_inv [OF inv] coherent_step [OF st] inv by (simp add: conc_inv_def)
qed (use client_inv stop_inv loop_inv [OF jobs] assms in \<open>auto simp: slot_for_read_def\<close>)

lemma creach_inv:
  assumes "jobs_ok infl invoke" "jobs_wake signalled invoke" "creach os invoke c0 ok c" "conc_inv infl signalled c0" ok
  shows "conc_inv infl signalled c"
  using assms(3-) by (induction rule: creach.induct) (auto intro: step_inv [OF assms(1,2)])

lemma start_inv:
  assumes "Scheduler_ctor os r k = Inr s" "ring_ok r" "sq_pending r = []" "cq_ready r = []" "infl k = {#}"
  shows "conc_inv infl signalled (conc_start jss s)"
proof -
  have "cq_len r = 0" using assms(4) by (metis length_cq_ready list.size(3))
  then have "cq_head r = cq_tail r" by (simp add: cq_len_def)
  moreover have "ring s = r" "inbox s = []" "\<not> eventfd_armed s"
    using assms(1) by (auto simp: Scheduler_ctor_def split: prod.splits if_splits)
  ultimately show ?thesis
    using ctor_safe [OF assms] ctor_attentive [OF assms] coherent_start [of jss s]
    by (simp add: conc_inv_def attentive_def) (simp add: conc_start_def cursor_ok_def)
qed

end


section \<open>The loop comes round\<close>

text \<open>
  With no client in its critical section, turns of the loop lead from any place after \<open>io_uring_enter\<close>
  to the next test of the stop token. What is left to do: the completions, for the one being handled
  whether the inbox has been taken, the callables taken from it, the statements for the present one.
\<close>

definition phase :: "'j loop_pc \<Rightarrow> nat" where
  "phase p = (case p of LCqes \<Rightarrow> 3 | LLock \<Rightarrow> 2 | LSwap \<Rightarrow> 1 | _ \<Rightarrow> 0)"

definition statements :: "'j loop_pc \<Rightarrow> nat" where
  "statements p = (case p of LUnlock \<Rightarrow> 5 | LRetryLock j \<Rightarrow> 4 | LRetryPush j \<Rightarrow> 3 | LRetryUnlock \<Rightarrow> 2 | LRetryWrite \<Rightarrow> 1 | _ \<Rightarrow> 0)"

definition to_go :: "'j looper \<Rightarrow> nat \<times> nat \<times> nat \<times> nat" where
  "to_go l = (dist (lp_current l) (lp_tail l), phase (lp_pc l), length (lp_local l), statements (lp_pc l))"

abbreviation to_go_rel :: "((nat \<times> nat \<times> nat \<times> nat) \<times> (nat \<times> nat \<times> nat \<times> nat)) set" where
  "to_go_rel \<equiv> less_than <*lex*> less_than <*lex*> less_than <*lex*> less_than"

lemma wf_to_go: "wf to_go_rel"
  by (intro wf_lex_prod wf_less_than)

definition settled :: "'j loop_pc \<Rightarrow> bool" where
  "settled p \<longleftrightarrow> p = LTop \<or> p = LStopped"

definition clients_out :: "('j, 'k) conc \<Rightarrow> bool" where
  "clients_out c \<longleftrightarrow> (\<forall>i. inbox_mutex c \<noteq> Some (HClient i))"

lemma next_to_go:
  "cursor_ok (looper c) r \<Longrightarrow> lp_current (looper c) \<noteq> lp_tail (looper c) \<Longrightarrow> (to_go (looper (next_cqe c)), to_go (looper c)) \<in> to_go_rel"
  by (simp add: to_go_def next_cqe_def Let_def dist_pop_less)

lemma settle_step:
  assumes inv: "conc_inv infl signalled c" and out: "clients_out c" and pc: "\<not> settled (lp_pc (looper c))" "lp_pc (looper c) \<noteq> LWait"
  obtains c' where "loop_step os invoke c = Some c'" "lp_pc (looper c') \<noteq> LWait"
    "settled (lp_pc (looper c')) \<or> (\<exists>e. lp_pc (looper c') = LThrown e) \<or> (to_go (looper c'), to_go (looper c)) \<in> to_go_rel"
proof -
  have cur: "cursor_ok (looper c) (ring (sys c))" using inv by (simp add: conc_inv_def)
  have free: "inbox_mutex c = None" if "\<not> loop_critical (lp_pc (looper c))"
  proof -
    have "inbox_mutex c \<noteq> Some HLoop" using inv that by (simp add: conc_inv_def coherent_def)
    then show ?thesis using out by (metis clients_out_def holder.exhaust option.exhaust)
  qed
  have nth: "lp_pc (looper c) \<noteq> LThrown e" for e using inv by (simp add: conc_inv_def)
  have "\<exists>c'. loop_step os invoke c = Some c' \<and> lp_pc (looper c') \<noteq> LWait
    \<and> (settled (lp_pc (looper c')) \<or> (\<exists>e. lp_pc (looper c') = LThrown e) \<or> (to_go (looper c'), to_go (looper c)) \<in> to_go_rel)"
  proof (cases "lp_pc (looper c)")
    case LCqes
    then show ?thesis
      using next_to_go [of "c\<lparr>sys := s\<rparr>" "ring (sys c)" for s] cur
      by (auto simp: loop_step_def step_cqe_def loop_goto_def Let_def to_go_def phase_def split: prod.split option.split)
  next
    case LRun
    then have "lp_current (looper c) \<noteq> lp_tail (looper c)" using cur by (simp add: cursor_ok_def)
    with LRun show ?thesis
      using next_to_go [OF cur] 
      by (auto simp: loop_step_def step_run_def loop_goto_def Let_def to_go_def phase_def split: list.split prod.split option.split exn.split)
  qed (use pc nth free in \<open>auto simp: settled_def loop_steps to_go_def phase_def statements_def\<close>)
  with that show thesis by blast
qed

context eventfd_kernel
begin

lemma settles:
  assumes jobs: "jobs_ok infl invoke" "jobs_wake signalled invoke"
  shows "conc_inv infl signalled c \<Longrightarrow> clients_out c \<Longrightarrow> lp_pc (looper c) \<noteq> LWait \<Longrightarrow>
    \<exists>c'. leads os invoke c c' \<and> settled (lp_pc (looper c')) \<and> conc_inv infl signalled c' \<and> clients_out c' \<and> stop_src c' = stop_src c
      \<and> posters c' = posters c \<and> pushed_jobs c' = pushed_jobs c"
proof (induction c rule: wf_induct_rule [OF wf_inv_image [OF wf_to_go, of "\<lambda>c. to_go (looper c)"]])
  case (1 c)
  show ?case
  proof (cases "settled (lp_pc (looper c))")
    case False
    obtain c' where c': "loop_step os invoke c = Some c'" "lp_pc (looper c') \<noteq> LWait"
      "settled (lp_pc (looper c')) \<or> (\<exists>e. lp_pc (looper c') = LThrown e) \<or> (to_go (looper c'), to_go (looper c)) \<in> to_go_rel"
      by (rule settle_step [OF "1.prems"(1,2) False "1.prems"(3)])
    have inv: "conc_inv infl signalled c'" using loop_inv [OF jobs c'(1) "1.prems"(1)] False by (simp add: settled_def)
    have fr: "stop_src c' = stop_src c" "posters c' = posters c" "pushed_jobs c' = pushed_jobs c" using loop_step_frame [OF c'(1)] by auto
    have out: "clients_out c'" using loop_mutex [OF c'(1)] "1.prems"(1,2) by (simp add: clients_out_def conc_inv_def coherent_def)
    show ?thesis
    proof (cases "settled (lp_pc (looper c'))")
      case True
      then show ?thesis using leads_one [OF c'(1)] inv out fr by blast
    next
      case False
      then have "(to_go (looper c'), to_go (looper c)) \<in> to_go_rel" using c'(3) inv by (auto simp: conc_inv_def)
      then have "(c', c) \<in> inv_image to_go_rel (\<lambda>c. to_go (looper c))" by (simp add: in_inv_image)
      from "1.IH" [OF this inv out c'(2)] show ?thesis using leads_step [OF c'(1)] fr by metis
    qed
  qed (use "1.prems" leads_refl in blast)
qed

end


section \<open>A requested stop\<close>

context waking_kernel
begin

text \<open>A turn of a blocked thread after a write to the eventfd: it wakes up, or will do so sooner.\<close>

lemma poll_wakes:
  assumes inv: "conc_inv infl signalled c" and pc: "lp_pc (looper c) = LWait"
    and e: "cq_head (ring (sys c)) = cq_tail (ring (sys c))" and sig: "signalled (kst (sys c)) \<or> wake_ready (sys c)"
  shows "cq_head (ring (io_uring_enter os 0 1 (sys c))) \<noteq> cq_tail (ring (io_uring_enter os 0 1 (sys c)))
    \<or> latency (kst (io_uring_enter os 0 1 (sys c))) < latency (kst (sys c))"
proof -
  let ?s = "sys c" and ?s' = "io_uring_enter os 0 1 (sys c)"
  have safe: "safe infl ?s" using inv by (simp add: conc_inv_def)
  have ready: "cq_ready (ring ?s) = []" using e by (simp add: cq_ready_def cq_len_def)
  have "sq_pending (ring ?s) = []" using inv pc by (simp add: conc_inv_def cursor_ok_def sq_pending_def sq_len_def)
  then have "count (infl (kst ?s)) EventfdBuf = 1"
    using inv pc ready by (simp add: conc_inv_def reads_out_def live_q_def sq_uds_def)
  then have "EventfdBuf \<in># infl (kst ?s) + mset (map sqe_user_data [])" by (simp flip: count_greater_zero_iff)
  moreover obtain resp k' where en: "os_enter os [] 1 (unat (cq_entries (ring ?s)) - cq_len (ring ?s)) (kst ?s) = (resp, k')" by fastforce
  moreover have "signalled (kst ?s)" using sig ready by (simp add: wake_ready_def)
  ultimately have w: "EventfdBuf \<in> cqe_user_data ` set (er_cqes resp) \<or> latency k' < latency (kst ?s)"
    using enter_wakes [OF en cq_room [OF safe ready]] by blast
  have k: "kst ?s' = k'" using en by (simp add: io_uring_enter_def)
  have ok: "cq_ok (ring ?s)" using safe sched_inv_calm by (fastforce simp: safe_def calm_def ring_ok_def)
  have "length (er_cqes resp) \<le> unat (cq_entries (ring ?s)) - cq_len (ring ?s)" by (rule enter_room [OF en])
  then have "cq_len (ring ?s) + length (er_cqes resp) \<le> unat (cq_entries (ring ?s))" using ok unfolding cq_ok_def by linarith
  then have "cq_ready (ring ?s') = er_cqes resp"
    using cq_post_all [of "consume_sq (er_taken resp) (ring ?s)"] ok ready en by (simp add: io_uring_enter_def)
  then show ?thesis using w k by (auto simp: cq_ready_def cq_len_def)
qed

lemma stop_leads:
  assumes jobs: "jobs_ok infl invoke" "jobs_wake signalled invoke"
    and "conc_inv infl signalled c" "clients_out c" "stop_src c = Written"
  shows "\<exists>c'. leads os invoke c c' \<and> lp_pc (looper c') = LStopped"
proof -
  have away: "\<exists>c'. leads os invoke c c' \<and> lp_pc (looper c') = LStopped"
    if c: "conc_inv infl signalled c" "clients_out c" "stop_src c = Written" "lp_pc (looper c) \<noteq> LWait" for c
  proof -
    obtain c1 where c1: "leads os invoke c c1" "settled (lp_pc (looper c1))" "stop_src c1 = Written"
      using settles [OF jobs c(1,2,4)] c(3) by auto
    have "\<exists>c'. leads os invoke c1 c' \<and> lp_pc (looper c') = LStopped"
    proof (cases "lp_pc (looper c1) = LTop")
      case True
      then have "loop_step os invoke c1 = Some (loop_goto LStopped c1)" using c1(3) by (simp add: loop_step_def step_top_def Let_def)
      then show ?thesis using leads_one by fastforce
    qed (use c1(2) leads_refl settled_def in metis)
    then show ?thesis using leads_trans [OF c1(1)] by blast
  qed
  have "\<exists>c'. leads os invoke c c' \<and> lp_pc (looper c') = LStopped"
    if "conc_inv infl signalled c" "clients_out c" "stop_src c = Written" "lp_pc (looper c) = LWait" for c
    using that
  proof (induction "latency (kst (sys c))" arbitrary: c rule: less_induct)
    case less
    have st: "loop_step os invoke c = Some (step_wait os c)" using less.prems(4) by (simp add: loop_step_def Let_def)
    have inv: "conc_inv infl signalled (step_wait os c)" using loop_inv [OF jobs st less.prems(1)] less.prems(4) by simp
    have out: "clients_out (step_wait os c)" "stop_src (step_wait os c) = Written"
      using less.prems by (simp_all add: clients_out_def step_wait_def)
    show ?case
    proof (cases "lp_pc (looper (step_wait os c)) = LWait")
      case True
      then have e: "cq_head (ring (sys c)) = cq_tail (ring (sys c))" by (auto simp: step_wait_def split: if_splits)
      have sig: "signalled (kst (sys c)) \<or> wake_ready (sys c)" using less.prems by (simp add: conc_inv_def)
      let ?c1 = "step_wait os c"
      have s1: "sys ?c1 = io_uring_enter os 0 1 (sys c)" using e by (simp add: step_wait_def)
      show ?thesis
      proof (cases "latency (kst (sys ?c1)) < latency (kst (sys c))")
        case lat: True
        from less.hyps [OF lat inv out True] show ?thesis using leads_step [OF st] by blast
      next
        case False
        then have ne: "cq_head (ring (sys ?c1)) \<noteq> cq_tail (ring (sys ?c1))"
          using poll_wakes [OF less.prems(1,4) e sig] s1 by simp
        have st2: "loop_step os invoke ?c1 = Some (load_cq ?c1)" using ne True by (simp add: loop_step_def step_wait_def Let_def)
        have "conc_inv infl signalled (load_cq ?c1)" using loop_inv [OF jobs st2 inv] True by simp
        from away [OF this] out show ?thesis using leads_step [OF st] leads_step [OF st2] by (fastforce simp: clients_out_def)
      qed
    next
      case False
      then show ?thesis using away [OF inv out False] leads_step [OF st] by blast
    qed
  qed
  then show ?thesis using away assms(3-) by blast
qed

end


text \<open>
  The thread that holds the mutex, and the turns it needs to release it: a push or a swap, and the
  end of the critical section. No other thread can take them away from it.
\<close>

fun actor_of :: "holder \<Rightarrow> actor" where
  "actor_of (HClient i) = Client i"
| "actor_of HLoop = Loop"

fun to_release :: "holder \<Rightarrow> ('j, 'k) conc \<Rightarrow> nat" where
  "to_release (HClient i) c = (if cl_pc (posters c ! i) = CLocked then 2 else 1)"
| "to_release HLoop c = (case lp_pc (looper c) of LSwap \<Rightarrow> 2 | LRetryPush j \<Rightarrow> 2 | _ \<Rightarrow> 1)"

lemma to_release_bounds: "0 < to_release h c" "to_release h c \<le> 2"
  by (cases h; auto split: loop_pc.split)+

lemma holder_step:
  assumes "coherent c" "inbox_mutex c = Some h"
  shows "\<exists>c'. conc_step os invoke (actor_of h) c = Some c'
    \<and> (inbox_mutex c' = None \<or> inbox_mutex c' = Some h \<and> to_release h c' < to_release h c)"
proof (cases h)
  case (HClient i)
  then have "i < length (posters c)" "client_critical (cl_pc (posters c ! i))" using assms by (auto simp: coherent_def)
  then show ?thesis
    using HClient assms(2) by (cases "cl_pc (posters c ! i)") (simp_all add: client_step_def poster_goto_def Let_def)
next
  case HLoop
  then have "loop_critical (lp_pc (looper c))" using assms by (auto simp: coherent_def)
  then show ?thesis using HLoop assms(2) by (cases "lp_pc (looper c)") (simp_all add: loop_step_def Let_def)
qed

lemma other_step:
  assumes "coherent c" "inbox_mutex c = Some h" "a \<noteq> actor_of h" "conc_step os invoke a c = Some c'"
  shows "inbox_mutex c' = Some h \<and> to_release h c' = to_release h c"
proof (cases a)
  case (Client i)
  have "i < length (posters c)" "cl_pc (posters c ! i) \<noteq> CIdle" "h \<noteq> HClient i"
    using assms(2-4) Client by (auto simp: client_step_def Let_def split: if_splits)
  moreover have "\<not> client_critical (cl_pc (posters c ! i))" using assms(1,2) calculation by (auto simp: coherent_def)
  ultimately show ?thesis
    using assms(2,4) Client
    by (cases h; cases "cl_pc (posters c ! i)") (auto simp: client_step_def poster_goto_def nth_list_update split: prod.splits if_splits)
next
  case Loop
  then have "h \<noteq> HLoop" using assms(3) by auto
  then show ?thesis
    using loop_mutex [of os invoke c c'] loop_step_frame [of os invoke c c'] assms Loop by (cases h) (auto simp: coherent_def)
next
  case Stop
  then show ?thesis using assms(2,4) by (cases h) (auto simp: stop_step_def split: stopper.splits)
next
  case Signal
  then have "lp_pc (looper c) = LWait" "c' = load_cq c" using assms(4) by (auto simp: signal_step_def split: if_splits)
  moreover have "h \<noteq> HLoop" using calculation(1) assms(1,2) by (auto simp: coherent_def)
  ultimately show ?thesis using assms(2) by (cases h) simp_all
qed

lemma mutex_frees:
  assumes "coherent c" "inbox_mutex c = Some h" "to_release h c \<le> count_list as (actor_of h)"
  shows "\<exists>bs cs. as = bs @ cs \<and> inbox_mutex (conc_run os invoke bs c) = None"
  using assms
proof (induction as arbitrary: c)
  case Nil
  then show ?case using to_release_bounds(1) [of h c] by simp
next
  case (Cons a as)
  have lift: ?case if "\<exists>bs cs. as = bs @ cs \<and> inbox_mutex (conc_run os invoke bs c') = None"
    "c' = (case conc_step os invoke a c of None \<Rightarrow> c | Some c' \<Rightarrow> c')" for c'
    using that by (metis append_Cons conc_run.simps(2))
  show ?case
  proof (cases "a = actor_of h")
    case True
    obtain c' where c': "conc_step os invoke a c = Some c'" "inbox_mutex c' = None \<or> inbox_mutex c' = Some h \<and> to_release h c' < to_release h c"
      using holder_step [OF Cons.prems(1,2)] True by blast
    have co: "coherent c'" using coherent_step [OF c'(1) Cons.prems(1)] .
    show ?thesis
    proof (rule lift [of c'])
      show "\<exists>bs cs. as = bs @ cs \<and> inbox_mutex (conc_run os invoke bs c') = None"
      proof (cases "inbox_mutex c' = None")
        case True
        then show ?thesis by (intro exI [of _ "[]"] exI [of _ as]) simp
      next
        case False
        then have "inbox_mutex c' = Some h" "to_release h c' < to_release h c" using c'(2) by auto
        then show ?thesis using Cons.IH [OF co] Cons.prems(3) \<open>a = actor_of h\<close> by simp
      qed
    qed (simp add: c'(1))
  next
    case False
    show ?thesis
    proof (cases "conc_step os invoke a c")
      case None
      have "to_release h c \<le> count_list as (actor_of h)" using Cons.prems(3) False by simp
      from Cons.IH [OF Cons.prems(1,2) this] show ?thesis by (rule lift) (simp add: None)
    next
      case (Some c')
      have "inbox_mutex c' = Some h" "to_release h c' = to_release h c" using other_step [OF Cons.prems(1,2) False Some] by simp_all
      then have "\<exists>bs cs. as = bs @ cs \<and> inbox_mutex (conc_run os invoke bs c') = None"
        using Cons.IH [OF coherent_step [OF Some Cons.prems(1)]] Cons.prems(3) False by simp
      then show ?thesis by (rule lift) (simp add: Some)
    qed
  qed
qed

lemma creach_coherent: "creach os invoke c0 ok c \<Longrightarrow> coherent c0 \<Longrightarrow> coherent c"
  by (induction rule: creach.induct) (auto intro: coherent_step)

lemma creach_step:
  assumes "creach os invoke c0 ok c" "slot_for_read a c"
  shows "creach os invoke c0 ok (conc_run os invoke [a] c)"
  using assms creach.step [OF assms(1), of a] by (auto split: option.split)

lemma creach_others: "creach os invoke c0 ok c \<Longrightarrow> Loop \<notin> set as \<Longrightarrow> creach os invoke c0 ok (conc_run os invoke as c)"
proof (induction as arbitrary: c)
  case (Cons a as)
  have "creach os invoke c0 ok (conc_run os invoke [a] c)"
    using Cons.prems by (intro creach_step) (auto simp: slot_for_read_def)
  from Cons.IH [OF this] Cons.prems(2) show ?case by (simp split: option.splits)
qed simp

section \<open>Properties\<close>

text \<open>
  C7: No wake-up is lost between the statements. In every state reached by statements of the clients,
  of the thread in \<open>run\<close> and of the one that requests a stop, in any order, two threads are never in
  critical sections of \<open>inbox_mutex_\<close> together and the mutex is held by the one that is. And as long as
  no \<open>drain\<close> was entered with the eventfd read unarmed and the ring full, with posted callables that
  keep the invariant of the scheduler, throw nothing but I/O errors, leave the eventfd read alone and
  signal the eventfd when they add to the inbox (as those do that spawn a body whose first operation
  has no deadline), nothing undefined has happened, the awaitable of every
  operation outstanding is alive, and a non-empty inbox has its wake-up on the way: a signalled eventfd,
  the completion of its read not yet used, or a thread between its push and its write.
\<close>

theorem interleaved_no_lost_wakeup:
  assumes "eventfd_kernel os infl signalled" "jobs_ok infl invoke" "jobs_wake signalled invoke"
    and "Scheduler_ctor os r k = Inr s0" "ring_ok r" "sq_pending r = []" "cq_ready r = []" "infl k = {#}"
    and "creach os invoke (conc_start jss s0) ok c"
  shows "(\<forall>i. inbox_mutex c = Some (HClient i) \<longleftrightarrow> i < length (posters c) \<and> client_critical (cl_pc (posters c ! i)))
    \<and> (inbox_mutex c = Some HLoop \<longleftrightarrow> loop_critical (lp_pc (looper c)))
    \<and> (ok \<longrightarrow> ub_flag (sys c) = None
        \<and> (\<forall>a. AwPtr a \<in># sq_uds (ring (sys c)) + live_q infl (sys c) \<longrightarrow> aw_alive (sys c) a)
        \<and> (inbox (sys c) = [] \<or> wake_due signalled c))"
proof -
  have co: "coherent c" using creach_coherent [OF assms(9) coherent_start] .
  have "ub_flag (sys c) = None \<and> (\<forall>a. AwPtr a \<in># sq_uds (ring (sys c)) + live_q infl (sys c) \<longrightarrow> aw_alive (sys c) a)
      \<and> (inbox (sys c) = [] \<or> wake_due signalled c)" if ok
  proof -
    have "conc_inv infl signalled c"
      by (rule eventfd_kernel.creach_inv [OF assms(1-3,9) eventfd_kernel.start_inv [OF assms(1,4-8)] that])
    then have i: "safe infl (sys c)" "inbox (sys c) = [] \<or> wake_due signalled c" by (auto simp: conc_inv_def)
    have "ub_flag (sys c) = None" using i(1) sched_inv_calm by (fastforce simp: safe_def calm_def)
    then show ?thesis using i safe_alive [OF i(1)] by simp
  qed
  then show ?thesis using co by (simp add: coherent_def)
qed

theorem interleaved_no_lost_wakeup_witness:
  "let c = conc_run sim_os recv_jobs [Client 0, Client 1, Client 0, Client 0, Stop] (conc_start [[7], [8]] (sched_on 1)) in
   inbox (sys c) = [7] \<and> ks_count (kst (sys c)) = 0 \<and> inbox_mutex c = None \<and> wake_due (\<lambda>k. 0 < ks_count k) c"
proof -
  let ?c = "conc_run sim_os recv_jobs [Client 0, Client 1, Client 0, Client 0, Stop] (conc_start [[7], [8]] (sched_on 1))"
  have r: "creach sim_os recv_jobs (conc_start [[7], [8]] (sched_on 1)) True ?c" by (rule creach_others [OF creach.start]) simp
  have jobs: "jobs_ok sim_uds recv_jobs" "jobs_wake (\<lambda>k. 0 < ks_count k) recv_jobs"
    unfolding recv_jobs_def by (rule spawn_jobs_ok spawn_jobs_wake; simp add: recv_body_def)+
  have "inbox (sys ?c) = [] \<or> wake_due (\<lambda>k. 0 < ks_count k) ?c"
    using interleaved_no_lost_wakeup [OF sim.eventfd_kernel_axioms jobs sched_on _ _ _ _ r] ring_ok_fresh [of 1] by simp
  moreover have "inbox (sys ?c) = [7] \<and> ks_count (kst (sys ?c)) = 0 \<and> inbox_mutex ?c = None"
    by (simp add: conc_start_def client_step_def poster_goto_def stop_step_def Let_def sched_on_def Scheduler_ctor_def sim_os_def sim0_def)
  ultimately show ?thesis by (simp only: Let_def) auto
qed

text \<open>
  C9: The mutex is never kept. In every state reached by statements of the threads, in any order and also
  beyond the limits of the property before, a thread that holds \<open>inbox_mutex_\<close> is never blocked: whatever the other
  threads do in between, once the holder has had two turns it has released the mutex. So no thread
  waits for it forever, and there is no deadlock.
\<close>

theorem mutex_released:
  assumes "creach os invoke (conc_start jss s0) ok c" "inbox_mutex c = Some h" "2 \<le> count_list as (actor_of h)"
  shows "\<exists>bs cs. as = bs @ cs \<and> inbox_mutex (conc_run os invoke bs c) = None"
  by (rule mutex_frees [OF creach_coherent [OF assms(1) coherent_start] assms(2) order_trans [OF to_release_bounds(2) assms(3)]])

theorem mutex_released_witness:
  "let c = conc_run sim_os recv_jobs [Client 0] (conc_start [[7], [8]] (sched_on 1)) in
   inbox_mutex c = Some (HClient 0)
   \<and> (\<exists>bs cs. [Client 1, Client 0, Loop, Client 0, Client 1] = bs @ cs \<and> inbox_mutex (conc_run sim_os recv_jobs bs c) = None)"
proof -
  let ?c = "conc_run sim_os recv_jobs [Client 0] (conc_start [[7], [8]] (sched_on 1))"
  have r: "creach sim_os recv_jobs (conc_start [[7], [8]] (sched_on 1)) True ?c" by (rule creach_others [OF creach.start]) simp
  have m: "inbox_mutex ?c = Some (HClient 0)" by (simp add: conc_start_def client_step_def poster_goto_def)
  show ?thesis
    using mutex_released [OF r m, of "[Client 1, Client 0, Loop, Client 0, Client 1]"] m by (simp add: Let_def del: conc_run.simps)
qed

text \<open>
  C8: A requested stop is seen. In a state within the same limits, when \<open>request_stop\<close> has set the flag
  and run the stop callback, and no client is in its critical section, finitely many turns of the
  thread in \<open>run\<close> take it out of its loop, wherever it was: also out of the system call it may have
  been blocked in, whose only way back is the write of the callback.
\<close>

theorem stop_wakes_loop:
  assumes "waking_kernel os infl signalled latency" "jobs_ok infl invoke" "jobs_wake signalled invoke"
    and "Scheduler_ctor os r k = Inr s0" "ring_ok r" "sq_pending r = []" "cq_ready r = []" "infl k = {#}"
    and "creach os invoke (conc_start jss s0) True c" "stop_src c = Written" "\<forall>i. inbox_mutex c \<noteq> Some (HClient i)"
  shows "\<exists>n. lp_pc (looper (conc_run os invoke (replicate n Loop) c)) = LStopped"
proof -
  from assms(1) have e: "eventfd_kernel os infl signalled" by (simp add: waking_kernel_def)
  have "conc_inv infl signalled c"
    by (rule eventfd_kernel.creach_inv [OF e assms(2,3,9) eventfd_kernel.start_inv [OF e assms(4-8)] TrueI])
  moreover have "clients_out c" using assms(11) by (simp add: clients_out_def)
  ultimately show ?thesis using waking_kernel.stop_leads [OF assms(1-3) _ _ assms(10)] by (auto simp: leads_def)
qed

theorem stop_wakes_loop_witness:
  "\<exists>n. lp_pc (looper (conc_run prompt_os (spawn_jobs prompt_os (\<lambda>j. recv_body)) ([Loop, Stop, Stop] @ replicate n Loop)
     (conc_start [[7]] (prompt_on 8)))) = LStopped"
proof -
  let ?inv = "spawn_jobs prompt_os (\<lambda>j :: nat. recv_body)" and ?s = "conc_start [[7]] (prompt_on 8)"
  have jobs: "jobs_ok sim_uds ?inv" "jobs_wake (\<lambda>k. 0 < ks_count k) ?inv"
    unfolding spawn_jobs_def by (rule spawn_jobs_ok spawn_jobs_wake; simp add: recv_body_def reply_os_def sim_os_def)+
  have r: "ring_ok (fresh_ring 8)" "sq_pending (fresh_ring 8) = []" "cq_ready (fresh_ring 8) = []" by (rule ring_ok_fresh; simp)+
  have "has_capacity (ring (prompt_on 8)) 1"
    using has_capacity_1 [of "fresh_ring 8"] r
    by (simp add: prompt_on_def Scheduler_ctor_def reply_os_def sim_os_def ring_ok_def flip: length_sq_pending)
  then have "creach prompt_os ?inv ?s True (conc_run prompt_os ?inv [Loop] ?s)"
    by (intro creach_step creach.start) (simp add: slot_for_read_def conc_start_def)
  from creach_others [OF this, of "[Stop, Stop]"]
  have c: "creach prompt_os ?inv ?s True (conc_run prompt_os ?inv [Loop, Stop, Stop] ?s)" by simp
  have st: "stop_src (conc_run prompt_os ?inv [Loop, Stop, Stop] ?s) = Written"
    "\<forall>i. inbox_mutex (conc_run prompt_os ?inv [Loop, Stop, Stop] ?s) \<noteq> Some (HClient i)"
    by (simp_all add: conc_start_def loop_step_def stop_step_def top_fields)
  from stop_wakes_loop [OF reply.waking_kernel_axioms [of "\<lambda>e. 5"] jobs prompt_on r sim0_uds c st] show ?thesis by simp
qed

text \<open>
  C10: Statements taken together are the calls. With the mutex free, four uninterrupted turns of a client
  do what \<open>post\<close> does, exception included. Uninterrupted turns of the thread at the head of its loop do
  what a \<open>drain\<close> followed by a \<open>reap\<close> does, and end where the next test of the stop token is, or with the
  exception that left \<open>drain\<close>; when the kernel has no completion, the thread is blocked in the state
  that \<open>drain\<close> would process.
\<close>

theorem statements_refine_calls:
  assumes "inbox_mutex c = None"
  shows "(i < length (posters c) \<and> posters c ! i = \<lparr>cl_pc = CIdle, cl_jobs = j # js\<rparr> \<and> post os j (sys c) = (e, s') \<longrightarrow>
      conc_run os invoke (replicate 4 (Client i)) c = c\<lparr>sys := s', pushed_jobs := pushed_jobs c @ [j],
        posters := (posters c)[i := \<lparr>cl_pc = if e = None then CIdle else CThrown, cl_jobs = js\<rparr>]\<rparr>)
    \<and> (lp_pc (looper c) = LTop \<and> lp_local (looper c) = [] \<and> stop_src c = NotRequested \<and> drain os invoke (sys c) = (e', s'') \<longrightarrow>
      (if blocked (submit_staged os (sys c))
       then conc_run os invoke [Loop] c = loop_goto LWait (c\<lparr>sys := submit_staged os (sys c)\<rparr>) \<and> e' = None \<and> s'' = submit_staged os (sys c)
       else \<exists>n l. conc_run os invoke (replicate n Loop) c = c\<lparr>sys := if e' = None then reap s'' else s'', looper := l\<rparr>
         \<and> lp_pc l = (case e' of None \<Rightarrow> LTop | Some x \<Rightarrow> LThrown x)))"
proof (intro conjI impI)
  assume "i < length (posters c) \<and> posters c ! i = \<lparr>cl_pc = CIdle, cl_jobs = j # js\<rparr> \<and> post os j (sys c) = (e, s')"
  then show "conc_run os invoke (replicate 4 (Client i)) c = c\<lparr>sys := s', pushed_jobs := pushed_jobs c @ [j],
        posters := (posters c)[i := \<lparr>cl_pc = if e = None then CIdle else CThrown, cl_jobs = js\<rparr>]\<rparr>"
    by (intro post_turns assms) simp_all
next
  assume a: "lp_pc (looper c) = LTop \<and> lp_local (looper c) = [] \<and> stop_src c = NotRequested \<and> drain os invoke (sys c) = (e', s'')"
  let ?s1 = "submit_staged os (sys c)"
  show "if blocked ?s1
       then conc_run os invoke [Loop] c = loop_goto LWait (c\<lparr>sys := ?s1\<rparr>) \<and> e' = None \<and> s'' = ?s1
       else \<exists>n l. conc_run os invoke (replicate n Loop) c = c\<lparr>sys := if e' = None then reap s'' else s'', looper := l\<rparr>
         \<and> lp_pc l = (case e' of None \<Rightarrow> LTop | Some x \<Rightarrow> LThrown x)"
  proof (cases "blocked ?s1")
    case True
    then have "e' = None" "s'' = ?s1" using a by (simp_all add: drain_submit Let_def blocked_def drain_cqes.simps)
    then show ?thesis using blocked_leads [of c os invoke] a True by simp
  next
    case False
    have "thread_round os invoke (sys c) = (e', if e' = None then reap s'' else s'')"
      using a by (simp add: thread_round_def split: option.split)
    from round_leads [OF _ assms _ _ this False] a obtain l where
      "leads os invoke c (c\<lparr>sys := if e' = None then reap s'' else s'', looper := l\<rparr>)" "lp_pc l = after e' LTop" by blast
    then show ?thesis using False unfolding leads_def after_def by (simp only: if_False) blast
  qed
qed

theorem statements_refine_calls_witness:
  "sys (conc_run prompt_os (spawn_jobs prompt_os (\<lambda>j. recv_body)) (replicate 4 (Client 0)) (conc_start [[7]] (prompt_on 8)))
     = snd (post prompt_os 7 (prompt_on 8))"
proof -
  obtain e s' where p: "post prompt_os 7 (prompt_on 8) = (e, s')" by fastforce
  show ?thesis
    using statements_refine_calls [of "conc_start [[7]] (prompt_on 8)" 0 7 "[]" prompt_os e s' "spawn_jobs prompt_os (\<lambda>j. recv_body)"] p
    by (simp add: conc_start_def)
qed

end
