(* ===== verification/Interleaved_Work.thy ===== *)
theory Interleaved_Work
  imports Interleaving
begin

text \<open>
  Work posted by client threads is done, whatever the interleaving of their statements with those of
  the thread in \<open>run\<close>. The result for whole calls (\<open>Posting\<close>) is carried over: turns of the loop alone
  lead from any reachable state to the head of the loop or to the blocking call, and from there they
  follow the rounds of \<open>run_schedule\<close>.
\<close>

section \<open>Work in progress\<close>

definition unstarted :: "('j, 'k) conc \<Rightarrow> 'j list" where
  "unstarted c = lp_local (looper c) @ inbox (sys c)"

definition to_post :: "('j, 'k) conc \<Rightarrow> nat" where
  "to_post c = sum_list (map (\<lambda>p. length (cl_jobs p)) (posters c))"

text \<open>Every client has returned from its last \<open>post\<close>.\<close>

definition all_posted :: "('j, 'k) conc \<Rightarrow> bool" where
  "all_posted c \<longleftrightarrow> (\<forall>p \<in> set (posters c). cl_pc p = CIdle \<and> cl_jobs p = [])"

fun retrying :: "'j loop_pc \<Rightarrow> bool" where
  "retrying (LRetryLock j) = True"
| "retrying (LRetryPush j) = True"
| "retrying LRetryUnlock = True"
| "retrying LRetryWrite = True"
| "retrying p = False"

text \<open>What the clients have pushed is an interleaving of their posts, in the order of each of them.\<close>

definition history :: "'j list list \<Rightarrow> ('j, 'k) conc \<Rightarrow> bool" where
  "history jss c \<longleftrightarrow> (\<exists>ps. interleaves ps (pushed_jobs c) \<and> length ps = length (posters c) \<and> length jss = length (posters c)
     \<and> (\<forall>i < length (posters c). ps ! i @ cl_jobs (posters c ! i) = jss ! i))"

lemma history_start: "history jss (conc_start jss s)"
  unfolding history_def
  by (rule exI [of _ "replicate (length jss) []"]) (simp add: conc_start_def interleaves.none)

lemma history_goto: "history jss (poster_goto i p c) = history jss c"
proof -
  have "cl_jobs ((posters c)[i := (posters c ! i)\<lparr>cl_pc := p\<rparr>] ! k) = cl_jobs (posters c ! k)" if "k < length (posters c)" for k
    using that by (cases "k = i") simp_all
  then show ?thesis by (simp add: history_def poster_goto_def)
qed

lemma history_step:
  assumes st: "conc_step os invoke a c = Some c'" and h: "history jss c" and co: "coherent c"
  shows "history jss c'"
proof (cases a)
  case (Client i)
  then have "client_step os i c = Some c'" using st by simp
  then show ?thesis
  proof (cases rule: client_stepE)
    case (push j js)
    obtain ps where ps: "interleaves ps (pushed_jobs c)" "length ps = length (posters c)" "length jss = length (posters c)"
      "\<forall>k < length (posters c). ps ! k @ cl_jobs (posters c ! k) = jss ! k" using h by (auto simp: history_def)
    have "cl_jobs (posters c ! i) = j # js" using co push by (auto simp: coherent_def)
    then have "ps[i := ps ! i @ [j]] ! k @ cl_jobs (posters c' ! k) = jss ! k" if "k < length (posters c)" for k
      using ps(2,4) push that by (cases "k = i") auto
    moreover have "interleaves (ps[i := ps ! i @ [j]]) (pushed_jobs c')" using interleaves.one [OF ps(1)] push(1,5) ps(2) by simp
    ultimately show ?thesis using ps(2,3) push(5) unfolding history_def by (intro exI [of _ "ps[i := ps ! i @ [j]]"]) simp
  next
    case lock
    have "history jss (c\<lparr>inbox_mutex := Some (HClient i)\<rparr>)" using h by (simp add: history_def)
    then show ?thesis using history_goto lock by metis
  next
    case unlock
    have "history jss (c\<lparr>inbox_mutex := None\<rparr>)" using h by (simp add: history_def)
    then show ?thesis using history_goto unlock by metis
  next
    case (signal ok s')
    have "history jss (c\<lparr>sys := s'\<rparr>)" using h by (simp add: history_def)
    then show ?thesis using history_goto signal by metis
  qed
next
  case Loop
  then show ?thesis using st loop_step_frame [of os invoke c c'] h by (simp add: history_def)
qed (use st h in \<open>auto simp: history_def stop_step_def signal_step_def split: stopper.splits if_splits\<close>)

lemma reap_idle: "\<forall>t \<in> set (tasks s). \<not> Task_done s t \<Longrightarrow> reap s = s"
  by (simp add: reap_def filter_empty_conv)

context waking_bed
begin

text \<open>
  The tasks started are those of the first jobs pushed, the others are in the inbox or taken from it.
  There is room in the submission ring for all of them and for every resumption to come.
\<close>

definition working :: "('j \<Rightarrow> co) \<Rightarrow> u32 \<Rightarrow> ('j, 'k) conc \<Rightarrow> bool" where
  "working prog n c \<longleftrightarrow> stop_src c = NotRequested \<and> \<not> shutting_down (sys c) \<and> \<not> retrying (lp_pc (looper c)) \<and> lp_pc (looper c) \<noteq> LStopped
     \<and> sq_entries (ring (sys c)) = n \<and> 2 * (length (pushed_jobs c) + to_post c) < unat n
     \<and> sq_len (ring (sys c)) + 2 * ops_in (cq_ready (ring (sys c))) + 2 * length (unstarted c) \<le> 2 * length (pushed_jobs c)
     \<and> length (tasks (sys c)) + length (unstarted c) \<le> length (pushed_jobs c)
     \<and> (lp_pc (looper c) = LTop \<or> lp_pc (looper c) = LWait \<longrightarrow> (\<forall>t \<in> set (tasks (sys c)). \<not> Task_done (sys c) t))
     \<and> (\<exists>ts. conf allowed sent (sys c) ts \<and> map th_body ts @ map prog (unstarted c) = map prog (pushed_jobs c))"

lemma conf_flags:
  assumes "conf allowed sent s ts" "sent k \<subseteq> sent (kst s)"
  shows "conf allowed sent (s\<lparr>inbox := b, eventfd_armed := a, kst := k\<rparr>) ts"
  by (rule conf_keep [OF assms(1)]) (use assms(2) in \<open>auto intro!: undisturbed_flow simp: known_def\<close>)

text \<open>Steps that touch the inbox, the flag and the eventfd only.\<close>

lemma carry:
  assumes w: "working prog n c" and s: "sys c' = (sys c)\<lparr>inbox := b, eventfd_armed := a, kst := k\<rparr>" "sent k \<subseteq> sent (kst (sys c))"
    and c: "stop_src c' = stop_src c" "unstarted c' = unstarted c" "pushed_jobs c' = pushed_jobs c" "to_post c' = to_post c"
    and pc: "\<not> retrying (lp_pc (looper c'))" "lp_pc (looper c') \<noteq> LStopped"
      "lp_pc (looper c') = LTop \<or> lp_pc (looper c') = LWait \<longrightarrow> lp_pc (looper c') = lp_pc (looper c)"
  shows "working prog n c'"
proof -
  obtain ts where ts: "conf allowed sent (sys c) ts" "map th_body ts @ map prog (unstarted c) = map prog (pushed_jobs c)"
    using w by (auto simp: working_def)
  have "conf allowed sent (sys c') ts" unfolding s(1) by (rule conf_flags [OF ts(1) s(2)])
  then have "\<exists>ts. conf allowed sent (sys c') ts \<and> map th_body ts @ map prog (unstarted c') = map prog (pushed_jobs c')"
    using ts(2) c by metis
  moreover have "Task_done (sys c') t = Task_done (sys c) t" for t by (simp add: s(1) Task_done_def frame_done_def split: option.split)
  moreover have "ring (sys c') = ring (sys c)" "tasks (sys c') = tasks (sys c)" "shutting_down (sys c') = shutting_down (sys c)"
    by (simp_all add: s(1))
  ultimately show ?thesis using w c pc unfolding working_def by metis
qed

lemma to_post_flags [simp]: "to_post (c\<lparr>inbox_mutex := m\<rparr>) = to_post c" "to_post (c\<lparr>sys := s\<rparr>) = to_post c"
  by (simp_all add: to_post_def)

lemma to_post_goto: "to_post (poster_goto i p c) = to_post c"
proof (cases "i < length (posters c)")
  case True
  have "map (\<lambda>p. length (cl_jobs p)) ((posters c)[i := (posters c ! i)\<lparr>cl_pc := p\<rparr>]) = map (\<lambda>p. length (cl_jobs p)) (posters c)"
    using True by (simp add: map_update list_update_same_conv)
  then show ?thesis by (simp add: to_post_def poster_goto_def)
qed (simp add: to_post_def poster_goto_def list_update_beyond)

lemma goto_fields [simp]:
  "sys (poster_goto i p c) = sys c" "stop_src (poster_goto i p c) = stop_src c" "pushed_jobs (poster_goto i p c) = pushed_jobs c"
  "looper (poster_goto i p c) = looper c" "unstarted (poster_goto i p c) = unstarted c"
  by (simp_all add: poster_goto_def unstarted_def)

lemma client_working:
  assumes st: "client_step os i c = Some c'" and w: "working prog n c" and co: "coherent c"
  shows "working prog n c'"
  using st
proof (cases rule: client_stepE)
  case lock
  show ?thesis
    by (rule carry [OF w, where b = "inbox (sys c)" and a = "eventfd_armed (sys c)" and k = "kst (sys c)"])
      (use w in \<open>simp_all add: lock(5) to_post_goto unstarted_def working_def\<close>)
next
  case (push j js)
  let ?s = "(sys c)\<lparr>inbox := inbox (sys c) @ [j]\<rparr>"
  have jobs: "cl_jobs (posters c ! i) = j # js" using co push by (auto simp: coherent_def)
  have "map (\<lambda>p. length (cl_jobs p)) (posters c') = (map (\<lambda>p. length (cl_jobs p)) (posters c))[i := length js]"
    using push(5) by (simp add: map_update)
  then have post: "to_post c = Suc (to_post c')"
    using push(1) jobs elem_le_sum_list [of i "map (\<lambda>p. length (cl_jobs p)) (posters c)"]
    by (simp add: to_post_def sum_list_update)
  have un: "unstarted c' = unstarted c @ [j]" by (simp add: push(5) unstarted_def)
  have "Task_done ?s t = Task_done (sys c) t" for t by (simp add: Task_done_def frame_done_def split: option.split)
  moreover have "conf allowed sent ?s ts" if "conf allowed sent (sys c) ts" for ts
    using conf_flags [OF that, where k = "kst (sys c)" and b = "inbox (sys c) @ [j]" and a = "eventfd_armed (sys c)"] by simp
  ultimately show ?thesis using w post un push(5) by (auto simp: working_def)
next
  case unlock
  show ?thesis
    by (rule carry [OF w, where b = "inbox (sys c)" and a = "eventfd_armed (sys c)" and k = "kst (sys c)"])
      (use w in \<open>simp_all add: unlock(3) to_post_goto unstarted_def working_def\<close>)
next
  case (signal ok s')
  obtain k' where k': "os_write os (eventfd (sys c)) (kst (sys c)) = (ok, k')" "s' = (sys c)\<lparr>kst := k'\<rparr>"
    using signal(3) by (auto simp: poke_eventfd_def split: prod.splits)
  show ?thesis
    by (rule carry [OF w, where b = "inbox (sys c)" and a = "eventfd_armed (sys c)" and k = k'])
      (use w write_sent [OF k'(1)] in \<open>simp_all add: signal(4) k'(2) to_post_goto unstarted_def working_def\<close>)
qed

text \<open>Entering the kernel, at the head of the loop or again while blocked.\<close>

lemma submit_working:
  assumes w: "working prog n c" and inv: "conc_inv infl signalled c" and pc: "lp_pc (looper c) = LTop \<or> lp_pc (looper c) = LWait"
    and slot: "eventfd_armed (sys c) \<or> has_capacity (ring (sys c)) 1"
  shows "working prog n (loop_goto LWait (c\<lparr>sys := submit_staged os (sys c)\<rparr>))" "sq_len (ring (submit_staged os (sys c))) = 0"
    "eventfd_armed (submit_staged os (sys c))"
proof -
  have safe: "safe infl (sys c)" using inv by (simp add: conc_inv_def)
  obtain ts where ts: "conf allowed sent (sys c) ts" "map th_body ts @ map prog (unstarted c) = map prog (pushed_jobs c)"
    using w by (auto simp: working_def)
  obtain s1 where s1: "sq_len (ring s1) = 0" "sq_entries (ring s1) = sq_entries (ring (sys c))" "safe infl s1" "conf allowed sent s1 ts"
    "inbox s1 = inbox (sys c)" "tasks s1 = tasks (sys c)" "eventfd_armed s1" "frames s1 = frames (sys c)" "s1 = submit_staged os (sys c)"
    by (rule drain_parts_conf [OF safe slot ts(1)])
  show "sq_len (ring (submit_staged os (sys c))) = 0" "eventfd_armed (submit_staged os (sys c))" using s1 by simp_all
  have sd: "shutting_down s1 = shutting_down (sys c)" by (simp add: s1(9) submit_staged_def Let_def arm_stages)
  have td: "Task_done s1 t = Task_done (sys c) t" for t by (simp add: s1(8) Task_done_def frame_done_def split: option.split)
  have ops: "ops_in (cq_ready (ring s1)) \<le> length (tasks (sys c))" using ops_le_tasks [OF s1(3)] s1(6) by simp
  let ?c = "loop_goto LWait (c\<lparr>sys := s1\<rparr>)"
  have c: "unstarted ?c = unstarted c" "to_post ?c = to_post c" by (simp_all add: unstarted_def s1(5) to_post_def)
  have "working prog n ?c"
    unfolding working_def c using w pc ts s1(1,2,4,6) sd td ops by (auto simp: working_def)
  then show "working prog n (loop_goto LWait (c\<lparr>sys := submit_staged os (sys c)\<rparr>))" by (simp add: s1(9))
qed

lemma slot_free:
  assumes "working prog n c" "safe infl (sys c)"
  shows "has_capacity (ring (sys c)) 1" "unstarted c \<noteq> [] \<Longrightarrow> has_capacity (ring (sys c)) 2"
proof -
  have ok: "sq_ok (ring (sys c))" using assms(2) sched_inv_calm by (fastforce simp: safe_def calm_def ring_ok_def)
  show "has_capacity (ring (sys c)) 1" using has_capacity_1 [OF ok] assms(1) by (auto simp: working_def)
  show "has_capacity (ring (sys c)) 2" if "unstarted c \<noteq> []"
    using has_capacity_2 [OF ok] assms(1) that by (cases "unstarted c") (auto simp: working_def)
qed

lemma cqe_working:
  assumes small: "\<And>j. first_small (prog j)" and w: "working prog n c" and inv: "conc_inv infl signalled c" and pc: "lp_pc (looper c) = LCqes"
  shows "working prog n (step_cqe os (spawn_jobs os prog) c)"
proof -
  have i: "safe infl (sys c)" "lp_mask (looper c) = cq_mask (ring (sys c))" "lp_current (looper c) = cq_head (ring (sys c))"
    "lp_tail (looper c) = cq_tail (ring (sys c))" "lp_local (looper c) = []"
    using inv pc by (simp_all add: conc_inv_def cursor_ok_def)
  let ?f = "cq_front (ring (sys c))"
  note carry' = carry [OF w, where b = "inbox (sys c)" and k = "kst (sys c)"]
  show ?thesis
  proof (cases "cq_head (ring (sys c)) = cq_tail (ring (sys c)) \<or> cqe_user_data ?f = EventfdBuf")
    case True
    show ?thesis
      by (rule carry' [where a = "if cq_head (ring (sys c)) = cq_tail (ring (sys c)) then eventfd_armed (sys c) else False"])
        (use True i in \<open>auto simp: step_cqe_def Let_def cq_front_def unstarted_def to_post_def\<close>)
  next
    case False
    let ?inv = "spawn_jobs os prog" and ?s = "sys c"
    have jobs: "jobs_ok infl ?inv" unfolding spawn_jobs_def using spawn_jobs_ok small memory by blast
    obtain e s1 where p: "process_cqe os ?inv ?f ?s = (e, s1)" by fastforce
    have "cq_head (ring ?s) \<noteq> cq_tail (ring ?s)" using False by simp
    note st = cqe_step [OF jobs i(1) this p]
    have srv: "serving prog (map prog (pushed_jobs c)) (kst ?s) n (length (pushed_jobs c)) False ?s"
      using w i(5) by (auto simp: serving_def working_def unstarted_def)
    have room: "2 * length (map prog (pushed_jobs c)) < unat n" using w by (simp add: working_def)
    from serving_other [OF i(1) srv room st(5) _ p st(1,4)] False
    have s2: "e = None" "serving prog (map prog (pushed_jobs c)) (kst ?s) n (length (pushed_jobs c)) False (s1\<lparr>ring := cq_advance (ring s1)\<rparr>)"
      by auto
    have "step_cqe os ?inv c = next_cqe (c\<lparr>sys := s1\<rparr>)"
      using False i p s2(1) by (auto simp: step_cqe_def Let_def cq_front_def)
    moreover have "sys (next_cqe (c\<lparr>sys := s1\<rparr>)) = s1\<lparr>ring := cq_advance (ring s1)\<rparr>"
      using st(1) i(3) by (simp add: next_cqe_def cq_advance_def Let_def cq_same_def)
    moreover have "shutting_down s1 = shutting_down ?s"
    proof -
      have lq: "live_q infl ?s = add_mset (cqe_user_data ?f) (infl (kst ?s) + mset (map cqe_user_data (tl (cq_ready (ring ?s)))))"
        unfolding live_q_def by (subst st(5)) simp
      show ?thesis using process_cqe_inv(2) [OF jobs _ p] i(1) lq by (metis safe_def same_loop_def)
    qed
    ultimately show ?thesis using w s2(2) i(5) by (auto simp: working_def serving_def unstarted_def to_post_def)
  qed
qed

lemma run_working:
  assumes w: "working prog n c" and inv: "conc_inv infl signalled c" and pc: "lp_pc (looper c) = LRun"
  shows "working prog n (step_run (spawn_jobs os prog) c)"
proof (cases "lp_local (looper c)")
  case Nil
  let ?s = "sys c"
  have i: "safe infl ?s" "cq_head (ring ?s) \<noteq> cq_tail (ring ?s)" "cqe_user_data (cq_front (ring ?s)) = EventfdBuf"
    "lp_current (looper c) = cq_head (ring ?s)" using inv pc by (simp_all add: conc_inv_def cursor_ok_def)
  have c': "step_run (spawn_jobs os prog) c = next_cqe c" using Nil by (simp add: step_run_def)
  have s2: "sys (next_cqe c) = ?s\<lparr>ring := cq_advance (ring ?s)\<rparr>" by (simp add: next_cqe_def cq_advance_def Let_def i)
  obtain ts where ts: "conf allowed sent ?s ts" "map th_body ts @ map prog (unstarted c) = map prog (pushed_jobs c)"
    using w by (auto simp: working_def)
  have "ops_in (cq_ready (cq_advance (ring ?s))) \<le> ops_in (cq_ready (ring ?s))"
    using cq_ready_advance [OF i(2)] by (cases "cq_ready (ring ?s)") (simp_all add: ops_in_def)
  moreover have "sq_len (cq_advance r) = sq_len r" "sq_entries (cq_advance r) = sq_entries r" for r by (simp_all add: cq_advance_def)
  moreover have "unstarted (next_cqe c) = unstarted c" "to_post (next_cqe c) = to_post c" by (simp_all add: unstarted_def to_post_def s2)
  ultimately show ?thesis using w advance_conf [OF ts(1) i(2)] ts(2) unfolding c' by (auto simp: working_def s2)
next
  case (Cons j rest)
  let ?s = "sys c"
  have un: "unstarted c = j # rest @ inbox ?s" by (simp add: unstarted_def Cons)
  have safe: "safe infl ?s" using inv by (simp add: conc_inv_def)
  then have i: "sched_inv (live_q infl ?s) ?s" by (simp add: safe_def)
  obtain ts where ts: "conf allowed sent ?s ts" "map th_body ts @ map prog (unstarted c) = map prog (pushed_jobs c)"
    using w by (auto simp: working_def)
  have "has_capacity (ring ?s) 2" using slot_free(2) [OF w safe] un by simp
  then obtain s' h l where sp: "spawn_call os (prog j) ?s = (None, s')"
    "conf allowed sent s' (ts @ [\<lparr>th_handle = h, th_body = prog j, th_log = l\<rparr>])" "sq_len (ring s') \<le> sq_len (ring ?s) + 2"
    using spawn_conf [OF safe _ ts(1) memory] by metis
  note k = spawn_keeps [OF i sp(1)]
  let ?c = "c\<lparr>sys := s', looper := (looper c)\<lparr>lp_local := rest\<rparr>\<rparr>"
  have c': "step_run (spawn_jobs os prog) c = ?c" using Cons sp(1) by (simp add: step_run_def spawn_jobs_def)
  have un': "unstarted ?c = rest @ inbox ?s" using k(4) by (simp add: unstarted_def)
  have r: "cq_ready (ring s') = cq_ready (ring ?s)" "sq_entries (ring s') = sq_entries (ring ?s)" "shutting_down s' = shutting_down ?s"
    using k(2) cq_same_abs [of "ring ?s" "ring s'"] by (simp_all add: same_loop_def)
  have "\<exists>ts. conf allowed sent s' ts \<and> map th_body ts @ map prog (unstarted ?c) = map prog (pushed_jobs c)"
    using sp(2) ts(2) un un' by (intro exI [of _ "ts @ [\<lparr>th_handle = h, th_body = prog j, th_log = l\<rparr>]"]) simp
  then show ?thesis using w sp(3) k(6) r un un' pc unfolding c' by (auto simp: working_def to_post_def)
qed

lemma reap_working:
  assumes w: "working prog n c" and inv: "conc_inv infl signalled c" and pc: "lp_pc (looper c) = LReap"
  shows "working prog n (loop_goto LTop (c\<lparr>sys := reap (sys c)\<rparr>))"
proof -
  let ?s = "sys c"
  have i: "sched_inv (live_q infl ?s) ?s" using inv by (simp add: conc_inv_def safe_def)
  note re = reap_effect [OF i]
  obtain ts where ts: "conf allowed sent ?s ts" "map th_body ts @ map prog (unstarted c) = map prog (pushed_jobs c)"
    using w by (auto simp: working_def)
  have "length (tasks (reap ?s)) \<le> length (tasks ?s)" by (simp add: re unfinished_def)
  moreover have "ring (reap ?s) = ring ?s" "inbox (reap ?s) = inbox ?s" "shutting_down (reap ?s) = shutting_down ?s" by (simp_all add: re)
  moreover from this have "unstarted (loop_goto LTop (c\<lparr>sys := reap ?s\<rparr>)) = unstarted c"
    "to_post (loop_goto LTop (c\<lparr>sys := reap ?s\<rparr>)) = to_post c" by (simp_all add: unstarted_def to_post_def)
  ultimately show ?thesis
    using w reap_conf [OF i ts(1)] ts(2) reap_all_unfinished [OF i] by (auto simp: working_def)
qed

lemma loop_working:
  assumes small: "\<And>j. first_small (prog j)" and w: "working prog n c" and inv: "conc_inv infl signalled c"
    and st: "loop_step os (spawn_jobs os prog) c = Some c'"
  shows "working prog n c'"
proof -
  have safe: "safe infl (sys c)" using inv by (simp add: conc_inv_def)
  note same = carry [OF w, where a = "eventfd_armed (sys c)" and k = "kst (sys c)"]
  have nr: "\<not> retrying (lp_pc (looper c))" using w by (simp add: working_def)
  show ?thesis
  proof (cases "lp_pc (looper c)")
    case LTop
    note sub = submit_working [OF w inv _ disjI2 [OF slot_free(1) [OF w safe]]]
    have "sq_head (ring (submit_staged os (sys c))) = sq_tail (ring (submit_staged os (sys c)))" using sub(2) LTop by (simp add: sq_len_def)
    moreover have "\<not> shutting_down (submit_staged os (sys c))" using sub(1) LTop by (simp add: working_def)
    moreover have "stop_src c = NotRequested" using w by (simp add: working_def)
    ultimately show ?thesis using sub(1) LTop st by (simp add: loop_step_def step_top_def Let_def)
  next
    case LWait
    show ?thesis
    proof (cases "cq_head (ring (sys c)) = cq_tail (ring (sys c))")
      case True
      have b: "blocked (sys c)" "eventfd_armed (sys c)" using inv LWait True by (simp_all add: blocked_def conc_inv_def cursor_ok_def)
      have "loop_goto LWait (c\<lparr>sys := s\<rparr>) = c\<lparr>sys := s\<rparr>" for s using LWait by (cases "looper c") (simp add: loop_goto_def)
      then show ?thesis using submit_working(1) [OF w inv] LWait b(2) st poll_submit [OF b] True
        by (simp add: loop_step_def step_wait_def Let_def)
    next
      case False
      then have c': "c' = load_cq c" using st LWait by (simp add: loop_step_def step_wait_def Let_def)
      show ?thesis by (rule same [where b = "inbox (sys c)"]) (simp_all add: c' unstarted_def to_post_def)
    qed
  next
    case LCqes
    then show ?thesis using cqe_working [OF small w inv LCqes] st by (simp add: loop_step_def Let_def)
  next
    case LLock
    then have c': "c' = loop_goto LSwap (c\<lparr>inbox_mutex := Some HLoop\<rparr>)"
      using st by (auto simp: loop_step_def take_mutex_def Let_def split: if_splits)
    show ?thesis by (rule same [where b = "inbox (sys c)"]) (simp_all add: c' unstarted_def to_post_def)
  next
    case LSwap
    then have c': "c' = c\<lparr>sys := (sys c)\<lparr>inbox := []\<rparr>, looper := (looper c)\<lparr>lp_pc := LUnlock, lp_local := inbox (sys c)\<rparr>\<rparr>"
      using st by (simp add: loop_step_def Let_def)
    show ?thesis by (rule same [where b = "[]"]) (use inv LSwap in \<open>simp_all add: c' unstarted_def to_post_def conc_inv_def cursor_ok_def\<close>)
  next
    case LUnlock
    then have c': "c' = loop_goto LRun (c\<lparr>inbox_mutex := None\<rparr>)" using st by (simp add: loop_step_def Let_def)
    show ?thesis by (rule same [where b = "inbox (sys c)"]) (simp_all add: c' unstarted_def to_post_def)
  next
    case LRun
    then show ?thesis using run_working [OF w inv LRun] st by (simp add: loop_step_def Let_def)
  next
    case LReap
    then show ?thesis using reap_working [OF w inv LReap] st by (simp add: loop_step_def Let_def)
  qed (use st nr in \<open>simp_all add: loop_step_def Let_def\<close>)
qed

text \<open>Both invariants, after any statement of any thread but the one that stops the loop.\<close>

definition at_work :: "('j \<Rightarrow> co) \<Rightarrow> u32 \<Rightarrow> ('j, 'k) conc \<Rightarrow> bool" where
  "at_work prog n c \<longleftrightarrow> conc_inv infl signalled c \<and> working prog n c"

lemma at_work_step:
  assumes small: "\<And>j. first_small (prog j)" and w: "at_work prog n c" and st: "conc_step os (spawn_jobs os prog) a c = Some c'" and "a \<noteq> Stop"
  shows "at_work prog n c'"
proof -
  have jobs: "jobs_ok infl (spawn_jobs os prog)" "jobs_wake signalled (spawn_jobs os prog)"
    unfolding spawn_jobs_def using spawn_jobs_ok spawn_jobs_wake small memory by blast+
  have i: "conc_inv infl signalled c" "working prog n c" "safe infl (sys c)" "coherent c" using w by (simp_all add: at_work_def conc_inv_def)
  have "conc_inv infl signalled c'" using step_inv [OF jobs st i(1)] slot_free(1) [OF i(2,3)] by (simp add: slot_for_read_def)
  moreover have "working prog n c'"
  proof (cases a)
    case (Client k)
    then show ?thesis using client_working i st by simp
  next
    case Signal
    then have c': "c' = load_cq c" using st by (simp add: signal_step_def split: if_splits)
    show ?thesis
      by (rule carry [OF i(2), where b = "inbox (sys c)" and a = "eventfd_armed (sys c)" and k = "kst (sys c)"])
        (simp_all add: c' unstarted_def to_post_def)
  qed (use loop_working [OF small i(2,1)] st assms(4) in simp_all)
  ultimately show ?thesis by (simp add: at_work_def)
qed

lemma at_work_run:
  assumes "\<And>j. first_small (prog j)" "at_work prog n c" "Stop \<notin> set as"
  shows "at_work prog n (conc_run os (spawn_jobs os prog) as c)"
  using assms(2,3)
proof (induction as arbitrary: c)
  case (Cons a as)
  have "at_work prog n (case conc_step os (spawn_jobs os prog) a c of None \<Rightarrow> c | Some c' \<Rightarrow> c')"
    using at_work_step [OF assms(1) Cons.prems(1), of a] Cons.prems by (auto split: option.split)
  then show ?case using Cons.IH Cons.prems(2) by simp
qed simp

lemma history_run:
  "history jss c \<Longrightarrow> coherent c \<Longrightarrow> history jss (conc_run os invoke as c) \<and> coherent (conc_run os invoke as c)"
  by (induction as arbitrary: c) (auto split: option.split dest: history_step coherent_step)

section \<open>Rounds\<close>

text \<open>Between two rounds: at the test of the stop token, or blocked with nothing in the ring.\<close>

definition station :: "('j, 'k) conc \<Rightarrow> bool" where
  "station c \<longleftrightarrow> lp_pc (looper c) = LTop \<or> lp_pc (looper c) = LWait \<and> blocked (sys c)"

lemma posted_mutex: "all_posted c \<Longrightarrow> coherent c \<Longrightarrow> clients_out c"
  by (auto simp: all_posted_def coherent_def clients_out_def)

lemma station_mutex:
  assumes "all_posted c" "at_work prog n c" "station c"
  shows "inbox_mutex c = None"
proof -
  have co: "coherent c" using assms(2) by (simp add: at_work_def conc_inv_def)
  then have "inbox_mutex c \<noteq> Some HLoop" using assms(3) by (auto simp: coherent_def station_def)
  then show ?thesis using posted_mutex [OF assms(1) co] by (metis clients_out_def holder.exhaust option.exhaust)
qed

lemma station_busy:
  assumes a: "all_posted c" and w: "at_work prog n c" and st: "station c"
  shows "busy prog (map prog (pushed_jobs c)) (sys c)"
proof -
  have i: "conc_inv infl signalled c" "working prog n c" using w by (simp_all add: at_work_def)
  then have safe: "safe infl (sys c)" by (simp add: conc_inv_def)
  have pc: "\<not> swapped (lp_pc (looper c))" "\<not> handling (lp_pc (looper c))" "lp_pc (looper c) = LTop \<or> lp_pc (looper c) = LWait"
    using st by (auto simp: station_def)
  have "inbox (sys c) \<noteq> [] \<longrightarrow> signalled (kst (sys c)) \<or> wake_ready (sys c)"
    using i(1) a pc(3) by (auto simp: conc_inv_def wake_due_def all_posted_def)
  then have "attentive infl signalled (sys c)" using i(1) pc(2) by (simp add: attentive_def conc_inv_def)
  moreover have "cq_head (ring (sys c)) = cq_tail (ring (sys c))"
    using i(1) st by (auto simp: conc_inv_def cursor_ok_def station_def blocked_def)
  then have "cq_ready (ring (sys c)) = []" by (simp add: cq_ready_def cq_len_def)
  moreover have "lp_local (looper c) = []" using i(1) pc(1) by (simp add: conc_inv_def cursor_ok_def)
  then have "unstarted c = inbox (sys c)" by (simp add: unstarted_def)
  ultimately show ?thesis
    using i(2) safe slot_free(1) [OF i(2) safe] pc(3) by (auto simp: busy_def working_def)
qed

lemma leads_work:
  assumes "\<And>j. first_small (prog j)" "at_work prog n c" "leads os (spawn_jobs os prog) c c'"
  shows "at_work prog n c'"
  using assms at_work_run [of prog n c "replicate m Loop" for m] by (auto simp: leads_def)

lemma frame_turns:
  "posters (turns os invoke m c) = posters c \<and> pushed_jobs (turns os invoke m c) = pushed_jobs c"
  by (induction m arbitrary: c) (auto split: option.split dest: loop_step_frame)

lemma frame_leads: "leads os invoke c c' \<Longrightarrow> posters c' = posters c \<and> pushed_jobs c' = pushed_jobs c"
  using frame_turns by (auto simp: leads_def)

text \<open>Turns of the loop follow the rounds of \<open>Posting\<close>.\<close>

lemma round_station:
  assumes a: "all_posted c" and w: "at_work prog n c" and st: "station c"
    and r: "thread_round os (spawn_jobs os prog) (sys c) = (None, s')"
  shows "\<exists>c'. leads os (spawn_jobs os prog) c c' \<and> sys c' = s' \<and> station c'"
proof -
  let ?inv = "spawn_jobs os prog" and ?s1 = "submit_staged os (sys c)"
  have i: "conc_inv infl signalled c" "working prog n c" using w by (simp_all add: at_work_def)
  then have safe: "safe infl (sys c)" by (simp add: conc_inv_def)
  have m: "inbox_mutex c = None" by (rule station_mutex [OF a w st])
  have pc: "lp_pc (looper c) = LTop \<or> lp_pc (looper c) = LWait" "\<not> swapped (lp_pc (looper c))" using st by (auto simp: station_def)
  have l: "lp_local (looper c) = []" "stop_src c = NotRequested" using i pc(2) by (simp_all add: conc_inv_def cursor_ok_def working_def)
  note sub = submit_working [OF i(2,1) pc(1) disjI2 [OF slot_free(1) [OF i(2) safe]]]
  have idle: "reap ?s1 = ?s1" using sub(1) by (intro reap_idle) (simp add: working_def)
  have wait: "\<exists>l. leads os ?inv c (c\<lparr>sys := s', looper := l\<rparr>) \<and> lp_pc l = LTop \<Longrightarrow> ?thesis"
    by (auto simp: station_def)
  show ?thesis
  proof (cases "blocked ?s1")
    case True
    have s': "s' = ?s1" using blocked_round [OF True, of ?inv] r idle by simp
    show ?thesis
    proof (cases "lp_pc (looper c) = LTop")
      case top: True
      from leads_one [OF blocked_leads [OF top l(2) True]] s' True show ?thesis by (fastforce simp: station_def)
    next
      case False
      then have b: "lp_pc (looper c) = LWait" "blocked (sys c)" "eventfd_armed (sys c)"
        using st i(1) by (auto simp: station_def conc_inv_def)
      have "loop_step os ?inv c = Some (c\<lparr>sys := ?s1\<rparr>)"
        using b poll_submit [OF b(2,3), of os] by (simp add: loop_step_def step_wait_def blocked_def Let_def)
      from leads_one [OF this] s' True b(1) show ?thesis by (fastforce simp: station_def)
    qed
  next
    case False
    show ?thesis
    proof (cases "lp_pc (looper c) = LTop")
      case True
      from round_leads [OF True m l r False] show ?thesis by (intro wait) auto
    next
      case no: False
      then have b: "lp_pc (looper c) = LWait" "blocked (sys c)" "eventfd_armed (sys c)"
        using st i(1) by (auto simp: station_def conc_inv_def)
      have "sq_head (ring ?s1) = sq_tail (ring ?s1)" "\<not> shutting_down ?s1"
        using sub by (simp_all add: sq_len_def working_def)
      then have "cq_head (ring ?s1) \<noteq> cq_tail (ring ?s1)" using False by (simp add: blocked_def)
      from wait_leads [OF b(1) m l(1) b(2,3) r this] show ?thesis by (intro wait) auto
    qed
  qed
qed

lemma rounds_station:
  assumes small: "\<And>j. first_small (prog j)"
  shows "all_posted c \<Longrightarrow> at_work prog n c \<Longrightarrow> station c \<Longrightarrow>
    run_schedule os (spawn_jobs os prog) (replicate m None) (sys c) = (None, s') \<Longrightarrow>
    \<exists>c'. leads os (spawn_jobs os prog) c c' \<and> sys c' = s' \<and> station c'"
proof (induction m arbitrary: c)
  case 0
  then show ?case by (intro exI [of _ c]) simp
next
  case (Suc m)
  obtain s1 where s1: "thread_round os (spawn_jobs os prog) (sys c) = (None, s1)"
    "run_schedule os (spawn_jobs os prog) (replicate m None) s1 = (None, s')"
    using Suc.prems(4) by (auto split: prod.splits option.splits)
  obtain c1 where c1: "leads os (spawn_jobs os prog) c c1" "sys c1 = s1" "station c1"
    using round_station [OF Suc.prems(1-3) s1(1)] by blast
  have "all_posted c1" using Suc.prems(1) frame_leads [OF c1(1)] by (simp add: all_posted_def)
  from Suc.IH [OF this leads_work [OF small Suc.prems(2) c1(1)] c1(3)] s1(2) c1(2) show ?case using leads_trans [OF c1(1)] by auto
qed

text \<open>From any state, with the clients done, the loop comes to a station.\<close>

lemma reach_station:
  assumes small: "\<And>j. first_small (prog j)" and a: "all_posted c" and w: "at_work prog n c"
  shows "\<exists>c'. leads os (spawn_jobs os prog) c c' \<and> station c'"
proof -
  have jobs: "jobs_ok infl (spawn_jobs os prog)" "jobs_wake signalled (spawn_jobs os prog)"
    unfolding spawn_jobs_def using spawn_jobs_ok spawn_jobs_wake small memory by blast+
  have away: "\<exists>c'. leads os (spawn_jobs os prog) c c' \<and> station c'"
    if c: "all_posted c" "at_work prog n c" "lp_pc (looper c) \<noteq> LWait" for c
  proof -
    have i: "conc_inv infl signalled c" "clients_out c" using c posted_mutex by (auto simp: at_work_def conc_inv_def)
    obtain c' where c': "leads os (spawn_jobs os prog) c c'" "settled (lp_pc (looper c'))"
      using settles [OF jobs i c(3)] by blast
    have "lp_pc (looper c') \<noteq> LStopped" using leads_work [OF small c(2) c'(1)] by (simp add: at_work_def working_def)
    then show ?thesis using c' by (auto simp: settled_def station_def)
  qed
  show ?thesis
  proof (cases "lp_pc (looper c) = LWait \<and> cq_head (ring (sys c)) \<noteq> cq_tail (ring (sys c))")
    case True
    then have l: "leads os (spawn_jobs os prog) c (load_cq c)" by (intro leads_one) (simp add: loop_step_def step_wait_def Let_def)
    have "all_posted (load_cq c)" using a by (simp add: all_posted_def)
    from away [OF this leads_work [OF small w l]] show ?thesis using leads_trans [OF l] by auto
  next
    case False
    show ?thesis
    proof (cases "lp_pc (looper c) = LWait")
      case True
      then have "blocked (sys c)" using False w by (simp add: blocked_def at_work_def conc_inv_def cursor_ok_def)
      then show ?thesis using True by (intro exI [of _ c]) (simp add: station_def)
    qed (use away [OF a w] in blast)
  qed
qed

lemma start_work:
  assumes c: "Scheduler_ctor os r k0 = Inr s0" and n: "2 * sum_list (map length jss) < unat (sq_entries r)"
  shows "at_work prog (sq_entries r) (conc_start jss s0)"
proof -
  have s: "ring s0 = r" "tasks s0 = []" "log s0 = []" "inbox s0 = []" "\<not> shutting_down s0"
    using c by (auto simp: Scheduler_ctor_def split: prod.splits if_splits)
  have "sq_len r = 0" "ops_in (cq_ready r) = 0" using fresh(2,3) by (simp_all add: ops_in_def flip: length_sq_pending)
  moreover have "conf allowed sent s0 []" using interleaves.none [of 0] by (simp add: conf_def s)
  ultimately have "working prog (sq_entries r) (conc_start jss s0)"
    using n by (simp add: working_def conc_start_def unstarted_def to_post_def s o_def)
  then show ?thesis using start_inv [OF c fresh] by (simp add: at_work_def)
qed

lemma interleaved_work_done:
  assumes small: "\<And>j. first_small (prog j)" and n: "2 * sum_list (map length jss) < unat (sq_entries r)"
    and c: "Scheduler_ctor os r k0 = Inr s0" and as: "Stop \<notin> set as"
    and fin: "all_posted (conc_run os (spawn_jobs os prog) as (conc_start jss s0))"
  shows "\<exists>m c' ps. conc_run os (spawn_jobs os prog) (as @ replicate m Loop) (conc_start jss s0) = c'
    \<and> tasks (sys c') = [] \<and> inbox (sys c') = [] \<and> lp_local (looper c') = [] \<and> ub_flag (sys c') = None
    \<and> interleaves jss (pushed_jobs c') \<and> interleaves ps (log (sys c'))
    \<and> list_all2 (\<lambda>j p. \<exists>out. blocks allowed (prog j) p out) (pushed_jobs c') ps"
proof -
  let ?inv = "spawn_jobs os prog" and ?start = "conc_start jss s0" and ?n = "sq_entries r"
  let ?c = "conc_run os ?inv as ?start"
  have w: "at_work prog ?n ?c" by (rule at_work_run [OF small start_work [OF c n] as])
  obtain c1 where c1: "leads os ?inv ?c c1" "station c1" using reach_station [OF small fin w] by blast
  have w1: "at_work prog ?n c1" by (rule leads_work [OF small w c1(1)])
  have p1: "all_posted c1" using fin frame_leads [OF c1(1)] by (simp add: all_posted_def)
  obtain N where "\<forall>m \<ge> N. \<exists>s'. run_schedule os ?inv (replicate m None) (sys c1) = (None, s')
      \<and> busy prog (map prog (pushed_jobs c1)) s' \<and> tasks s' = [] \<and> inbox s' = []"
    using busy_run [OF small station_busy [OF p1 w1 c1(2)]] by blast
  then obtain s' where s': "run_schedule os ?inv (replicate N None) (sys c1) = (None, s')"
    "busy prog (map prog (pushed_jobs c1)) s'" "tasks s' = []" "inbox s' = []" by blast
  obtain c2 where c2: "leads os ?inv c1 c2" "sys c2 = s'" "station c2" using rounds_station [OF small p1 w1 c1(2) s'(1)] by blast
  obtain m where m: "turns os ?inv m ?c = c2" using leads_trans [OF c1(1) c2(1)] by (auto simp: leads_def)
  have w2: "at_work prog ?n c2" by (rule leads_work [OF small w1 c2(1)])
  have "lp_local (looper c2) = []" using w2 c2(3) by (auto simp: at_work_def conc_inv_def cursor_ok_def station_def)
  moreover have h: "history jss c2" using history_run [of jss ?start ?inv "as @ replicate m Loop", OF history_start coherent_start] m by simp
  have "posters c2 = posters ?c" "pushed_jobs c2 = pushed_jobs c1" using frame_leads [OF c1(1)] frame_leads [OF c2(1)] by simp_all
  then have "interleaves jss (pushed_jobs c2)"
  proof -
    obtain ps where ps: "interleaves ps (pushed_jobs c2)" "length ps = length (posters c2)" "length jss = length (posters c2)"
      "\<forall>i < length (posters c2). ps ! i @ cl_jobs (posters c2 ! i) = jss ! i" using h by (auto simp: history_def)
    moreover have "cl_jobs (posters c2 ! i) = []" if "i < length (posters c2)" for i
      using fin that \<open>posters c2 = posters ?c\<close> by (auto simp: all_posted_def)
    ultimately have "ps = jss" by (intro nth_equalityI) auto
    then show ?thesis using ps(1) by simp
  qed
  moreover obtain ps where "interleaves ps (log s')" "list_all2 (\<lambda>c p. \<exists>out. blocks allowed c p out) (map prog (pushed_jobs c1)) ps"
    by (rule busy_done [OF s'(2-4)])
  moreover have "ub_flag s' = None" using s'(2) sched_inv_calm by (fastforce simp: busy_def safe_def calm_def)
  ultimately show ?thesis
    using m c2(2) s'(3,4) \<open>pushed_jobs c2 = pushed_jobs c1\<close> by (intro exI [of _ m] exI [of _ c2] exI [of _ ps]) (simp add: list_all2_map1)
qed

end


section \<open>Properties\<close>

text \<open>
  C6: Work posted concurrently is done, within bounds. Any number of client threads post jobs, fewer than
  half the ring's entries in all, each of which spawns a task whose first awaited operation has no
  deadline; the kernel completes what it is given and wakes a signalled eventfd. The clients'
  statements, the lock, the push, the unlock and the write of every \<open>post\<close>, are interleaved in any way
  with those of the thread in \<open>run\<close>, signals may interrupt its system call, and no stop is requested.
  Once the clients have returned, finitely many turns of the loop leave the inbox and the task list empty; what was pushed
  is an interleaving of the clients' posts, each in its order, and what has happened is an
  interleaving of one complete blocking run of every job pushed, each exactly once.
\<close>

theorem interleaved_jobs_run:
  assumes "waking_bed os infl delay sent allowed r k0 signalled latency" "\<And>j. first_small (prog j)"
    and "2 * sum_list (map length jss) < unat (sq_entries r)" "Scheduler_ctor os r k0 = Inr s0" "Stop \<notin> set as"
    and "all_posted (conc_run os (spawn_jobs os prog) as (conc_start jss s0))"
  shows "\<exists>m c' ps. conc_run os (spawn_jobs os prog) (as @ replicate m Loop) (conc_start jss s0) = c'
    \<and> tasks (sys c') = [] \<and> inbox (sys c') = [] \<and> lp_local (looper c') = [] \<and> ub_flag (sys c') = None
    \<and> interleaves jss (pushed_jobs c') \<and> interleaves ps (log (sys c'))
    \<and> list_all2 (\<lambda>j p. \<exists>out. blocks allowed (prog j) p out) (pushed_jobs c') ps"
  by (rule waking_bed.interleaved_work_done [OF assms])

theorem interleaved_jobs_run_witness:
  "\<exists>m. log (sys (conc_run prompt_os (spawn_jobs prompt_os (\<lambda>j. recv_body))
      ([Client 0, Client 1, Client 0, Loop, Client 0, Client 1, Client 1, Client 0, Client 1, Client 1] @ replicate m Loop)
      (conc_start [[1], [1]] (prompt_on 8)))) = [(''got'', 5), (''got'', 5)]"
proof -
  let ?as = "[Client 0, Client 1, Client 0, Loop, Client 0, Client 1, Client 1, Client 0, Client 1, Client 1]"
  let ?jss = "[[1], [1]] :: nat list list" and ?inv = "spawn_jobs prompt_os (\<lambda>j. recv_body)"
  have small: "first_small recv_body" by (simp add: recv_body_def)
  have n: "2 * sum_list (map length ?jss) < unat (sq_entries (fresh_ring 8))" by simp
  have no: "Stop \<notin> set ?as" by simp
  have fin: "all_posted (conc_run prompt_os ?inv ?as (conc_start ?jss (prompt_on 8)))"
    by (simp add: conc_start_def client_step_def poster_goto_def loop_step_def Let_def all_posted_def top_fields poke_eventfd_def
        reply_os_def sim_os_def)
  obtain m c' ps where c': "conc_run prompt_os ?inv (?as @ replicate m Loop) (conc_start ?jss (prompt_on 8)) = c'"
    "interleaves ?jss (pushed_jobs c')" "interleaves ps (log (sys c'))"
    "list_all2 (\<lambda>j p. \<exists>out. blocks (reply_allowed (\<lambda>e. 5)) recv_body p out) (pushed_jobs c') ps"
    using interleaved_jobs_run [OF reply.waking_bed_axioms [of "\<lambda>e. 5"] small n prompt_on no fin] by blast
  have "pushed_jobs c' = [1, 1]" using interleaves_same [OF c'(2), of 1] by simp
  then have "ps = [[(''got'', 5)], [(''got'', 5)]]" using c'(4)
    by (auto simp: list_all2_Cons1 reply_allowed_const blocks_simps recv_body_def)
  then have "log (sys c') = [(''got'', 5), (''got'', 5)]" using interleaves_same [OF c'(3), of "(''got'', 5)"] by simp
  then show ?thesis using c'(1) by blast
qed

end
