(* ===== verification/Spec2Isabelle.thy ===== *)
theory Spec2Isabelle
  imports Setup_Tests Task_Typing Driver_Tests Test_Files Interleaved_Work
begin

text \<open>
  A verification of the coroutine I/O library under \<^verbatim>\<open>src/\<close>: \<^verbatim>\<open>io.cpp\<close>, \<^verbatim>\<open>operations.cpp\<close>, \<^verbatim>\<open>awaitable.cpp\<close>,
  \<^verbatim>\<open>scheduler.cpp\<close>, \<^verbatim>\<open>runtime.cpp\<close>, their headers, and the test programs that use them.

  \<^bold>\<open>The program.\<close> \<open>IO\<close> sets up the two rings it shares with the kernel. An operation (\<open>Recv\<close>, \<open>Open\<close>, ...)
  is an \<open>Awaitable\<close>: awaiting it reserves one slot of the submission ring, or two when it has a
  deadline, writes the entries with its own address as \<open>user_data\<close> and suspends the coroutine.
  Coroutines are \<open>Task\<close>s: frames that own their result, may await each other, and hand control back
  to their awaiter by symmetric transfer. A \<open>Scheduler\<close> owns tasks. It starts them in \<open>spawn\<close>, submits
  what they staged, resumes the awaitable each completion points to, destroys finished tasks in
  \<open>reap\<close>, and is reached from other threads by \<open>post\<close>, which queues a callable and wakes the loop
  through an eventfd whose read is always in flight. A \<open>Runtime\<close> is a dispatcher scheduler that hands
  jobs to worker schedulers in turn.

  \<^bold>\<open>The model\<close>, one theory per part, in the order of the code:
  \<^item> \<open>Prelude\<close>: machine integers, ring index arithmetic, lemmas on lists and words.
  \<^item> \<open>Error_Codes\<close> (\<^verbatim>\<open>error_codes.h.in\<close>): \<open>ErrorStatus\<close>, its message table, \<open>IOException\<close>.
  \<^item> \<open>Io_Setup\<close> (\<^verbatim>\<open>io.h.in\<close>, \<^verbatim>\<open>io.cpp\<close>): constructor with every error path, destructor, as a log of the
    system calls made.
  \<^item> \<open>Operations\<close> (\<^verbatim>\<open>operations.h.in\<close>, \<^verbatim>\<open>operations.cpp\<close>): the ten operations and the entry each writes.
  \<^item> \<open>Ring\<close>: the shared memory of the rings with its 32-bit free-running indices, slots found by
    masking, and the abstraction to two queues.
  \<^item> \<open>Awaitable\<close> (\<^verbatim>\<open>awaitable.h.in\<close>, \<^verbatim>\<open>awaitable.cpp\<close>): the awaiter protocol, deadlines, the thread-local
    \<open>SQFull\<close> flag.
  \<^item> \<open>Task\<close> (\<^verbatim>\<open>task.h.in\<close>): a heap of frames, promises, moves, destruction, \<open>co_await\<close> and symmetric
    transfer. The body of a coroutine is a tree of actions, \<open>co\<close>.
  \<^item> \<open>Scheduler\<close> (\<^verbatim>\<open>scheduler.h.in\<close>, \<^verbatim>\<open>scheduler.cpp\<close>): all of its operations on one state record.
  \<^item> \<open>Runtime\<close> (\<^verbatim>\<open>runtime.h.in\<close>, \<^verbatim>\<open>runtime.cpp\<close>): construction, hand-off, start, stop, destruction.
  \<^item> \<open>Posting\<close>, \<open>Handoff\<close>: schedules, the interleavings of posts from any thread with the rounds of the
    thread that runs a scheduler (\<open>run_schedule\<close>) or of all threads of a runtime (\<open>rt_run\<close>).
  \<^item> \<open>Interleaving\<close>, \<open>Interleaved_Work\<close>: the threads at the granularity of \<^verbatim>\<open>inbox_mutex_\<close>. A state (\<open>conc\<close>) has
    the scheduler, the holder of the mutex, and the place of every client in \<open>post\<close>, of the stop request
    and its callback, and of the thread in \<open>run\<close> with the local variables of \<open>drain\<close> and \<open>drain_inbox\<close>;
    a schedule (\<open>conc_run\<close>) is a list of turns, one statement each.
  \<^item> \<open>Task_Tests\<close>, \<open>Operation_Tests\<close>, \<open>Setup_Tests\<close>, \<open>Job_Tests\<close> (\<^verbatim>\<open>tests2/hangs/tasks.cpp\<close>,
    \<^verbatim>\<open>tests2/hangs/main.cpp\<close>, \<^verbatim>\<open>tests2/connect_poll.cpp\<close>, \<^verbatim>\<open>tests2/run_multiple_tasks.cpp\<close>,
    \<^verbatim>\<open>tests2/multi_threaded.cpp\<close>, \<^verbatim>\<open>tests2/runtime_write.cpp\<close>): the test sections and jobs as programs.
  \<^item> \<open>Driver_Tests\<close>, \<open>Test_Files\<close> (the last two files): client threads, the polling main thread,
    stopping; the listing of a directory and the reading back of a file.

  Exceptions are values of a sum or option type. Undefined behaviour (a resumed dead frame, a buffer
  overrun, a division by zero, \<open>std::terminate\<close>) is recorded in \<open>ub_flag\<close> and never forgotten, so that
  a theorem can say it does not happen. A loop that need not end, \<open>shutdown\<close>, is a partial function
  with value \<open>None\<close> when it does not; \<open>run\<close> is given the answers of its stop token as a list.

  \<^bold>\<open>The kernel\<close> is a parameter, the record \<open>os\<close> of \<open>Scheduler\<close> and \<open>uring_env\<close> of \<open>Io_Setup\<close>. What the code
  relies on is stated in locales, each extending the one before:
  \<^item> \<open>uring_kernel\<close> (\<open>Scheduler_Loop\<close>): every entry taken is completed at most once and with its own
    \<open>user_data\<close>, no more completions are posted than fit. Enough for safety.
  \<^item> \<open>progressing_kernel\<close> (\<open>Shutdown\<close>): entries are taken, and what is in flight completes after
    finitely many calls. Needed for liveness.
  \<^item> \<open>answering_kernel\<close> and \<open>test_bed\<close> (\<open>Blocking\<close>): the result of an operation is one of those allowed
    for it; a new ring of at least 256 entries, an eventfd, memory for the task list.
  \<^item> \<open>eventfd_kernel\<close>, \<open>waking_kernel\<close> and \<open>waking_bed\<close> (\<open>Posting\<close>): a write signals the eventfd, only a
    completed read resets it, and the read of a signalled eventfd completes after finitely many calls.
  \<^item> \<open>runtime_bed\<close> (\<open>Handoff\<close>): the same for the ring of every worker, and at least one worker.

  \<open>Sim_Kernel\<close> is an executable kernel; it and the variant \<open>reply_os g\<close> of \<open>Shutdown\<close>, which answers by a
  function \<open>g\<close>, interpret these locales and carry the witnesses.

  \<^bold>\<open>What is shown.\<close>
  \<^item> Ring set-up: no descriptor or mapping leaks on any error path or is released twice. Every
    submission pointer lies in its mapping; the completion pointers do exactly when the completion ring
    fits what was mapped for it, which with a single mapping is the size of the submission ring.
  \<^item> Entries: an operation decodes to the request it stands for, exactly when its length fits 32
    bits; both slots of an operation with a deadline are reserved or none; \<open>Connect\<close> copies the
    caller's address exactly when the length given is within its storage and the caller's object, and
    leaves one of the two otherwise.
  \<^item> Tasks (\<open>Nested_Await\<close>): resuming a chain of frames is in-place evaluation of the composed body
    (\<open>exec\<close>). \<open>Task_Typing\<close>: a \<open>Task<T>\<close> made from a well-typed body never yields
    anything but a \<open>T\<close> or an exception, whatever is done with it.
  \<^item> Scheduler safety (\<open>Scheduler_Inv\<close>, \<open>Scheduler_Loop\<close>, \<open>Scheduler_Safety\<close>). The relation \<open>reach\<close> has
    every call in every state, with a flag that is true as long as no \<open>spawn\<close> has thrown after it resumed
    its task and no \<open>drain\<close> was entered with the eventfd read unarmed and the ring full: the code
    excludes neither. While it is true, and with posted callables that keep the invariant (\<open>jobs_ok\<close>, as
    those do that spawn a body whose first operation has no deadline), each outstanding operation
    belongs to one unfinished task that is suspended on it, no completion meets a dead frame, no task is
    lost. \<open>drain\<close>, \<open>drain_inbox\<close>, \<open>spawn\<close> and \<open>reap\<close> do what they promise on every branch.
  \<^item> Posting (\<open>Posting\<close>): within the same limits no wake-up is lost. Work posted from other threads, at
    any moments between the rounds of the loop, is started and run to its end when less than half the
    ring's entries are posted and the first operation of each task has no deadline.
  \<^item> Interleaved statements (\<open>Interleaving\<close>, \<open>Interleaved_Work\<close>): in every state (\<open>creach\<close>, with a flag as
    above) the mutex excludes and its holder releases it within two of its own turns. While the flag is
    true no wake-up is lost between a push, a swap and a write, and a stop request takes the loop out of
    its blocking system call. All jobs posted concurrently are run to their end, each once, under the
    bounds of \<open>Posting\<close>. Uninterrupted statements are the calls of the theories above.
  \<^item> Liveness (\<open>Shutdown\<close>, \<open>Runtime\<close>): \<open>shutdown\<close>, the destructor and \<open>Runtime::stop\<close> return with every
    task finished.
  \<^item> Hand-off (\<open>Runtime\<close>, \<open>Handoff\<close>): round robin, in order, nothing lost, balanced to within one job;
    in every schedule all jobs posted to a running runtime, fewer than 128 for each worker and with a
    first operation that has no deadline, are run by the workers they belong to, and \<open>stop()\<close> then
    returns.
  \<^item> The whole (\<open>Blocking\<close>): tasks handed to a scheduler have together the effects of an interleaving of
    their bodies run as blocking code. The test theories are instances of it: their sections return,
    and what they check of results, exceptions and order holds. With client threads, polling and a
    deadline of enough polls the tests that read files pass, counters included, and those that write
    files come through \<open>stop()\<close> with every job completed.
  \<^item> Limits (\<open>Scheduler_Limits\<close>, \<open>Operation_Tests\<close>): arming the eventfd read on a full ring overwrites an
    entry, so that a burst of as many posts as the ring has entries loses an operation, and a ring
    of one entry hangs \<open>shutdown\<close> when a task waits before the first \<open>drain\<close>; \<open>spawn\<close> may throw \<open>SQFull\<close>
    after the body has run, which in a ring with one free slot leads to repeated effects and to a use
    after free. \<open>Runtime::stop\<close> leaves jobs unrun that are still in an
    inbox.

  \<^bold>\<open>Bounds.\<close> Liveness needs room in the submission ring for two entries per task and the eventfd
  read. Program theorems fix the default ring of 256 entries, so fewer than 128 tasks. The rounds a
  thread makes before it sees a stop request are arguments, over which the theorems quantify. The
  deadline of a test is the number of polls it allows, with a round of every thread between two
  polls; the theorems say that from some number on every deadline suffices. The stress test of
  \<^verbatim>\<open>multi_threaded.cpp\<close> posts 320 jobs and is outside these bounds: \<open>stress_passes\<close> covers it for fewer
  than 128, and \<open>burst_loses_operation\<close> shows what can happen from 256 on.

  \<^bold>\<open>Simplifications.\<close> The body of a coroutine is a finite tree: it may depend on every result, but a
  body that goes on for ever, such as an accept loop, cannot be expressed, and what is said of
  \<open>resume_handle\<close> and of the liveness of tasks is said of bodies that end. A body does not itself call a
  scheduler. The thread-local flag \<open>tl_sq_full\<close> is kept with the scheduler: every call that can set it
  (\<open>spawn\<close>, and \<open>drain\<close> when it resumes a coroutine) clears it before it returns, as \<open>calm\<close> in
  \<open>Scheduler_Inv\<close> says, so no call sees what another left behind. In \<open>Runtime_stop\<close> the rounds each
  thread makes before it sees its request are arguments, and the workers make none while the dispatcher
  is being stopped; \<open>Interleaving\<close> has the stop request in detail for one scheduler.

  \<^bold>\<open>Not modelled.\<close> The logging compiled in by \<open>ENABLE_LOGGING\<close>, which calls an external library and
  changes no state. The memory model: statements are interleaved on one memory, atomic accesses and
  their orderings are not distinguished, and a callable or the resumption of a coroutine is one
  statement. The threads of a \<open>Runtime\<close> and of the tests are interleaved at the granularity of \<open>drain\<close>
  and \<open>post\<close>. The lifetime of the stop callback. The contents of buffers, files and sockets, hence the
  checks of the tests on them: the definitions of these tests end before those checks. The test harness
  and its progress output, the creation of sockets and files, random data, wall-clock time. The programs
  of \<^verbatim>\<open>tests/\<close>.
\<close>

end
